(* ===== verification/Prelude.thy ===== *)
theory Prelude
  imports Main "HOL-Library.Word" "HOL-Library.Multiset"
    "HOL-Library.List_Lexorder" "HOL-Library.Char_ord" "HOL-Library.Sublist"
begin

text \<open>
  Shared vocabulary of the development: the outcome of a Rust call (a value, an error value or a
  panic), the two bind operations that stand for the \<open>?\<close> operator, the interface of an
  unspecified iteration order (hash maps and hash sets), and the generic list and map lemmas the
  components use.
\<close>

section \<open>Outcomes of a call\<close>

text \<open>
  \<open>Ok\<close> and \<open>Err\<close> are the constructors of Rust's \<open>Result\<close>. \<open>Panic\<close> is a panic, which no
  \<open>match\<close> on the result can catch.
\<close>

datatype ('e, 'a) res = Ok 'a | Err 'e | Panic

fun bind_res :: "('e, 'a) res \<Rightarrow> ('a \<Rightarrow> ('e, 'b) res) \<Rightarrow> ('e, 'b) res" where
  "bind_res (Ok x) f = f x"
| "bind_res (Err e) f = Err e"
| "bind_res Panic f = Panic"

fun map_err :: "('e \<Rightarrow> 'd) \<Rightarrow> ('e, 'a) res \<Rightarrow> ('d, 'a) res" where
  "map_err g (Ok x) = Ok x"
| "map_err g (Err e) = Err (g e)"
| "map_err g Panic = Panic"

fun ok_or :: "'e \<Rightarrow> 'a option \<Rightarrow> ('e, 'a) res" where
  "ok_or e None = Err e"
| "ok_or e (Some x) = Ok x"

text \<open>A computation that reads and writes a state of type \<open>'s\<close>.\<close>

type_synonym ('s, 'e, 'a) sm = "'s \<Rightarrow> ('e, 'a) res \<times> 's"

definition bind_st :: "('s, 'e, 'a) sm \<Rightarrow> ('a \<Rightarrow> ('s, 'e, 'b) sm) \<Rightarrow> ('s, 'e, 'b) sm" where
  "bind_st m f s =
     (case m s of
        (Ok x, s') \<Rightarrow> f x s'
      | (Err e, s') \<Rightarrow> (Err e, s')
      | (Panic, s') \<Rightarrow> (Panic, s'))"

definition ret_st :: "'a \<Rightarrow> ('s, 'e, 'a) sm" where
  "ret_st x s = (Ok x, s)"

definition lift_st :: "('e, 'a) res \<Rightarrow> ('s, 'e, 'a) sm" where
  "lift_st r s = (r, s)"

definition map_err_st :: "('e \<Rightarrow> 'd) \<Rightarrow> ('s, 'e, 'a) sm \<Rightarrow> ('s, 'd, 'a) sm" where
  "map_err_st g m s = (case m s of (r, s') \<Rightarrow> (map_err g r, s'))"

named_theorems res_iff
named_theorems st_simps

lemma bind_res_Ok_iff [res_iff]: "bind_res r f = Ok y \<longleftrightarrow> (\<exists>x. r = Ok x \<and> f x = Ok y)"
  by (cases r) auto

lemma bind_res_Err_iff [res_iff]:
  "bind_res r f = Err e \<longleftrightarrow> r = Err e \<or> (\<exists>x. r = Ok x \<and> f x = Err e)"
  by (cases r) auto

lemma bind_res_Panic_iff [res_iff]:
  "bind_res r f = Panic \<longleftrightarrow> r = Panic \<or> (\<exists>x. r = Ok x \<and> f x = Panic)"
  by (cases r) auto

lemma map_err_Ok_iff [res_iff]: "map_err g r = Ok x \<longleftrightarrow> r = Ok x"
  by (cases r) auto

lemma map_err_Err_iff [res_iff]: "map_err g r = Err e \<longleftrightarrow> (\<exists>d. r = Err d \<and> e = g d)"
  by (cases r) auto

lemma map_err_Panic_iff [res_iff]: "map_err g r = Panic \<longleftrightarrow> r = Panic"
  by (cases r) auto

lemma ok_or_Ok_iff [res_iff]: "ok_or e r = Ok x \<longleftrightarrow> r = Some x"
  by (cases r) auto

lemma ok_or_Err_iff [res_iff]: "ok_or e r = Err d \<longleftrightarrow> r = None \<and> d = e"
  by (cases r) auto

lemma ok_or_not_Panic [simp]: "ok_or e r \<noteq> Panic"
  by (cases r) auto

lemma bind_st_simps [st_simps]:
  "m s = (Ok x, s') \<Longrightarrow> bind_st m f s = f x s'"
  "m s = (Err e, s') \<Longrightarrow> bind_st m f s = (Err e, s')"
  "m s = (Panic, s') \<Longrightarrow> bind_st m f s = (Panic, s')"
  by (simp_all add: bind_st_def)

lemma bind_st_Ok_iff [res_iff]:
  "bind_st m f s = (Ok y, t) \<longleftrightarrow> (\<exists>x u. m s = (Ok x, u) \<and> f x u = (Ok y, t))"
  by (auto simp: bind_st_def split: prod.splits res.splits)

section \<open>Iteration order of hash containers\<close>

text \<open>
  \<open>HashMap\<close> and \<open>HashSet\<close> promise no iteration order. The order is an argument of the
  definitions that iterate, and all that is known about it is that it enumerates exactly the
  elements it is given.
\<close>

locale iteration_order =
  fixes ord :: "'a list \<Rightarrow> 'a list"
  assumes ord_mset: "mset (ord xs) = mset xs"
begin

lemma ord_set: "set (ord xs) = set xs"
  by (metis ord_mset set_mset_mset)

lemma ord_length: "length (ord xs) = length xs"
  by (metis ord_mset size_mset)

lemma ord_concat_mset: "mset (concat (map f (ord xs))) = mset (concat (map f xs))"
proof -
  have "mset (concat (map f ys)) = (\<Sum>y \<in># mset ys. mset (f y))" for ys
    by (induction ys) simp_all
  then show ?thesis by (simp add: ord_mset)
qed

lemma ord_Nil: "ord [] = []"
  using ord_length [of "[]"] by simp

end

interpretation list_order: iteration_order "\<lambda>xs. xs"
  by unfold_locales simp

interpretation rev_order: iteration_order rev
  by unfold_locales simp

section \<open>Lists\<close>

text \<open>The slice method \<open>chunks\<close>, for a positive chunk size.\<close>

function chunks :: "nat \<Rightarrow> 'a list \<Rightarrow> 'a list list" where
  "chunks n xs = (if n = 0 \<or> xs = [] then [] else take n xs # chunks n (drop n xs))"
  by pat_completeness auto
termination
  by (relation "measure (\<lambda>(n, xs). length xs)") auto

declare chunks.simps [simp del]

lemma chunks_Nil [simp]: "chunks n [] = []"
  by (simp add: chunks.simps)

lemma chunks_nonempty:
  "0 < n \<Longrightarrow> xs \<noteq> [] \<Longrightarrow> chunks n xs = take n xs # chunks n (drop n xs)"
  by (subst chunks.simps) simp

lemma concat_chunks [simp]: "0 < n \<Longrightarrow> concat (chunks n xs) = xs"
proof (induction n xs rule: chunks.induct)
  case (1 n xs)
  then show ?case by (cases "xs = []") (simp_all add: chunks_nonempty)
qed

lemma chunks_bounds: "c \<in> set (chunks n xs) \<Longrightarrow> 0 < length c \<and> length c \<le> n"
proof (induction n xs rule: chunks.induct)
  case (1 n xs)
  show ?case
  proof (cases "n = 0 \<or> xs = []")
    case True
    with "1.prems" show ?thesis by (subst (asm) chunks.simps) simp
  next
    case False
    with "1.prems" have "c = take n xs \<or> c \<in> set (chunks n (drop n xs))"
      by (subst (asm) chunks.simps) simp
    with "1.IH" False show ?thesis by auto
  qed
qed

lemma length_chunks: "0 < n \<Longrightarrow> length (chunks n xs) = (length xs + n - 1) div n"
proof (induction n xs rule: chunks.induct)
  case (1 n xs)
  show ?case
  proof (cases "xs = []")
    case True
    with "1.prems" show ?thesis by simp
  next
    case False
    with 1 have IH: "length (chunks n (drop n xs)) = (length xs - n + n - 1) div n" by simp
    have "(length xs + n - 1) div n = Suc ((length xs - n + n - 1) div n)"
    proof (cases "n \<le> length xs")
      case True
      then have eq: "length xs + n - 1 = n + (length xs - n + n - 1)"
        using \<open>0 < n\<close> by simp
      show ?thesis using \<open>0 < n\<close> by (subst eq, subst div_add_self1) simp_all
    next
      case short: False
      with False have eq: "length xs + n - 1 = n + (length xs - 1)" and small: "length xs - 1 < n"
        by (cases xs, simp_all)+
      have "(length xs + n - 1) div n = 1"
        using small \<open>0 < n\<close> by (subst eq, subst div_add_self1) simp_all
      with short \<open>0 < n\<close> show ?thesis by simp
    qed
    with IH False \<open>0 < n\<close> show ?thesis by (simp add: chunks_nonempty)
  qed
qed

lemma sum_list_length_concat: "sum_list (map length xss) = length (concat xss)"
  by (simp add: length_concat)

lemma map_filter_append [simp]:
  "List.map_filter f (xs @ ys) = List.map_filter f xs @ List.map_filter f ys"
  by (induction xs) (auto simp: List.map_filter_simps split: option.splits)

lemma map_filter_concat:
  "List.map_filter f (concat xss) = concat (map (List.map_filter f) xss)"
  by (induction xss) (auto simp: List.map_filter_simps)

lemma set_map_filter: "set (List.map_filter f xs) = {y. \<exists>x \<in> set xs. f x = Some y}"
  by (induction xs) (auto simp: List.map_filter_simps split: option.splits)

lemma remdups_adj_sort_set: "set (remdups_adj (sort xs)) = set xs"
  by simp

lemma distinct_remdups_adj_sorted:
  fixes xs :: "'a::linorder list"
  shows "sorted xs \<Longrightarrow> distinct (remdups_adj xs)"
  by (induction xs rule: remdups_adj.induct) (force simp: le_less)+

lemma remdups_adj_sort_distinct:
  fixes xs :: "'a::linorder list"
  shows "distinct (remdups_adj (sort xs))"
  by (rule distinct_remdups_adj_sorted) simp

section \<open>Maps\<close>

lemma map_leD: "m \<subseteq>\<^sub>m m' \<Longrightarrow> m k = Some v \<Longrightarrow> m' k = Some v"
  by (auto simp: map_le_def dom_def)

lemma map_leI: "(\<And>k v. m k = Some v \<Longrightarrow> m' k = Some v) \<Longrightarrow> m \<subseteq>\<^sub>m m'"
  by (auto simp: map_le_def dom_def)

lemma map_of_filter_key:
  "map_of (filter (\<lambda>e. P (fst e)) xs) k = (if P k then map_of xs k else None)"
  by (induction xs) auto

lemma map_of_take: "map_of (take n xs) k = Some v \<Longrightarrow> map_of xs k = Some v"
proof (induction xs arbitrary: n)
  case Nil
  then show ?case by simp
next
  case (Cons x xs)
  then show ?case by (cases n) (auto split: if_splits)
qed

end
