(* ===== verification/Rust_Std.thy ===== *)
theory Rust_Std
  imports Prelude
begin

text \<open>
  The parts of Rust's standard library the program calls: 64-bit integers with the wrap-around of
  a release build, \<open>from_str\<close> for integers, \<open>Display\<close> for integers, \<open>trim().is_empty()\<close>,
  \<open>to_lowercase\<close> and \<open>contains\<close> on strings. A Rust string is the list of its UTF-8 bytes.
\<close>

section \<open>Integers\<close>

type_synonym u64 = "64 word"
type_synonym i64 = int

text \<open>
  An \<open>i64\<close> is an \<open>int\<close> in the range below. Arithmetic whose overflow the model follows is
  wrapped explicitly: the service is built with \<^verbatim>\<open>cargo build --release\<close>, where \<open>+\<close> and \<open>-\<close> wrap.
\<close>

definition i64_ok :: "int \<Rightarrow> bool" where
  "i64_ok x \<longleftrightarrow> - (2 ^ 63) \<le> x \<and> x < 2 ^ 63"

definition wrap_i64 :: "int \<Rightarrow> i64" where
  "wrap_i64 x = (x + 2 ^ 63) mod 2 ^ 64 - 2 ^ 63"

definition u64_as_i64 :: "u64 \<Rightarrow> i64" where
  "u64_as_i64 w = wrap_i64 (uint w)"

lemma wrap_i64_ok [simp]: "i64_ok (wrap_i64 x)"
proof -
  have "0 \<le> (x + 2 ^ 63) mod 2 ^ 64" and "(x + 2 ^ 63) mod 2 ^ 64 < 2 ^ 64"
    by simp_all
  then show ?thesis unfolding wrap_i64_def i64_ok_def by simp
qed

lemma wrap_i64_id [simp]: "i64_ok x \<Longrightarrow> wrap_i64 x = x"
  by (simp add: wrap_i64_def i64_ok_def)

lemma u64_as_i64_ok [simp]: "i64_ok (u64_as_i64 w)"
  by (simp add: u64_as_i64_def)

lemma u64_as_i64_small: "uint w < 2 ^ 63 \<Longrightarrow> u64_as_i64 w = uint w"
proof -
  assume small: "uint w < 2 ^ 63"
  have "i64_ok (uint w)"
    unfolding i64_ok_def using small uint_ge_0 [of w] by linarith
  then show ?thesis by (simp add: u64_as_i64_def)
qed

lemma u64_as_i64_signed: "u64_as_i64 w = sint w"
  by (cases "uint w < 2 ^ 63")
    (simp_all add: u64_as_i64_def wrap_i64_def sint_uint signed_take_bit_eq_take_bit_shift take_bit_eq_mod)

section \<open>Parsing and printing integers\<close>

definition is_digit :: "char \<Rightarrow> bool" where
  "is_digit c \<longleftrightarrow> 48 \<le> (of_char c :: nat) \<and> (of_char c :: nat) \<le> 57"

definition digit_val :: "char \<Rightarrow> nat" where
  "digit_val c = of_char c - 48"

definition digit_char :: "nat \<Rightarrow> char" where
  "digit_char d = char_of (48 + d)"

fun digits_val :: "nat \<Rightarrow> string \<Rightarrow> nat option" where
  "digits_val acc [] = Some acc"
| "digits_val acc (c # cs) =
     (if is_digit c then digits_val (10 * acc + digit_val c) cs else None)"

definition parse_digits :: "string \<Rightarrow> nat option" where
  "parse_digits s = (if s = [] then None else digits_val 0 s)"

definition strip_plus :: "string \<Rightarrow> string" where
  "strip_plus s = (case s of [] \<Rightarrow> [] | c # cs \<Rightarrow> if c = CHR ''+'' then cs else s)"

text \<open>\<open>from_str\<close> of an unsigned type with the largest value \<open>mx\<close>.\<close>

definition parse_unsigned :: "nat \<Rightarrow> string \<Rightarrow> nat option" where
  "parse_unsigned mx s =
     (case parse_digits (strip_plus s) of
        None \<Rightarrow> None
      | Some n \<Rightarrow> if n \<le> mx then Some n else None)"

definition parse_i64 :: "string \<Rightarrow> i64 option" where
  "parse_i64 s =
     (if s \<noteq> [] \<and> hd s = CHR ''-''
      then (case parse_digits (tl s) of
              None \<Rightarrow> None
            | Some n \<Rightarrow> if i64_ok (- int n) then Some (- int n) else None)
      else (case parse_digits (strip_plus s) of
              None \<Rightarrow> None
            | Some n \<Rightarrow> if i64_ok (int n) then Some (int n) else None))"

fun show_nat :: "nat \<Rightarrow> string" where
  "show_nat n = (if n < 10 then [digit_char n] else show_nat (n div 10) @ [digit_char (n mod 10)])"

declare show_nat.simps [simp del]

definition show_int :: "int \<Rightarrow> string" where
  "show_int i = (if i < 0 then CHR ''-'' # show_nat (nat (- i)) else show_nat (nat i))"

lemma parse_i64_ok: "parse_i64 s = Some n \<Longrightarrow> i64_ok n"
  by (auto simp: parse_i64_def split: if_splits option.splits)

lemma of_char_digit_char: "d < 10 \<Longrightarrow> (of_char (digit_char d) :: nat) = 48 + d"
  by (simp add: digit_char_def of_char_of)

lemma is_digit_digit_char [simp]: "d < 10 \<Longrightarrow> is_digit (digit_char d)"
  by (simp add: is_digit_def of_char_digit_char)

lemma digit_val_digit_char [simp]: "d < 10 \<Longrightarrow> digit_val (digit_char d) = d"
  by (simp add: digit_val_def of_char_digit_char)

lemma show_nat_nonempty [simp]: "show_nat n \<noteq> []"
  by (subst show_nat.simps) simp

lemma show_nat_digits: "\<forall>c \<in> set (show_nat n). is_digit c"
proof (induction n rule: show_nat.induct)
  case (1 n)
  then show ?case by (subst show_nat.simps) auto
qed

lemma digits_val_append:
  "digits_val acc (xs @ ys) =
     (case digits_val acc xs of None \<Rightarrow> None | Some n \<Rightarrow> digits_val n ys)"
  by (induction xs arbitrary: acc) auto

lemma digits_val_show_nat: "digits_val 0 (show_nat n) = Some n"
proof (induction n rule: show_nat.induct)
  case (1 n)
  then show ?case
    by (subst show_nat.simps) (auto simp: digits_val_append)
qed

lemma parse_digits_show_nat [simp]: "parse_digits (show_nat n) = Some n"
  by (simp add: parse_digits_def digits_val_show_nat)

lemma is_digit_not_sign: "is_digit c \<Longrightarrow> c \<noteq> CHR ''-'' \<and> c \<noteq> CHR ''+'' \<and> c \<noteq> CHR '':''"
  by (auto simp: is_digit_def)

lemma hd_show_nat: "is_digit (hd (show_nat n))"
  using show_nat_digits [of n] by (cases "show_nat n") auto

lemma strip_plus_show_nat [simp]: "strip_plus (show_nat n) = show_nat n"
  using hd_show_nat [of n] by (cases "show_nat n") (auto simp: strip_plus_def dest: is_digit_not_sign)

lemma parse_i64_show_int [simp]: "i64_ok i \<Longrightarrow> parse_i64 (show_int i) = Some i"
  using hd_show_nat [of "nat i"]
  by (auto simp: parse_i64_def show_int_def dest: is_digit_not_sign)

lemma show_nat_inj: "show_nat m = show_nat n \<longleftrightarrow> m = n"
  by (metis digits_val_show_nat option.inject)

lemma show_int_no_colon: "CHR '':'' \<notin> set (show_int i)"
  using show_nat_digits by (auto simp: show_int_def dest: is_digit_not_sign)

lemma show_int_inj: "show_int i = show_int j \<longleftrightarrow> i = j"
proof
  assume eq: "show_int i = show_int j"
  have sign: "\<not> is_digit (CHR ''-'')" by (simp add: is_digit_def)
  have hd_digit: "hd (show_nat n) \<noteq> CHR ''-''" for n
    using hd_show_nat [of n] sign by metis
  show "i = j"
  proof (cases "i < 0"; cases "j < 0")
    assume "i < 0" "j < 0"
    with eq show ?thesis by (simp add: show_int_def show_nat_inj)
  next
    assume "i < 0" "\<not> j < 0"
    with eq hd_digit [of "nat j"] show ?thesis by (auto simp: show_int_def dest: arg_cong [of _ _ hd])
  next
    assume "\<not> i < 0" "j < 0"
    with eq hd_digit [of "nat i"] show ?thesis by (auto simp: show_int_def dest: arg_cong [of _ _ hd])
  next
    assume "\<not> i < 0" "\<not> j < 0"
    with eq show ?thesis by (simp add: show_int_def show_nat_inj)
  qed
qed simp

section \<open>Strings\<close>

text \<open>
  \<open>s.trim().is_empty()\<close>: the string consists of \<open>White_Space\<close> code points only. In UTF-8 these
  are six single bytes and the two- and three-byte sequences listed here.
\<close>

definition ascii_ws :: "nat \<Rightarrow> bool" where
  "ascii_ws b \<longleftrightarrow> (9 \<le> b \<and> b \<le> 13) \<or> b = 32"

fun ws_codes :: "nat list \<Rightarrow> bool" where
  "ws_codes [] = True"
| "ws_codes (a # bs) =
     (if ascii_ws a then ws_codes bs
      else case bs of
        [] \<Rightarrow> False
      | b # cs \<Rightarrow>
          if a = 194 \<and> (b = 133 \<or> b = 160) then ws_codes cs
          else case cs of
            [] \<Rightarrow> False
          | c # ds \<Rightarrow>
              if (a = 225 \<and> b = 154 \<and> c = 128)
               \<or> (a = 226 \<and> b = 128 \<and> ((128 \<le> c \<and> c \<le> 138) \<or> c = 168 \<or> c = 169 \<or> c = 175))
               \<or> (a = 226 \<and> b = 129 \<and> c = 159)
               \<or> (a = 227 \<and> b = 128 \<and> c = 128)
              then ws_codes ds else False)"

definition trim_is_empty :: "string \<Rightarrow> bool" where
  "trim_is_empty s = ws_codes (map of_char s)"

text \<open>
  \<open>to_lowercase\<close>, of which the program only tests whether the result is \<open>add\<close> or \<open>remove\<close>.
  Only ASCII letters have a lower case that consists of the letters of these two words, so the
  bytes of other characters are kept.
\<close>

definition lower_char :: "char \<Rightarrow> char" where
  "lower_char c =
     (let n = (of_char c :: nat) in if 65 \<le> n \<and> n \<le> 90 then char_of (n + 32) else c)"

definition to_lowercase :: "string \<Rightarrow> string" where
  "to_lowercase s = map lower_char s"

fun str_contains :: "string \<Rightarrow> string \<Rightarrow> bool" where
  "str_contains [] pat = (pat = [])"
| "str_contains (c # cs) pat = (take (length pat) (c # cs) = pat \<or> str_contains cs pat)"

lemma str_contains_sublist: "str_contains s pat \<longleftrightarrow> sublist pat s"
proof (induction s)
  case Nil
  then show ?case by simp
next
  case (Cons c cs)
  have "take (length pat) (c # cs) = pat \<longleftrightarrow> prefix pat (c # cs)"
    by (metis append_eq_conv_conj append_take_drop_id prefix_def)
  with Cons show ?case by (simp add: sublist_Cons_right)
qed

lemma length_to_lowercase [simp]: "length (to_lowercase s) = length s"
  by (simp add: to_lowercase_def)

end
