(* ===== verification/F64.thy ===== *)
theory F64
  imports Complex_Main Rust_Std
begin

text \<open>
  IEEE 754 binary64 values and the operations on them that the program performs: \<open>u64 as f64\<close>,
  division, and \<open>str::parse::<f64>\<close>. A finite value is a sign, a mantissa and a binary exponent;
  every operation rounds to nearest, ties to even.
\<close>

section \<open>Values and rounding\<close>

datatype f64 = F64 bool nat int | F64_inf bool | F64_nan

fun bits :: "nat \<Rightarrow> nat" where
  "bits n = (if n = 0 then 0 else Suc (bits (n div 2)))"

declare bits.simps [simp del]

text \<open>The quotient \<open>a / b\<close> rounded to the nearest integer, ties to even.\<close>

definition rne :: "nat \<Rightarrow> nat \<Rightarrow> nat" where
  "rne a b =
     (let d = a div b; r = a mod b
      in if 2 * r < b \<or> (2 * r = b \<and> even d) then d else Suc d)"

text \<open>Numerator and denominator of \<open>(p / q) / 2 ^ e\<close>.\<close>

definition scaled :: "nat \<Rightarrow> nat \<Rightarrow> int \<Rightarrow> nat \<times> nat" where
  "scaled p q e = (if 0 \<le> e then (p, q * 2 ^ nat e) else (p * 2 ^ nat (- e), q))"

definition ratio_exp :: "nat \<Rightarrow> nat \<Rightarrow> int" where
  "ratio_exp p q =
     (let e = int (bits p) - int (bits q) - 53
      in case scaled p q e of (a, b) \<Rightarrow> if a < b * 2 ^ 53 then e else e + 1)"

text \<open>The double nearest to \<open>p / q\<close>.\<close>

definition f64_of_ratio :: "nat \<Rightarrow> nat \<Rightarrow> f64" where
  "f64_of_ratio p q =
     (if p = 0 then F64 False 0 0
      else let e = max (ratio_exp p q) (-1074);
               m = (case scaled p q e of (a, b) \<Rightarrow> rne a b);
               (m', e') = (if m = 2 ^ 53 then (2 ^ 52, e + 1) else (m, e))
           in if e' > 971 then F64_inf False else F64 False m' e')"

fun f64_neg :: "f64 \<Rightarrow> f64" where
  "f64_neg (F64 s m e) = F64 (\<not> s) m e"
| "f64_neg (F64_inf s) = F64_inf (\<not> s)"
| "f64_neg F64_nan = F64_nan"

definition f64_signed :: "bool \<Rightarrow> f64 \<Rightarrow> f64" where
  "f64_signed s x = (if s then f64_neg x else x)"

text \<open>\<open>n as f64\<close> for an unsigned integer.\<close>

definition f64_of_nat :: "nat \<Rightarrow> f64" where
  "f64_of_nat n = f64_of_ratio n 1"

fun f64_div :: "f64 \<Rightarrow> f64 \<Rightarrow> f64" where
  "f64_div F64_nan y = F64_nan"
| "f64_div x F64_nan = F64_nan"
| "f64_div (F64_inf s) (F64_inf t) = F64_nan"
| "f64_div (F64_inf s) (F64 t n f) = F64_inf (s \<noteq> t)"
| "f64_div (F64 s m e) (F64_inf t) = F64 (s \<noteq> t) 0 0"
| "f64_div (F64 s m e) (F64 t n f) =
     (if n = 0 then (if m = 0 then F64_nan else F64_inf (s \<noteq> t))
      else f64_signed (s \<noteq> t)
             (if f \<le> e then f64_of_ratio (m * 2 ^ nat (e - f)) n
              else f64_of_ratio m (n * 2 ^ nat (f - e))))"

fun f64_val :: "f64 \<Rightarrow> real" where
  "f64_val (F64 s m e) = (if s then - 1 else 1) * of_nat m * 2 powi e"
| "f64_val _ = 0"

fun f64_finite :: "f64 \<Rightarrow> bool" where
  "f64_finite (F64 s m e) = True"
| "f64_finite _ = False"

section \<open>Rounding is to nearest\<close>

lemma bits_lower: "0 < n \<Longrightarrow> 2 ^ (bits n - 1) \<le> n"
proof (induction n rule: bits.induct)
  case (1 n)
  show ?case
  proof (cases "n div 2 = 0")
    case True
    with "1.prems" have "n = 1" by linarith
    then show ?thesis by (simp add: bits.simps)
  next
    case False
    with 1 have IH: "2 ^ (bits (n div 2) - 1) \<le> n div 2" by simp
    from False obtain k where k: "bits (n div 2) = Suc k"
      by (subst (asm) bits.simps) (metis bits.simps)
    from IH k have "2 ^ Suc k \<le> n" by simp
    with k "1.prems" show ?thesis by (subst bits.simps) simp
  qed
qed

lemma bits_upper: "n < 2 ^ bits n"
proof (induction n rule: bits.induct)
  case (1 n)
  then show ?case by (subst bits.simps) auto
qed

lemma bits_pos: "0 < n \<Longrightarrow> 0 < bits n"
  by (subst bits.simps) simp

lemma scaled_val:
  assumes "0 < q" and "scaled p q e = (a, b)"
  shows "0 < b" and "(of_nat a :: real) / of_nat b = of_nat p / of_nat q / 2 powi e"
proof -
  show "0 < b" using assms by (auto simp: scaled_def split: if_splits)
  show "(of_nat a :: real) / of_nat b = of_nat p / of_nat q / 2 powi e"
  proof (cases "0 \<le> e")
    case True
    with assms show ?thesis by (auto simp: scaled_def power_int_def)
  next
    case False
    with assms show ?thesis by (auto simp: scaled_def power_int_def field_simps)
  qed
qed

lemma rne_error:
  assumes "0 < b"
  shows "\<bar>(of_nat (rne a b) :: real) - of_nat a / of_nat b\<bar> \<le> 1 / 2"
proof -
  let ?d = "a div b" and ?r = "a mod b"
  have a: "(of_nat a :: real) = of_nat ?d * of_nat b + of_nat ?r"
    by (metis div_mult_mod_eq of_nat_add of_nat_mult)
  have quot: "(of_nat a :: real) / of_nat b = of_nat ?d + of_nat ?r / of_nat b"
    using assms by (simp add: a add_divide_distrib)
  have r: "?r < b" using assms by simp
  show ?thesis
  proof (cases "rne a b = ?d")
    case True
    then have "2 * ?r \<le> b" by (auto simp: rne_def Let_def split: if_splits)
    then have "2 * real ?r \<le> real b" by linarith
    then have "real ?r / real b \<le> 1 / 2" using assms by (simp add: field_simps)
    moreover have "0 \<le> real ?r / real b" by simp
    ultimately show ?thesis unfolding quot True by linarith
  next
    case False
    then have m: "rne a b = Suc ?d" and "b \<le> 2 * ?r"
      by (auto simp: rne_def Let_def split: if_splits)
    then have "real b \<le> 2 * real ?r" by linarith
    then have "1 / 2 \<le> real ?r / real b" using assms by (simp add: field_simps)
    moreover have "real ?r / real b \<le> 1" using r assms by simp
    ultimately show ?thesis unfolding quot m of_nat_Suc by linarith
  qed
qed

lemma rne_ge: "0 < b \<Longrightarrow> k * b \<le> a \<Longrightarrow> k \<le> rne a b"
proof -
  assume "0 < b" "k * b \<le> a"
  then have "k \<le> a div b" by (simp add: less_eq_div_iff_mult_less_eq)
  then show ?thesis by (simp add: rne_def Let_def)
qed

lemma rne_le: "0 < b \<Longrightarrow> a < k * b \<Longrightarrow> rne a b \<le> k"
proof -
  assume "0 < b" "a < k * b"
  then have "a div b < k" by (simp add: less_mult_imp_div_less)
  then show ?thesis by (simp add: rne_def Let_def)
qed

lemma rne_one [simp]: "rne a (Suc 0) = a"
  by (simp add: rne_def)

lemma ratio_exp_bounds:
  assumes "0 < p" and "0 < q"
  shows "2 powi (ratio_exp p q + 52) \<le> real p / real q"
    and "real p / real q < 2 powi (ratio_exp p q + 53)"
proof -
  let ?e = "int (bits p) - int (bits q) - 53"
  let ?x = "real p / real q"
  have p1: "real (2 ^ (bits p - 1)) \<le> real p" and q1: "real (2 ^ (bits q - 1)) \<le> real q"
    using assms bits_lower of_nat_le_iff by blast+
  have p2: "real p < real (2 ^ bits p)" and q2: "real q < real (2 ^ bits q)"
    using bits_upper of_nat_less_iff by blast+
  have pp: "(2::real) ^ bits p = 2 * 2 ^ (bits p - 1)" and qq: "(2::real) ^ bits q = 2 * 2 ^ (bits q - 1)"
    using assms bits_pos [of p] bits_pos [of q] by (simp_all add: power_eq_if)
  have low: "2 powi (?e + 52) \<le> ?x"
  proof -
    have "2 powi (?e + 52) = (2 ^ (bits p - 1)) / (2 ^ bits q :: real)"
      using assms bits_pos [of p] by (simp add: power_int_diff pp of_nat_diff)
    also have "\<dots> \<le> ?x"
      using p1 q2 assms by (intro frac_le) simp_all
    finally show ?thesis .
  qed
  have high: "?x < 2 powi (?e + 54)"
  proof -
    have "?x < (2 ^ bits p) / (2 ^ (bits q - 1) :: real)"
      using p2 q1 assms by (intro frac_less) simp_all
    also have "\<dots> = 2 powi (?e + 54)"
      using assms bits_pos [of q] by (simp add: power_int_diff qq of_nat_diff power_int_add)
    finally show ?thesis .
  qed
  obtain a b where ab: "scaled p q ?e = (a, b)" by fastforce
  note sv = scaled_val [OF assms(2) ab]
  have test: "a < b * 2 ^ 53 \<longleftrightarrow> ?x < 2 powi (?e + 53)"
  proof -
    have "a < b * 2 ^ 53 \<longleftrightarrow> real a / real b < 2 ^ 53"
    proof -
      have "a < b * 2 ^ 53 \<longleftrightarrow> real a < real (b * 2 ^ 53)" by (rule of_nat_less_iff [symmetric])
      also have "\<dots> \<longleftrightarrow> real a / real b < 2 ^ 53"
        using sv(1) by (simp only: of_nat_mult of_nat_power of_nat_numeral)
          (simp add: pos_divide_less_eq mult.commute)
      finally show ?thesis .
    qed
    also have "\<dots> \<longleftrightarrow> ?x < 2 powi (?e + 53)"
    proof -
      have pow: "(2::real) powi (?e + 53) = 2 ^ 53 * 2 powi ?e"
        by (subst power_int_add) (simp_all del: power_int_add_numeral power_int_add_numeral2)
      have pos: "(0::real) < 2 powi ?e" by simp
      show ?thesis unfolding sv(2) pow by (rule pos_divide_less_eq [OF pos])
    qed
    finally show ?thesis .
  qed
  show "2 powi (ratio_exp p q + 52) \<le> ?x" and "?x < 2 powi (ratio_exp p q + 53)"
    using low high test ab by (auto simp: ratio_exp_def Let_def add.assoc)
qed

lemma powi_mono_real: "(2::real) powi i < 2 powi j \<longleftrightarrow> i < j"
proof -
  have "(2::real) powi i < 2 powi j" if "i < j" for i j :: int
    using that by (rule power_int_strict_increasing) simp
  then show ?thesis by (metis less_irrefl less_linear order_less_asym)
qed

lemma f64_of_ratio_normal:
  assumes "0 < p" and "0 < q"
    and low: "2 powi (- 1000) \<le> real p / real q" and high: "real p / real q < 2 powi 1000"
  obtains m e where "f64_of_ratio p q = F64 False m e" and "0 < m"
    and "\<bar>real m * 2 powi e - real p / real q\<bar> \<le> real p / real q * 2 powi (- 53)"
proof -
  let ?e = "ratio_exp p q" and ?x = "real p / real q"
  note b = ratio_exp_bounds [OF assms(1,2)]
  have "(2::real) powi (?e + 52) < 2 powi 1000" and "(2::real) powi (- 1000) < 2 powi (?e + 53)"
    using b low high by linarith+
  then have e_range: "?e < 948" "- 1053 < ?e" unfolding powi_mono_real by linarith+
  obtain a c where ac: "scaled p q ?e = (a, c)" by fastforce
  note sv = scaled_val [OF assms(2) ac]
  let ?m = "rne a c"
  have pow52: "(2::real) powi (?e + 52) = 2 ^ 52 * 2 powi ?e"
    by (subst power_int_add) (simp_all del: power_int_add_numeral power_int_add_numeral2)
  have pos: "(0::real) < 2 powi ?e" by simp
  have x: "?x = real a / real c * 2 powi ?e"
    unfolding sv(2) using pos by simp
  have err: "\<bar>real ?m * 2 powi ?e - ?x\<bar> \<le> 1 / 2 * 2 powi ?e"
  proof -
    have "real ?m * 2 powi ?e - ?x = (real ?m - real a / real c) * 2 powi ?e"
      unfolding x by (simp add: algebra_simps)
    then show ?thesis
      using rne_error [OF sv(1), of a] pos by (simp add: abs_mult)
  qed
  also have "\<dots> \<le> ?x * 2 powi (- 53)"
    using b(1) by (simp add: pow52 power_int_minus)
  finally have err': "\<bar>real ?m * 2 powi ?e - ?x\<bar> \<le> ?x * 2 powi (- 53)" .
  have "2 ^ 52 * real c \<le> real a"
    using b(1) pos sv(1) unfolding pow52 x by (simp add: pos_le_divide_eq)
  then have "real (2 ^ 52 * c) \<le> real a" by simp
  then have "2 ^ 52 * c \<le> a" by (simp only: of_nat_le_iff)
  then have m52: "2 ^ 52 \<le> ?m" by (rule rne_ge [OF sv(1)])
  have max_e: "max ?e (- 1074) = ?e" using e_range by simp
  show ?thesis
  proof (cases "?m = 2 ^ 53")
    case True
    then have "f64_of_ratio p q = F64 False (2 ^ 52) (?e + 1)"
      using assms(1) ac e_range by (simp add: f64_of_ratio_def max_e Let_def)
    moreover have "real (2 ^ 52) * 2 powi (?e + 1) = real ?m * 2 powi ?e"
      unfolding True by (subst power_int_add) simp_all
    ultimately show ?thesis using err' by (intro that [of "2 ^ 52" "?e + 1"]) simp_all
  next
    case False
    then have "f64_of_ratio p q = F64 False ?m ?e"
      using assms(1) ac e_range by (simp add: f64_of_ratio_def max_e Let_def)
    then show ?thesis using err' m52 by (intro that [of ?m ?e]) auto
  qed
qed

lemma f64_div_ratio:
  assumes "0 < m" and "0 < n"
  obtains p q where "0 < p" "0 < q" "f64_div (F64 False m e) (F64 False n f) = f64_of_ratio p q"
    and "real p / real q = real m * 2 powi e / (real n * 2 powi f)"
proof (cases "f \<le> e")
  case True
  have pow: "(2::real) powi e = 2 ^ nat (e - f) * 2 powi f"
    using True power_int_add [of "2::real" "e - f" f] by (simp add: power_int_def)
  show ?thesis
    by (rule that [of "m * 2 ^ nat (e - f)" n])
      (use assms True in \<open>simp_all add: f64_signed_def pow\<close>)
next
  case False
  have pow: "(2::real) powi f = 2 ^ nat (f - e) * 2 powi e"
    using False power_int_add [of "2::real" "f - e" e] by (simp add: power_int_def)
  show ?thesis
    by (rule that [of m "n * 2 ^ nat (f - e)"])
      (use assms False in \<open>simp_all add: f64_signed_def pow\<close>)
qed

section \<open>Parsing a decimal literal\<close>

text \<open>
  The grammar of \<open>f64::from_str\<close>: an optional sign, then \<open>inf\<close>, \<open>infinity\<close> or \<open>nan\<close> in any case,
  or digits with an optional fraction (at least one digit in all) and an optional exponent.
\<close>

definition split_sign :: "string \<Rightarrow> bool \<times> string" where
  "split_sign s =
     (case s of [] \<Rightarrow> (False, [])
      | c # cs \<Rightarrow> if c = CHR ''-'' then (True, cs) else if c = CHR ''+'' then (False, cs) else (False, s))"

text \<open>The value of the exponent part, 0 if there is none.\<close>

definition parse_exp :: "string \<Rightarrow> int option" where
  "parse_exp s =
     (case s of [] \<Rightarrow> Some 0
      | c # cs \<Rightarrow>
          if lower_char c = CHR ''e'' then
            (case split_sign cs of (neg, ds) \<Rightarrow>
               map_option (\<lambda>n. if neg then - int n else int n) (parse_digits ds))
          else None)"

definition f64_of_decimal :: "nat \<Rightarrow> int \<Rightarrow> f64" where
  "f64_of_decimal n x =
     (if 0 \<le> x then f64_of_ratio (n * 10 ^ nat x) 1 else f64_of_ratio n (10 ^ nat (- x)))"

definition parse_number :: "string \<Rightarrow> f64 option" where
  "parse_number s =
     (let ip = takeWhile is_digit s; r1 = dropWhile is_digit s;
          (fp, r2) = (case r1 of [] \<Rightarrow> ([], [])
                      | c # cs \<Rightarrow> if c = CHR ''.'' then (takeWhile is_digit cs, dropWhile is_digit cs)
                                 else ([], r1))
      in case parse_digits (ip @ fp) of
           None \<Rightarrow> None
         | Some n \<Rightarrow>
             (case parse_exp r2 of
                None \<Rightarrow> None
              | Some x \<Rightarrow> Some (f64_of_decimal n (x - int (length fp)))))"

definition parse_f64 :: "string \<Rightarrow> f64 option" where
  "parse_f64 s =
     (case split_sign s of (neg, r) \<Rightarrow>
        let l = to_lowercase r
        in if l = ''inf'' \<or> l = ''infinity'' then Some (F64_inf neg)
           else if l = ''nan'' then Some F64_nan
           else map_option (f64_signed neg) (parse_number r))"

end
