(* ===== verification/Models.thy ===== *)
theory Models
  imports F64
begin

text \<open>
  The data model of \<^verbatim>\<open>src/models/mod.rs\<close>: the \<open>Transaction\<close> record the service stores, caches and
  serves, its constructor, and the \<open>Address\<close> row.
\<close>

record address_row =
  ar_address :: string
  ar_added_at :: i64

record transaction =
  tx_signature :: string
  tx_block_time :: i64
  tx_slot :: i64
  tx_source :: string
  tx_destination :: "string option"
  tx_amount :: "f64 option"
  tx_program_id :: "string option"
  tx_success :: bool

definition transaction_new ::
  "string \<Rightarrow> i64 \<Rightarrow> i64 \<Rightarrow> string \<Rightarrow> string option \<Rightarrow> f64 option \<Rightarrow> string option \<Rightarrow> bool
    \<Rightarrow> transaction" where
  "transaction_new signature block_time slot source_address destination_address amount
     program_id success =
     \<lparr>tx_signature = signature, tx_block_time = block_time, tx_slot = slot,
      tx_source = source_address, tx_destination = destination_address, tx_amount = amount,
      tx_program_id = program_id, tx_success = success\<rparr>"

text \<open>The addresses a transaction refers to: its source and, if present, its destination.\<close>

definition tx_addresses :: "transaction \<Rightarrow> string list" where
  "tx_addresses t =
     tx_source t # (case tx_destination t of None \<Rightarrow> [] | Some d \<Rightarrow> [d])"

lemma tx_source_in_addresses [simp]: "tx_source t \<in> set (tx_addresses t)"
  by (simp add: tx_addresses_def)

lemma tx_destination_in_addresses: "tx_destination t = Some d \<Longrightarrow> d \<in> set (tx_addresses t)"
  by (simp add: tx_addresses_def)

lemma tx_addresses_iff:
  "a \<in> set (tx_addresses t) \<longleftrightarrow> a = tx_source t \<or> tx_destination t = Some a"
  by (auto simp: tx_addresses_def split: option.splits)

end
