(* ===== verification/Validation.thy ===== *)
theory Validation
  imports Models
begin

text \<open>
  Input validation, \<^verbatim>\<open>src/validation.rs\<close>. The base58 decoder is the crate \<open>bs58\<close>; it is the
  argument \<open>b58\<close> of the definitions, and returns the decoded bytes or nothing.
\<close>

type_synonym b58 = "string \<Rightarrow> 8 word list option"

datatype validation_error =
    MissingParameter string
  | InvalidAction string
  | InvalidSolanaAddress string
  | InvalidParameter string

section \<open>The checks\<close>

definition validate_action :: "string \<Rightarrow> (validation_error, unit) res" where
  "validate_action action =
     (if action = ''add'' \<or> action = ''remove'' then Ok () else Err (InvalidAction action))"

definition validate_solana_address :: "b58 \<Rightarrow> string \<Rightarrow> (validation_error, unit) res" where
  "validate_solana_address b58 address =
     (if trim_is_empty address then Err (MissingParameter ''address'')
      else case b58 address of
        None \<Rightarrow> Err (InvalidSolanaAddress address)
      | Some decoded \<Rightarrow>
          if length decoded \<noteq> 32 then Err (InvalidSolanaAddress address) else Ok ())"

definition validate_address_action :: "b58 \<Rightarrow> string \<Rightarrow> string \<Rightarrow> (validation_error, unit) res" where
  "validate_address_action b58 address action =
     (if trim_is_empty address then Err (MissingParameter ''address'')
      else if trim_is_empty action then Err (MissingParameter ''action'')
      else bind_res (validate_action action) (\<lambda>_. validate_solana_address b58 address))"

definition validate_timestamp :: "string \<Rightarrow> (validation_error, i64) res" where
  "validate_timestamp timestamp =
     ok_or (InvalidParameter (''Invalid timestamp: '' @ timestamp)) (parse_i64 timestamp)"

definition validate_offset :: "string \<Rightarrow> (validation_error, i64) res" where
  "validate_offset offset =
     bind_res (ok_or (InvalidParameter (''Invalid offset: '' @ offset)) (parse_i64 offset))
       (\<lambda>n. if n < 0 then Err (InvalidParameter ''Offset must be non-negative'') else Ok n)"

definition validate_limit :: "string \<Rightarrow> (validation_error, i64) res" where
  "validate_limit limit =
     bind_res (ok_or (InvalidParameter (''Invalid limit: '' @ limit)) (parse_i64 limit))
       (\<lambda>n. if n \<le> 0 then Err (InvalidParameter ''Limit must be positive'')
            else if 1000 < n then Err (InvalidParameter ''Limit cannot exceed 1000'')
            else Ok n)"

definition quoted :: "string \<Rightarrow> string" where
  "quoted s = CHR 0x27 # s @ [CHR 0x27]"

text \<open>\<open>to_string\<close> of an error, from the \<open>#[error(...)]\<close> attributes.\<close>

fun validation_error_string :: "validation_error \<Rightarrow> string" where
  "validation_error_string (MissingParameter p) = ''Missing required parameter: '' @ p"
| "validation_error_string (InvalidAction a) =
     ''Invalid action: '' @ a @ ''. Must be '' @ quoted ''add'' @ '' or '' @ quoted ''remove''"
| "validation_error_string (InvalidSolanaAddress a) = ''Invalid Solana address format: '' @ a"
| "validation_error_string (InvalidParameter p) = ''Invalid parameter: '' @ p"

section \<open>What the checks accept\<close>

lemma validate_action_Ok_iff [res_iff]:
  "validate_action a = Ok u \<longleftrightarrow> a = ''add'' \<or> a = ''remove''"
  by (auto simp: validate_action_def)

definition valid_address :: "b58 \<Rightarrow> string \<Rightarrow> bool" where
  "valid_address b58 a \<longleftrightarrow>
     \<not> trim_is_empty a \<and> (case b58 a of None \<Rightarrow> False | Some bs \<Rightarrow> length bs = 32)"

lemma validate_solana_address_Ok_iff [res_iff]:
  "validate_solana_address b58 a = Ok u \<longleftrightarrow> valid_address b58 a"
  by (auto simp: validate_solana_address_def valid_address_def split: option.splits)

lemma validate_solana_address_no_Panic [simp]: "validate_solana_address b58 a \<noteq> Panic"
  by (auto simp: validate_solana_address_def split: option.splits)

lemma validate_solana_address_cases:
  obtains (valid) "validate_solana_address b58 a = Ok ()" "valid_address b58 a"
  | (invalid) e where "validate_solana_address b58 a = Err e" "\<not> valid_address b58 a"
  by (metis (full_types) res.exhaust validate_solana_address_Ok_iff
      validate_solana_address_no_Panic old.unit.exhaust)

lemma validate_timestamp_Ok_iff [res_iff]: "validate_timestamp s = Ok n \<longleftrightarrow> parse_i64 s = Some n"
  by (simp add: validate_timestamp_def res_iff)

lemma validate_offset_Ok_iff [res_iff]:
  "validate_offset s = Ok n \<longleftrightarrow> parse_i64 s = Some n \<and> 0 \<le> n"
  by (cases "parse_i64 s") (auto simp: validate_offset_def)

lemma validate_limit_Ok_iff [res_iff]:
  "validate_limit s = Ok n \<longleftrightarrow> parse_i64 s = Some n \<and> 1 \<le> n \<and> n \<le> 1000"
  by (cases "parse_i64 s") (auto simp: validate_limit_def)

lemma validate_no_Panic [simp]:
  "validate_timestamp s \<noteq> Panic" "validate_offset s \<noteq> Panic" "validate_limit s \<noteq> Panic"
  by (auto simp: validate_timestamp_def validate_offset_def validate_limit_def res_iff)

end
