(* ===== verification/Config.thy ===== *)
theory Config
  imports Rust_Std
begin

text \<open>
  The configuration, \<^verbatim>\<open>src/config.rs\<close>. \<open>env\<close> is the process environment after \<open>dotenv()\<close> has
  merged a \<^verbatim>\<open>.env\<close> file into it: the value of a variable, or nothing where \<open>env::var\<close> fails.
  Durations are in seconds.
\<close>

type_synonym env = "string \<Rightarrow> string option"

record config =
  database_url :: string
  server_host :: string
  server_port :: nat
  solana_rpc_url :: string
  poll_interval :: nat
  cache_ttl :: nat
  cache_max_capacity :: nat
  solana_commitment_level :: string
  rpc_timeout_secs :: nat
  polling_interval_secs :: nat
  rpc_rate_limit :: "nat option"

definition u16_max :: nat where "u16_max = 2 ^ 16 - 1"
definition u32_max :: nat where "u32_max = 2 ^ 32 - 1"
definition u64_max :: nat where "u64_max = 2 ^ 64 - 1"

definition env_or :: "env \<Rightarrow> string \<Rightarrow> string \<Rightarrow> string" where
  "env_or env name dflt = (case env name of None \<Rightarrow> dflt | Some v \<Rightarrow> v)"

definition parse_or :: "nat \<Rightarrow> string \<Rightarrow> nat \<Rightarrow> nat" where
  "parse_or mx s dflt = (case parse_unsigned mx s of None \<Rightarrow> dflt | Some n \<Rightarrow> n)"

definition from_env :: "env \<Rightarrow> config" where
  "from_env env =
     \<lparr>database_url = env_or env ''DATABASE_URL'' ''sqlite:data.db'',
      server_host = env_or env ''SERVER_HOST'' ''127.0.0.1'',
      server_port = parse_or u16_max (env_or env ''SERVER_PORT'' ''8080'') 8080,
      solana_rpc_url = env_or env ''SOLANA_RPC_URL'' ''https://api.mainnet-beta.solana.com'',
      poll_interval = parse_or u64_max (env_or env ''POLL_INTERVAL'' ''10'') 10,
      cache_ttl = parse_or u64_max (env_or env ''CACHE_TTL'' ''60'') 60,
      cache_max_capacity = parse_or u64_max (env_or env ''CACHE_MAX_CAPACITY'' ''1000'') 1000,
      solana_commitment_level = env_or env ''SOLANA_COMMITMENT_LEVEL'' ''confirmed'',
      rpc_timeout_secs =
        (case env ''RPC_TIMEOUT_SECS'' of None \<Rightarrow> 30 | Some v \<Rightarrow> parse_or u64_max v 30),
      polling_interval_secs =
        (case env ''POLLING_INTERVAL_SECS'' of None \<Rightarrow> 10 | Some v \<Rightarrow> parse_or u64_max v 10),
      rpc_rate_limit =
        (case env ''RPC_RATE_LIMIT'' of None \<Rightarrow> None | Some v \<Rightarrow> parse_unsigned u32_max v)\<rparr>"

lemmas max_defs = u16_max_def u32_max_def u64_max_def

lemma parse_unsigned_le: "parse_unsigned mx s = Some n \<Longrightarrow> n \<le> mx"
  by (auto simp: parse_unsigned_def split: option.splits if_splits)

lemma pred_option_parse_unsigned [simp]: "pred_option (\<lambda>n. n \<le> mx) (parse_unsigned mx s)"
  by (auto simp: parse_unsigned_def split: option.splits)

lemma parse_or_le: "dflt \<le> mx \<Longrightarrow> parse_or mx s dflt \<le> mx"
  by (auto simp: parse_or_def dest: parse_unsigned_le split: option.splits)

lemma parse_unsigned_show_nat: "n \<le> mx \<Longrightarrow> parse_unsigned mx (show_nat n) = Some n"
  by (simp add: parse_unsigned_def)

lemma parse_or_show_nat [simp]: "n \<le> mx \<Longrightarrow> parse_or mx (show_nat n) d = n"
  by (simp add: parse_or_def parse_unsigned_show_nat)

text \<open>A configuration whose numbers fit the Rust types of their fields.\<close>

definition config_ok :: "config \<Rightarrow> bool" where
  "config_ok c \<longleftrightarrow>
     server_port c \<le> u16_max \<and> poll_interval c \<le> u64_max \<and> cache_ttl c \<le> u64_max \<and>
     cache_max_capacity c \<le> u64_max \<and> rpc_timeout_secs c \<le> u64_max \<and>
     polling_interval_secs c \<le> u64_max \<and> pred_option (\<lambda>n. n \<le> u32_max) (rpc_rate_limit c)"

lemma default_le [simp]:
  "8080 \<le> u16_max" "10 \<le> u64_max" "30 \<le> u64_max" "60 \<le> u64_max" "1000 \<le> u64_max"
  by (simp_all add: max_defs)

lemma from_env_ok: "config_ok (from_env env)"
  by (auto simp: config_ok_def from_env_def parse_or_le dest: parse_unsigned_le
      split: option.splits)

section \<open>Round trip\<close>

text \<open>The environment that a configuration prints to.\<close>

definition to_env :: "config \<Rightarrow> env" where
  "to_env c =
     [''DATABASE_URL'' \<mapsto> database_url c, ''SERVER_HOST'' \<mapsto> server_host c,
      ''SERVER_PORT'' \<mapsto> show_nat (server_port c), ''SOLANA_RPC_URL'' \<mapsto> solana_rpc_url c,
      ''POLL_INTERVAL'' \<mapsto> show_nat (poll_interval c), ''CACHE_TTL'' \<mapsto> show_nat (cache_ttl c),
      ''CACHE_MAX_CAPACITY'' \<mapsto> show_nat (cache_max_capacity c),
      ''SOLANA_COMMITMENT_LEVEL'' \<mapsto> solana_commitment_level c,
      ''RPC_TIMEOUT_SECS'' \<mapsto> show_nat (rpc_timeout_secs c),
      ''POLLING_INTERVAL_SECS'' \<mapsto> show_nat (polling_interval_secs c)]
     (''RPC_RATE_LIMIT'' := map_option show_nat (rpc_rate_limit c))"

text \<open>C39. Every configuration read from an environment has numbers that fit the types of their fields,
  and every configuration with such numbers is read back from the environment it prints to: no
  variable is ignored, defaulted or mixed up with another when it is set properly.\<close>

theorem config_roundtrip:
  assumes "config_ok c"
  shows "from_env (to_env c) = c \<and> config_ok (from_env env)"
proof -
  have "from_env (to_env c) = c"
    using assms
    by (cases "rpc_rate_limit c")
      (simp_all add: from_env_def to_env_def env_or_def config_ok_def parse_unsigned_show_nat
        map_option_case)
  then show ?thesis using from_env_ok by simp
qed

theorem config_roundtrip_witness:
  "from_env (to_env (from_env (\<lambda>_. None))) = from_env (\<lambda>_. None)"
  using config_roundtrip [OF from_env_ok] by blast

end
