(* ===== verification/Db_Schema.thy ===== *)
theory Db_Schema
  imports Rust_Std Config
begin

text \<open>
  The database schema: the statements of \<^verbatim>\<open>src/db/mod.rs\<close> (\<open>INIT_SCHEMA\<close>), of
  \<^verbatim>\<open>src/db/connection.rs\<close> and of \<^verbatim>\<open>src/db/migration.rs\<close>, and what executing them leaves in the
  database's catalogue. Opening and creating the file is the work of the crate \<open>sqlx\<close>: it is the
  argument \<open>sqlite\<close> of the definitions.
\<close>

datatype sqlx_error =
    Protocol string
  | ForeignKeyViolation
  | NoSuchTable string
  | NoSuchColumn string
  | Database string

section \<open>The catalogue and the statements that define it\<close>

datatype col_type = TEXT | INTEGER | REAL | BOOLEAN

record column =
  col_name :: string
  col_type :: col_type
  col_not_null :: bool
  col_default :: bool
  col_primary :: bool

record table_def =
  tb_columns :: "column list"
  tb_foreign :: "(string \<times> string \<times> string) list"

record schema =
  sc_tables :: "(string \<times> table_def) list"
  sc_indexes :: "(string \<times> string \<times> string list) list"

datatype ddl =
    CreateTable string table_def
  | CreateIndex string string "string list"

definition col :: "string \<Rightarrow> col_type \<Rightarrow> column" where
  "col n ty = \<lparr>col_name = n, col_type = ty, col_not_null = False, col_default = False,
               col_primary = False\<rparr>"

definition not_null :: "column \<Rightarrow> column" where "not_null c = c\<lparr>col_not_null := True\<rparr>"
definition with_default :: "column \<Rightarrow> column" where "with_default c = c\<lparr>col_default := True\<rparr>"
definition primary_key :: "column \<Rightarrow> column" where "primary_key c = c\<lparr>col_primary := True\<rparr>"

definition table_columns :: "schema \<Rightarrow> string \<Rightarrow> string list option" where
  "table_columns s t = map_option (\<lambda>d. map col_name (tb_columns d)) (map_of (sc_tables s) t)"

text \<open>\<open>IF NOT EXISTS\<close>: a table or an index that exists is left as it is.\<close>

fun exec_ddl :: "ddl \<Rightarrow> (schema, sqlx_error, unit) sm" where
  "exec_ddl (CreateTable n d) s =
     (if n \<in> fst ` set (sc_tables s) then (Ok (), s)
      else (Ok (), s\<lparr>sc_tables := sc_tables s @ [(n, d)]\<rparr>))"
| "exec_ddl (CreateIndex n t cs) s =
     (if n \<in> fst ` set (sc_indexes s) then (Ok (), s)
      else case table_columns s t of
        None \<Rightarrow> (Err (NoSuchTable t), s)
      | Some cols \<Rightarrow>
          (case filter (\<lambda>c. c \<notin> set cols) cs of
             c # _ \<Rightarrow> (Err (NoSuchColumn c), s)
           | [] \<Rightarrow> (Ok (), s\<lparr>sc_indexes := sc_indexes s @ [(n, t, cs)]\<rparr>)))"

fun exec_ddls :: "ddl list \<Rightarrow> (schema, sqlx_error, unit) sm" where
  "exec_ddls [] s = (Ok (), s)"
| "exec_ddls (d # ds) s = bind_st (exec_ddl d) (\<lambda>_. exec_ddls ds) s"

section \<open>The schema of \<open>INIT_SCHEMA\<close>\<close>

definition fk_transactions :: "(string \<times> string \<times> string) list" where
  "fk_transactions =
     [(''source_address'', ''tracked_addresses'', ''address''),
      (''destination_address'', ''tracked_addresses'', ''address'')]"

definition tracked_addresses_def :: table_def where
  "tracked_addresses_def =
     \<lparr>tb_columns = [primary_key (col ''address'' TEXT), not_null (col ''added_at'' INTEGER)],
      tb_foreign = []\<rparr>"

definition transactions_def :: table_def where
  "transactions_def =
     \<lparr>tb_columns =
        [primary_key (col ''signature'' TEXT), not_null (col ''block_time'' INTEGER),
         not_null (col ''slot'' INTEGER), not_null (col ''source_address'' TEXT),
         col ''destination_address'' TEXT, col ''amount'' REAL, col ''program_id'' TEXT,
         not_null (col ''success'' BOOLEAN)],
      tb_foreign = fk_transactions\<rparr>"

definition init_schema :: "ddl list" where
  "init_schema =
     [CreateTable ''tracked_addresses'' tracked_addresses_def,
      CreateTable ''transactions'' transactions_def,
      CreateIndex ''idx_transactions_source_time'' ''transactions''
        [''source_address'', ''block_time''],
      CreateIndex ''idx_transactions_destination_time'' ''transactions''
        [''destination_address'', ''block_time''],
      CreateIndex ''idx_transactions_time'' ''transactions'' [''block_time'']]"

section \<open>\<open>run_migrations\<close>\<close>

definition migration_tracked_def :: table_def where
  "migration_tracked_def =
     \<lparr>tb_columns =
        [primary_key (col ''address'' TEXT),
         with_default (not_null (col ''created_at'' INTEGER))],
      tb_foreign = []\<rparr>"

definition migration_transactions_def :: table_def where
  "migration_transactions_def =
     \<lparr>tb_columns =
        [primary_key (col ''signature'' TEXT), not_null (col ''block_time'' INTEGER),
         not_null (col ''slot'' INTEGER), not_null (col ''source_address'' TEXT),
         col ''destination_address'' TEXT, col ''amount'' REAL, col ''program_id'' TEXT,
         with_default (not_null (col ''success'' BOOLEAN)),
         with_default (not_null (col ''created_at'' INTEGER))],
      tb_foreign = fk_transactions\<rparr>"

definition run_migrations :: "(schema, sqlx_error, unit) sm" where
  "run_migrations =
     exec_ddls
       [CreateTable ''tracked_addresses'' migration_tracked_def,
        CreateTable ''transactions'' migration_transactions_def,
        CreateIndex ''idx_transactions_source_address'' ''transactions'' [''source_address''],
        CreateIndex ''idx_transactions_destination_address'' ''transactions''
          [''destination_address''],
        CreateIndex ''idx_transactions_block_time'' ''transactions'' [''block_time'']]"

section \<open>\<open>establish_connection\<close>\<close>

text \<open>
  The operations of \<open>sqlx\<close> that \<open>establish_connection\<close> calls: whether the database of a URL exists,
  creating it, parsing the URL into connection options, and connecting, which yields the catalogue
  of the file.
\<close>

record sqlite =
  sq_exists :: "string \<Rightarrow> (sqlx_error, bool) res"
  sq_create :: "string \<Rightarrow> (sqlx_error, unit) res"
  sq_options :: "string \<Rightarrow> (sqlx_error, string) res"
  sq_connect :: "string \<Rightarrow> (sqlx_error, schema) res"

definition connection_url :: "env \<Rightarrow> string option \<Rightarrow> (sqlx_error, string) res" where
  "connection_url env cwd =
     (case env ''DATABASE_URL'' of
        Some url \<Rightarrow> Ok url
      | None \<Rightarrow> (case cwd of None \<Rightarrow> Panic | Some d \<Rightarrow> Ok (''sqlite:'' @ d @ ''/data.db'')))"

definition establish_connection :: "sqlite \<Rightarrow> env \<Rightarrow> string option \<Rightarrow> (sqlx_error, schema) res" where
  "establish_connection sq env cwd =
     bind_res (connection_url env cwd) (\<lambda>url.
     bind_res (if sq_exists sq url = Ok True then Ok ()
               else if sq_exists sq url = Panic then Panic else sq_create sq url) (\<lambda>_.
     bind_res (sq_options sq url) (\<lambda>opts.
     bind_res (sq_connect sq opts) (\<lambda>s.
       case exec_ddls init_schema s of
         (Ok _, s') \<Rightarrow> Ok s' | (Err e, s') \<Rightarrow> Err e | (Panic, s') \<Rightarrow> Panic))))"

section \<open>The columns the queries name\<close>

text \<open>
  The columns that the statements of \<^verbatim>\<open>src/db/address.rs\<close> and \<^verbatim>\<open>src/db/transaction.rs\<close> name, and
  the columns an \<open>INSERT\<close> of theirs leaves out, which must accept \<open>NULL\<close> or have a default.
\<close>

definition tracked_columns_used :: "string list" where
  "tracked_columns_used = [''address'', ''added_at'']"

definition transaction_columns_used :: "string list" where
  "transaction_columns_used =
     [''signature'', ''block_time'', ''slot'', ''source_address'', ''destination_address'',
      ''amount'', ''program_id'', ''success'']"

definition insert_supported :: "table_def \<Rightarrow> string list \<Rightarrow> bool" where
  "insert_supported d cs \<longleftrightarrow>
     set cs \<subseteq> col_name ` set (tb_columns d) \<and>
     list_all (\<lambda>c. col_name c \<in> set cs \<or> \<not> col_not_null c \<or> col_default c) (tb_columns d)"

definition schema_supports :: "schema \<Rightarrow> bool" where
  "schema_supports s \<longleftrightarrow>
     (case (map_of (sc_tables s) ''tracked_addresses'', map_of (sc_tables s) ''transactions'') of
        (Some a, Some t) \<Rightarrow>
          insert_supported a tracked_columns_used \<and>
          insert_supported t transaction_columns_used \<and> set fk_transactions \<subseteq> set (tb_foreign t)
      | _ \<Rightarrow> False)"

definition empty_schema :: schema where
  "empty_schema = \<lparr>sc_tables = [], sc_indexes = []\<rparr>"

lemmas column_defs = col_def not_null_def with_default_def primary_key_def

lemmas table_defs = tracked_addresses_def_def transactions_def_def migration_tracked_def_def
  migration_transactions_def_def fk_transactions_def

section \<open>Existing tables are kept\<close>

lemma exec_ddl_keeps:
  assumes "exec_ddl d s = (r, s')" and "map_of (sc_tables s) n = Some t"
  shows "map_of (sc_tables s') n = Some t"
  using assms
  by (cases d) (auto simp: map_add_Some_iff map_of_eq_None_iff split: if_splits option.splits list.splits)

lemma exec_ddls_keeps:
  "exec_ddls ds s = (r, s') \<Longrightarrow> map_of (sc_tables s) n = Some t \<Longrightarrow> map_of (sc_tables s') n = Some t"
proof (induction ds arbitrary: s)
  case Nil
  then show ?case by simp
next
  case (Cons d ds)
  obtain r1 s1 where d: "exec_ddl d s = (r1, s1)" by fastforce
  with Cons show ?case
    by (cases r1) (auto simp: st_simps dest: exec_ddl_keeps)
qed

lemma schema_supports_cong:
  "map_of (sc_tables s) ''tracked_addresses'' = map_of (sc_tables s') ''tracked_addresses'' \<Longrightarrow>
   map_of (sc_tables s) ''transactions'' = map_of (sc_tables s') ''transactions'' \<Longrightarrow>
   schema_supports s = schema_supports s'"
  by (simp add: schema_supports_def)

text \<open>Statements that use \<open>IF NOT EXISTS\<close> cannot take away what the queries need.\<close>

lemma exec_ddls_supports:
  assumes "exec_ddls ds s = (r, s')" and "schema_supports s"
  shows "schema_supports s'"
proof -
  from assms(2) obtain a t where
    "map_of (sc_tables s) ''tracked_addresses'' = Some a"
    "map_of (sc_tables s) ''transactions'' = Some t"
    by (auto simp: schema_supports_def split: option.splits)
  with exec_ddls_keeps [OF assms(1)] show ?thesis
    using assms(2) schema_supports_cong [of s s'] by simp
qed

section \<open>Start-up\<close>

lemma exec_index_supported:
  assumes "schema_supports s" and "set cs \<subseteq> set transaction_columns_used"
  shows "\<exists>s'. exec_ddl (CreateIndex n ''transactions'' cs) s = (Ok (), s') \<and> schema_supports s'"
proof -
  from assms(1) obtain t where t: "map_of (sc_tables s) ''transactions'' = Some t"
    and cols: "set transaction_columns_used \<subseteq> col_name ` set (tb_columns t)"
    by (auto simp: schema_supports_def insert_supported_def split: option.splits)
  have none: "filter (\<lambda>c. c \<notin> set (map col_name (tb_columns t))) cs = []"
    using assms(2) cols by (auto simp: filter_empty_conv)
  have "\<exists>s'. exec_ddl (CreateIndex n ''transactions'' cs) s = (Ok (), s')"
    using none by (auto simp: table_columns_def t)
  moreover have "schema_supports s'"
    if "exec_ddl (CreateIndex n ''transactions'' cs) s = (Ok (), s')" for s'
  proof -
    have "exec_ddls [CreateIndex n ''transactions'' cs] s = (Ok (), s')"
      using that by (simp add: st_simps)
    then show ?thesis using assms(1) by (rule exec_ddls_supports)
  qed
  ultimately show ?thesis by blast
qed

text \<open>Index statements on columns the transactions table has all succeed.\<close>

lemma exec_indexes_supported:
  assumes "\<forall>d \<in> set ds. \<exists>n cs. d = CreateIndex n ''transactions'' cs \<and>
      set cs \<subseteq> set transaction_columns_used"
    and "schema_supports s"
  shows "\<exists>s'. exec_ddls ds s = (Ok (), s') \<and> schema_supports s'"
  using assms
proof (induction ds arbitrary: s)
  case Nil
  then show ?case by simp
next
  case (Cons d ds)
  then obtain n cs where d: "d = CreateIndex n ''transactions'' cs"
    and cs: "set cs \<subseteq> set transaction_columns_used" by auto
  obtain s1 where s1: "exec_ddl d s = (Ok (), s1)" "schema_supports s1"
    using exec_index_supported [OF Cons.prems(2) cs] d by blast
  then obtain s2 where "exec_ddls ds s1 = (Ok (), s2)" "schema_supports s2"
    using Cons.IH [of s1] Cons.prems(1) by auto
  with s1 show ?case by (auto simp: st_simps)
qed

lemma supports_tables_exist:
  "schema_supports s \<Longrightarrow>
     ''tracked_addresses'' \<in> fst ` set (sc_tables s) \<and> ''transactions'' \<in> fst ` set (sc_tables s)"
  by (auto simp: schema_supports_def dest!: map_of_SomeD split: option.splits) force+

lemma run_migrations_supported:
  assumes "schema_supports s"
  shows "\<exists>s'. run_migrations s = (Ok (), s') \<and> schema_supports s'"
proof -
  have eq: "run_migrations s =
      exec_ddls
        [CreateIndex ''idx_transactions_source_address'' ''transactions'' [''source_address''],
         CreateIndex ''idx_transactions_destination_address'' ''transactions''
           [''destination_address''],
         CreateIndex ''idx_transactions_block_time'' ''transactions'' [''block_time'']] s"
    using supports_tables_exist [OF assms]
    by (simp add: run_migrations_def bind_st_def)
  show ?thesis
    unfolding eq
    by (rule exec_indexes_supported [OF _ assms]) (auto simp: transaction_columns_used_def)
qed

lemma init_schema_fresh:
  assumes "sc_tables s = []" and "exec_ddls init_schema s = (r, s')"
  shows "schema_supports s'"
proof -
  let ?s2 = "s\<lparr>sc_tables := [(''tracked_addresses'', tracked_addresses_def),
                             (''transactions'', transactions_def)]\<rparr>"
  have "schema_supports ?s2"
    by (auto simp: schema_supports_def insert_supported_def tracked_columns_used_def
        transaction_columns_used_def table_defs column_defs)
  moreover have "exec_ddls init_schema s = exec_ddls (drop 2 init_schema) ?s2"
    using assms(1) by (simp add: init_schema_def bind_st_def)
  ultimately show ?thesis using assms(2) exec_ddls_supports by metis
qed

lemma establish_connection_Ok:
  assumes "establish_connection sq env cwd = Ok s"
  shows "\<exists>opts s0. sq_connect sq opts = Ok s0 \<and> exec_ddls init_schema s0 = (Ok (), s)"
proof -
  from assms obtain opts s0 where c: "sq_connect sq opts = Ok s0"
    and e: "(case exec_ddls init_schema s0 of
         (Ok _, s') \<Rightarrow> Ok s' | (Err e, s') \<Rightarrow> Err e | (Panic, s') \<Rightarrow> Panic) = Ok s"
    unfolding establish_connection_def bind_res_Ok_iff by blast
  from e have "exec_ddls init_schema s0 = (Ok (), s)"
    by (auto split: prod.splits res.splits)
  with c show ?thesis by blast
qed

text \<open>Whenever \<open>establish_connection\<close> succeeds on a file that is fresh or already has the
  service's tables, \<open>run_migrations\<close> succeeds too and every column that the queries of the service
  read or write exists, with the foreign keys of the transactions table.\<close>

theorem startup_schema_supports:
  assumes "establish_connection sq env cwd = Ok s"
    and "\<And>opts s0. sq_connect sq opts = Ok s0 \<Longrightarrow> sc_tables s0 = [] \<or> schema_supports s0"
  shows "\<exists>s'. run_migrations s = (Ok (), s') \<and> schema_supports s'"
proof -
  from establish_connection_Ok [OF assms(1)]
  obtain opts s0 where c: "sq_connect sq opts = Ok s0"
    and e: "exec_ddls init_schema s0 = (Ok (), s)" by blast
  have "schema_supports s"
    using assms(2) [OF c] init_schema_fresh [OF _ e] exec_ddls_supports [OF e] by blast
  then show ?thesis by (rule run_migrations_supported)
qed

definition fresh_sqlite :: sqlite where
  "fresh_sqlite =
     \<lparr>sq_exists = (\<lambda>_. Ok False), sq_create = (\<lambda>_. Ok ()), sq_options = Ok,
      sq_connect = (\<lambda>_. Ok empty_schema)\<rparr>"

theorem startup_schema_supports_witness:
  "\<exists>s s'. establish_connection fresh_sqlite (\<lambda>_. None) (Some ''/srv'') = Ok s \<and>
     run_migrations s = (Ok (), s') \<and> schema_supports s'"
proof -
  have "\<exists>s. establish_connection fresh_sqlite (\<lambda>_. None) (Some ''/srv'') = Ok s"
    by (simp add: establish_connection_def connection_url_def fresh_sqlite_def init_schema_def
        empty_schema_def bind_st_def table_columns_def table_defs column_defs)
  then obtain s where s: "establish_connection fresh_sqlite (\<lambda>_. None) (Some ''/srv'') = Ok s" ..
  show ?thesis
    using s startup_schema_supports [OF s] by (auto simp: fresh_sqlite_def empty_schema_def)
qed

text \<open>The order of the two schema scripts matters: \<open>run_migrations\<close> declares
  \<open>tracked_addresses\<close> with \<open>created_at\<close> instead of \<open>added_at\<close>, so a fresh database on which it runs
  first never gets the column that \<open>add_address\<close> writes, although both scripts report success.\<close>

theorem migrations_first_unsupported:
  "\<exists>s s'. run_migrations empty_schema = (Ok (), s) \<and> exec_ddls init_schema s = (Ok (), s') \<and>
     table_columns s' ''tracked_addresses'' = Some [''address'', ''created_at''] \<and>
     \<not> schema_supports s'"
  by (simp add: run_migrations_def init_schema_def empty_schema_def bind_st_def table_columns_def
      table_defs column_defs schema_supports_def insert_supported_def tracked_columns_used_def)

end
