(* ===== verification/Db.thy ===== *)
theory Db
  imports Models Validation Db_Schema
begin

text \<open>
  The two tables of the service and the SQL statements that \<^verbatim>\<open>src/db/address.rs\<close> and
  \<^verbatim>\<open>src/db/transaction.rs\<close> execute on them: rows in insertion order, primary keys, foreign keys
  (\<open>foreign_keys(true)\<close>, action \<open>NO ACTION\<close>), \<open>NULL\<close> comparisons and \<open>LIMIT\<close>/\<open>OFFSET\<close>. Any
  statement may also fail for a reason outside the tables; \<open>db_faults\<close> holds, in order, the outcome
  of the statements to come, and a statement past its end does not fail.
\<close>

section \<open>Tables\<close>

record tx_row =
  r_signature :: string
  r_block_time :: i64
  r_slot :: i64
  r_source :: string
  r_destination :: "string option"
  r_amount :: "f64 option"
  r_program_id :: "string option"
  r_success :: int

record tables =
  t_tracked :: "(string option \<times> i64) list"
  t_txs :: "tx_row list"

record db =
  db_tables :: tables
  db_faults :: "sqlx_error option list"

type_synonym 'a dbm = "(db, sqlx_error, 'a) sm"

text \<open>SQLite stores a NaN as \<open>NULL\<close>.\<close>

definition sql_real :: "f64 option \<Rightarrow> f64 option" where
  "sql_real a = (if a = Some F64_nan then None else a)"

definition row_of_tx :: "transaction \<Rightarrow> tx_row" where
  "row_of_tx t =
     \<lparr>r_signature = tx_signature t, r_block_time = tx_block_time t, r_slot = tx_slot t,
      r_source = tx_source t, r_destination = tx_destination t,
      r_amount = sql_real (tx_amount t), r_program_id = tx_program_id t,
      r_success = (if tx_success t then 1 else 0)\<rparr>"

definition tx_of_row :: "tx_row \<Rightarrow> transaction" where
  "tx_of_row r =
     \<lparr>tx_signature = r_signature r, tx_block_time = r_block_time r, tx_slot = r_slot r,
      tx_source = r_source r, tx_destination = r_destination r, tx_amount = r_amount r,
      tx_program_id = r_program_id r, tx_success = (r_success r \<noteq> 0)\<rparr>"

lemma tx_of_row_of_tx:
  "tx_of_row (row_of_tx t) = t\<lparr>tx_amount := sql_real (tx_amount t)\<rparr>"
  by (simp add: tx_of_row_def row_of_tx_def)

lemma row_of_tx_sel [simp]:
  "r_signature (row_of_tx t) = tx_signature t" "r_source (row_of_tx t) = tx_source t"
  "r_destination (row_of_tx t) = tx_destination t" "r_block_time (row_of_tx t) = tx_block_time t"
  by (simp_all add: row_of_tx_def)

section \<open>Executing a statement\<close>

definition stmt :: "(tables \<Rightarrow> (sqlx_error, 'a) res \<times> tables) \<Rightarrow> 'a dbm" where
  "stmt f d =
     (case db_faults d of
        Some e # fs \<Rightarrow> (Err e, d\<lparr>db_faults := fs\<rparr>)
      | fs \<Rightarrow> (case f (db_tables d) of (r, t) \<Rightarrow> (r, d\<lparr>db_tables := t, db_faults := tl fs\<rparr>)))"

text \<open>
  \<open>pool.begin()\<close>, the body, \<open>tx.commit()\<close>; an early return drops the transaction, which rolls it
  back.
\<close>

definition in_transaction :: "'a dbm \<Rightarrow> 'a dbm" where
  "in_transaction m d =
     (case stmt (\<lambda>t. (Ok (), t)) d of
        (Err e, d1) \<Rightarrow> (Err e, d1)
      | (Panic, d1) \<Rightarrow> (Panic, d1)
      | (Ok _, d1) \<Rightarrow>
          (case m d1 of
             (Err e, d2) \<Rightarrow> (Err e, d2\<lparr>db_tables := db_tables d1\<rparr>)
           | (Panic, d2) \<Rightarrow> (Panic, d2\<lparr>db_tables := db_tables d1\<rparr>)
           | (Ok x, d2) \<Rightarrow>
               (case stmt (\<lambda>t. (Ok (), t)) d2 of
                  (Ok _, d3) \<Rightarrow> (Ok x, d3)
                | (Err e, d3) \<Rightarrow> (Err e, d3\<lparr>db_tables := db_tables d1\<rparr>)
                | (Panic, d3) \<Rightarrow> (Panic, d3\<lparr>db_tables := db_tables d1\<rparr>))))"

text \<open>What a statement that reports success did to the tables.\<close>

lemma stmt_cases:
  assumes "stmt f d = (r, d')"
  obtains (fault) e where "r = Err e" "db_tables d' = db_tables d" "db_faults d \<noteq> []"
  | (run) "f (db_tables d) = (r, db_tables d')" "db_faults d' = tl (db_faults d)"
  using assms by (auto simp: stmt_def split: list.splits option.splits prod.splits)

lemma stmt_no_faults:
  "db_faults d = [] \<Longrightarrow> stmt f d = (case f (db_tables d) of (r, t) \<Rightarrow> (r, d\<lparr>db_tables := t\<rparr>))"
  by (auto simp: stmt_def split: prod.splits)

lemma stmt_noop_tables:
  "stmt (\<lambda>t. (Ok (), t)) d = (r, d') \<Longrightarrow> db_tables d' = db_tables d \<and> r \<noteq> Panic"
  by (auto elim!: stmt_cases)

text \<open>The \<open>n\<close>th statement to come fails.\<close>

definition fails_at :: "nat \<Rightarrow> db \<Rightarrow> bool" where
  "fails_at n d \<longleftrightarrow> n < length (db_faults d) \<and> db_faults d ! n \<noteq> None"

lemma fails_at_tl [simp]: "fails_at n (d\<lparr>db_faults := tl (db_faults d)\<rparr>) = fails_at (Suc n) d"
  by (auto simp: fails_at_def nth_tl)

lemma not_fails [simp]: "db_faults d = [] \<Longrightarrow> \<not> fails_at n d"
  by (simp add: fails_at_def)

section \<open>Statements on \<open>tracked_addresses\<close>\<close>

definition has_address :: "string \<Rightarrow> tables \<Rightarrow> bool" where
  "has_address a t \<longleftrightarrow> Some a \<in> fst ` set (t_tracked t)"

definition references :: "string \<Rightarrow> tx_row \<Rightarrow> bool" where
  "references a r \<longleftrightarrow> r_source r = a \<or> r_destination r = Some a"

text \<open>\<^verbatim>\<open>INSERT ... ON CONFLICT(address) DO UPDATE SET added_at = excluded.added_at\<close>\<close>

definition sql_upsert_address :: "string \<Rightarrow> i64 \<Rightarrow> tables \<Rightarrow> tables" where
  "sql_upsert_address a ts t =
     t\<lparr>t_tracked :=
         (if has_address a t
          then map (\<lambda>(b, s). if b = Some a then (b, ts) else (b, s)) (t_tracked t)
          else t_tracked t @ [(Some a, ts)])\<rparr>"

text \<open>\<^verbatim>\<open>DELETE FROM tracked_addresses WHERE address = ?\<close>, with the number of rows affected.\<close>

definition sql_delete_address :: "string \<Rightarrow> tables \<Rightarrow> (sqlx_error, nat) res \<times> tables" where
  "sql_delete_address a t =
     (if has_address a t \<and> list_ex (references a) (t_txs t) then (Err ForeignKeyViolation, t)
      else (Ok (length (filter (\<lambda>p. fst p = Some a) (t_tracked t))),
            t\<lparr>t_tracked := filter (\<lambda>p. fst p \<noteq> Some a) (t_tracked t)\<rparr>))"

definition sql_count_address :: "string \<Rightarrow> tables \<Rightarrow> nat" where
  "sql_count_address a t = length (filter (\<lambda>p. fst p = Some a) (t_tracked t))"

section \<open>Statements on \<open>transactions\<close>\<close>

definition fk_ok :: "tables \<Rightarrow> tx_row \<Rightarrow> bool" where
  "fk_ok t r \<longleftrightarrow>
     has_address (r_source r) t \<and>
     (case r_destination r of None \<Rightarrow> True | Some a \<Rightarrow> has_address a t)"

text \<open>\<^verbatim>\<open>INSERT INTO transactions ... ON CONFLICT(signature) DO NOTHING\<close>\<close>

definition sql_insert_tx :: "tx_row \<Rightarrow> tables \<Rightarrow> (sqlx_error, unit) res \<times> tables" where
  "sql_insert_tx r t =
     (if r_signature r \<in> r_signature ` set (t_txs t) then (Ok (), t)
      else if \<not> fk_ok t r then (Err ForeignKeyViolation, t)
      else (Ok (), t\<lparr>t_txs := t_txs t @ [r]\<rparr>))"

text \<open>\<^verbatim>\<open>WHERE (source_address = ? OR destination_address = ?) AND block_time >= ? AND block_time < ?\<close>\<close>

definition in_query :: "string \<Rightarrow> i64 \<Rightarrow> i64 \<Rightarrow> tx_row \<Rightarrow> bool" where
  "in_query a st en r \<longleftrightarrow> references a r \<and> st \<le> r_block_time r \<and> r_block_time r < en"

definition sql_count_txs :: "string \<Rightarrow> i64 \<Rightarrow> i64 \<Rightarrow> tables \<Rightarrow> nat" where
  "sql_count_txs a st en t = length (filter (in_query a st en) (t_txs t))"

text \<open>\<open>LIMIT l OFFSET o\<close>: a negative limit is no limit, a negative offset is no offset.\<close>

definition sql_limit_offset :: "int \<Rightarrow> int \<Rightarrow> 'a list \<Rightarrow> 'a list" where
  "sql_limit_offset l off xs =
     (let ys = (if off < 0 then xs else drop (nat off) xs)
      in if l < 0 then ys else take (nat l) ys)"

text \<open>
  \<open>ORDER BY block_time ASC\<close> leaves the order of rows with equal times open, for every query anew: the
  sorter is the argument \<open>ob\<close>, and it is given the limit and the offset, so that two pages of one
  result may have been cut out of differently ordered lists.
\<close>

type_synonym sorter = "int \<Rightarrow> int \<Rightarrow> (tx_row \<Rightarrow> i64) \<Rightarrow> tx_row list \<Rightarrow> tx_row list"

definition sql_select_txs ::
  "sorter \<Rightarrow> string \<Rightarrow> i64 \<Rightarrow> i64 \<Rightarrow> int \<Rightarrow> int \<Rightarrow> tables \<Rightarrow> tx_row list" where
  "sql_select_txs ob a st en lmt off t =
     sql_limit_offset lmt off (ob lmt off r_block_time (filter (in_query a st en) (t_txs t)))"

locale order_by =
  fixes ob :: "int \<Rightarrow> int \<Rightarrow> ('r \<Rightarrow> 'k::linorder) \<Rightarrow> 'r list \<Rightarrow> 'r list"
  assumes ob_mset: "mset (ob l off k xs) = mset xs"
    and ob_sorted: "sorted (map k (ob l off k xs))"
begin

lemma ob_set: "set (ob l off k xs) = set xs"
  by (metis ob_mset set_mset_mset)

lemma ob_length: "length (ob l off k xs) = length xs"
  by (metis ob_mset size_mset)

lemma ob_distinct: "distinct (map f (ob l off k xs)) = distinct (map f xs)"
  by (rule mset_eq_imp_distinct_iff) (simp add: ob_mset)

text \<open>The keys come out in the same order whatever the order of rows with equal keys.\<close>

lemma ob_keys: "map k (ob l off k xs) = sort (map k xs)"
  by (rule properties_for_sort [symmetric]) (simp_all add: ob_mset ob_sorted)

lemma ob_page_sorted: "sorted (map k (sql_limit_offset l off (ob l' off' k xs)))"
  using ob_sorted [of k l' off' xs]
  by (auto simp: sql_limit_offset_def Let_def sorted_wrt_take sorted_wrt_drop
      simp flip: drop_map take_map)

lemma ob_page_set: "set (sql_limit_offset l off (ob l' off' k xs)) \<subseteq> set xs"
  using ob_set [of l' off' k xs]
  by (auto simp: sql_limit_offset_def Let_def dest: in_set_takeD in_set_dropD)

end

text \<open>Rows of equal keys in the order of their insertion, for every query alike.\<close>

definition rowid_sort :: "int \<Rightarrow> int \<Rightarrow> ('r \<Rightarrow> 'k::linorder) \<Rightarrow> 'r list \<Rightarrow> 'r list" where
  "rowid_sort lmt off = sort_key"

interpretation rowid_order: order_by rowid_sort
  by unfold_locales (simp_all add: rowid_sort_def)

section \<open>The invariant of the tables\<close>

definition tables_ok :: "tables \<Rightarrow> bool" where
  "tables_ok t \<longleftrightarrow>
     distinct (map fst (t_tracked t)) \<and>
     distinct (map r_signature (t_txs t)) \<and>
     (\<forall>r \<in> set (t_txs t). fk_ok t r \<and> r_success r \<in> {0, 1} \<and> r_amount r \<noteq> Some F64_nan)"

lemma has_address_txs [simp]: "has_address a (t\<lparr>t_txs := xs\<rparr>) = has_address a t"
  by (simp add: has_address_def)

lemma fk_ok_txs [simp]: "fk_ok (t\<lparr>t_txs := xs\<rparr>) r = fk_ok t r"
  by (simp add: fk_ok_def split: option.split)

lemma has_address_upsert:
  "has_address b (sql_upsert_address a ts t) \<longleftrightarrow> b = a \<or> has_address b t"
  by (force simp: has_address_def sql_upsert_address_def)

lemma sql_upsert_txs [simp]: "t_txs (sql_upsert_address a ts t) = t_txs t"
  by (simp add: sql_upsert_address_def)

lemma fk_ok_mono:
  "(\<And>a. has_address a t \<Longrightarrow> has_address a t') \<Longrightarrow> fk_ok t r \<Longrightarrow> fk_ok t' r"
  by (auto simp: fk_ok_def split: option.splits)

lemma map_fst_upsert:
  "map fst (map (\<lambda>(b, s). if b = Some a then (b, ts) else (b, s)) xs) = map fst xs"
  by (induction xs) auto

lemma tables_ok_upsert: "tables_ok t \<Longrightarrow> tables_ok (sql_upsert_address a ts t)"
proof -
  assume ok: "tables_ok t"
  have "distinct (map fst (t_tracked (sql_upsert_address a ts t)))"
    using ok by (auto simp: tables_ok_def sql_upsert_address_def map_fst_upsert has_address_def
        simp del: map_map)
  moreover have "fk_ok (sql_upsert_address a ts t) r" if "fk_ok t r" for r
    using that by (rule fk_ok_mono [rotated]) (simp add: has_address_upsert)
  ultimately show ?thesis using ok by (simp add: tables_ok_def)
qed

lemma has_address_delete:
  "sql_delete_address a t = (Ok n, t') \<Longrightarrow> has_address b t' \<longleftrightarrow> b \<noteq> a \<and> has_address b t"
  by (force simp: sql_delete_address_def has_address_def split: if_splits)

lemma tables_ok_delete:
  assumes ok: "tables_ok t" and del: "sql_delete_address a t = (r, t')"
  shows "tables_ok t'"
proof (cases "has_address a t \<and> list_ex (references a) (t_txs t)")
  case True
  with del ok show ?thesis by (simp add: sql_delete_address_def)
next
  case False
  then have t': "t' = t\<lparr>t_tracked := filter (\<lambda>p. fst p \<noteq> Some a) (t_tracked t)\<rparr>"
    using del by (auto simp: sql_delete_address_def)
  have "fk_ok t' x" if x: "x \<in> set (t_txs t)" for x
  proof -
    have "fk_ok t x" using ok x by (simp add: tables_ok_def)
    then have "\<not> references a x"
      using False x by (auto simp: list_ex_iff references_def fk_ok_def split: option.splits)
    then show ?thesis
      using \<open>fk_ok t x\<close>
      by (force simp: t' fk_ok_def has_address_def references_def split: option.splits)
  qed
  then show ?thesis
    using ok by (auto simp: tables_ok_def t' distinct_map_filter)
qed

lemma tables_ok_insert:
  assumes "tables_ok t" and "sql_insert_tx (row_of_tx x) t = (r, t')"
  shows "tables_ok t'"
proof (cases "r = Ok () \<and> tx_signature x \<notin> r_signature ` set (t_txs t)")
  case False
  then have "t' = t" using assms(2) by (auto simp: sql_insert_tx_def split: if_splits)
  with assms(1) show ?thesis by simp
next
  case True
  then have fk: "fk_ok t (row_of_tx x)" and t': "t' = t\<lparr>t_txs := t_txs t @ [row_of_tx x]\<rparr>"
    using assms(2) by (auto simp: sql_insert_tx_def split: if_splits)
  have same: "fk_ok t' y = fk_ok t y" for y
    by (simp add: t')
  have "r_success (row_of_tx x) \<in> {0, 1}" and "r_amount (row_of_tx x) \<noteq> Some F64_nan"
    by (auto simp: row_of_tx_def sql_real_def)
  then show ?thesis
    using True fk assms(1) unfolding tables_ok_def same by (auto simp: t')
qed

lemma tracked_insert: "sql_insert_tx r t = (res, t') \<Longrightarrow> t_tracked t' = t_tracked t"
  by (auto simp: sql_insert_tx_def split: if_splits)

lemma count_address_pos: "0 < sql_count_address a t \<longleftrightarrow> has_address a t"
  by (force simp: sql_count_address_def has_address_def filter_empty_conv)

lemma count_address_zero: "sql_count_address a t = 0 \<longleftrightarrow> \<not> has_address a t"
  using count_address_pos [of a t] by auto

end
