(* ===== verification/Db_Address.thy ===== *)
theory Db_Address
  imports Db
begin

text \<open>
  The operations on tracked addresses, \<^verbatim>\<open>src/db/address.rs\<close>, and the interface of an address
  registry that they provide to the processor and the HTTP handlers.
\<close>

section \<open>The operations\<close>

text \<open>\<open>clock\<close> is the time since the Unix epoch in seconds, nothing before it: \<open>unwrap\<close> then panics.\<close>

definition add_address :: "b58 \<Rightarrow> u64 option \<Rightarrow> string \<Rightarrow> unit dbm" where
  "add_address b58 clock address =
     bind_st (lift_st (map_err (\<lambda>e. Protocol (validation_error_string e))
                         (validate_solana_address b58 address))) (\<lambda>_.
       case clock of
         None \<Rightarrow> lift_st Panic
       | Some secs \<Rightarrow> stmt (\<lambda>t. (Ok (), sql_upsert_address address (u64_as_i64 secs) t)))"

definition remove_address :: "string \<Rightarrow> bool dbm" where
  "remove_address address = bind_st (stmt (sql_delete_address address)) (\<lambda>n. ret_st (0 < n))"

definition is_address_tracked :: "string \<Rightarrow> bool dbm" where
  "is_address_tracked address =
     bind_st (stmt (\<lambda>t. (Ok (sql_count_address address t), t))) (\<lambda>count. ret_st (0 < count))"

definition get_all_tracked_addresses :: "string list dbm" where
  "get_all_tracked_addresses =
     bind_st (stmt (\<lambda>t. (Ok (map fst (t_tracked t)), t))) (\<lambda>rows. ret_st (List.map_filter id rows))"

lemmas address_ops = add_address_def remove_address_def is_address_tracked_def
  get_all_tracked_addresses_def

section \<open>The interface of a registry\<close>

text \<open>
  What the clients of the registry rely on: insertion and deletion change membership of the one
  address only, both keep the registry well-formed, and an address that stored rows refer to is a
  member and cannot be deleted.
\<close>

locale registry =
  fixes reg_insert :: "'a \<Rightarrow> 'v \<Rightarrow> 's \<Rightarrow> 's"
    and reg_delete :: "'a \<Rightarrow> 's \<Rightarrow> 's"
    and reg_member :: "'a \<Rightarrow> 's \<Rightarrow> bool"
    and reg_pinned :: "'a \<Rightarrow> 's \<Rightarrow> bool"
    and reg_ok :: "'s \<Rightarrow> bool"
  assumes reg_member_insert: "reg_member b (reg_insert a v s) \<longleftrightarrow> b = a \<or> reg_member b s"
    and reg_pinned_insert: "reg_pinned b (reg_insert a v s) \<longleftrightarrow> reg_pinned b s"
    and reg_ok_insert: "reg_ok s \<Longrightarrow> reg_ok (reg_insert a v s)"
    and reg_member_delete: "\<not> reg_pinned a s \<Longrightarrow>
      reg_member b (reg_delete a s) \<longleftrightarrow> b \<noteq> a \<and> reg_member b s"
    and reg_delete_pinned: "reg_ok s \<Longrightarrow> reg_pinned a s \<Longrightarrow> reg_delete a s = s"
    and reg_pinned_member: "reg_ok s \<Longrightarrow> reg_pinned a s \<Longrightarrow> reg_member a s"
    and reg_ok_delete: "reg_ok s \<Longrightarrow> reg_ok (reg_delete a s)"
begin

lemma reg_member_insert_all:
  "reg_member b (fold (\<lambda>a. reg_insert a v) as s) \<longleftrightarrow> b \<in> set as \<or> reg_member b s"
  by (induction as arbitrary: s) (auto simp: reg_member_insert)

lemma reg_ok_insert_all: "reg_ok s \<Longrightarrow> reg_ok (fold (\<lambda>a. reg_insert a v) as s)"
  by (induction as arbitrary: s) (auto simp: reg_ok_insert)

lemma reg_insert_delete:
  "\<not> reg_pinned a s \<Longrightarrow>
   reg_member b (reg_delete a (reg_insert a v s)) \<longleftrightarrow> b \<noteq> a \<and> reg_member b s"
  by (auto simp: reg_member_delete reg_pinned_insert reg_member_insert)

lemma reg_pinned_survives: "reg_ok s \<Longrightarrow> reg_pinned a s \<Longrightarrow> reg_member a (reg_delete b s)"
  by (cases "reg_pinned b s")
    (auto simp: reg_delete_pinned reg_member_delete reg_pinned_member)

end

definition pinned :: "string \<Rightarrow> tables \<Rightarrow> bool" where
  "pinned a t \<longleftrightarrow> list_ex (references a) (t_txs t)"

lemma tables_ok_pinned: "tables_ok t \<Longrightarrow> pinned a t \<Longrightarrow> has_address a t"
  by (auto simp: tables_ok_def pinned_def list_ex_iff references_def fk_ok_def split: option.splits)

interpretation addr_reg: registry sql_upsert_address "\<lambda>a t. snd (sql_delete_address a t)"
  has_address pinned tables_ok
proof
  fix a b v s
  show "has_address b (sql_upsert_address a v s) \<longleftrightarrow> b = a \<or> has_address b s"
    by (rule has_address_upsert)
  show "pinned b (sql_upsert_address a v s) \<longleftrightarrow> pinned b s"
    by (simp add: pinned_def)
  show "tables_ok s \<Longrightarrow> tables_ok (sql_upsert_address a v s)"
    by (rule tables_ok_upsert)
  show "\<not> pinned a s \<Longrightarrow>
      has_address b (snd (sql_delete_address a s)) \<longleftrightarrow> b \<noteq> a \<and> has_address b s"
    by (force simp: pinned_def sql_delete_address_def has_address_def)
  show "tables_ok s \<Longrightarrow> pinned a s \<Longrightarrow> snd (sql_delete_address a s) = s"
    using tables_ok_pinned [of s a] by (simp add: pinned_def sql_delete_address_def)
  show "tables_ok s \<Longrightarrow> pinned a s \<Longrightarrow> has_address a s"
    by (rule tables_ok_pinned)
  show "tables_ok s \<Longrightarrow> tables_ok (snd (sql_delete_address a s))"
    by (metis tables_ok_delete prod.collapse)
qed

section \<open>Behaviour of the operations\<close>

lemma add_address_invalid:
  "\<not> valid_address b58 a \<Longrightarrow> \<exists>e. add_address b58 clock a d = (Err (Protocol e), d)"
  by (rule validate_solana_address_cases [of b58 a])
    (auto simp: add_address_def lift_st_def bind_st_def)

lemma add_address_valid:
  "valid_address b58 a \<Longrightarrow>
   add_address b58 (Some secs) a d =
     stmt (\<lambda>t. (Ok (), sql_upsert_address a (u64_as_i64 secs) t)) d"
  by (rule validate_solana_address_cases [of b58 a])
    (auto simp: add_address_def lift_st_def bind_st_def)

lemma add_address_Ok:
  assumes "add_address b58 clock a d = (Ok u, d')"
  obtains secs where "clock = Some secs" "valid_address b58 a"
    "db_tables d' = sql_upsert_address a (u64_as_i64 secs) (db_tables d)"
proof -
  have v: "valid_address b58 a"
    using assms add_address_invalid [of b58 a clock d] by fastforce
  moreover obtain secs where s: "clock = Some secs"
    using assms v by (cases clock)
      (auto simp: add_address_def lift_st_def bind_st_def split: prod.splits res.splits)
  moreover have "db_tables d' = sql_upsert_address a (u64_as_i64 secs) (db_tables d)"
    using assms unfolding s add_address_valid [OF v] by (elim stmt_cases) simp_all
  ultimately show ?thesis using that by blast
qed

lemma add_address_not_Ok_tables:
  assumes "add_address b58 clock a d = (r, d')" and "r \<noteq> Ok ()"
  shows "db_tables d' = db_tables d"
proof (cases "valid_address b58 a")
  case False
  with assms show ?thesis using add_address_invalid [of b58 a clock d] by fastforce
next
  case True
  show ?thesis
  proof (cases clock)
    case None
    with True assms show ?thesis
      by (auto simp: add_address_def lift_st_def bind_st_def split: prod.splits res.splits)
  next
    case (Some secs)
    with True assms show ?thesis by (auto simp: add_address_valid elim!: stmt_cases)
  qed
qed

lemma add_address_no_Panic: "add_address b58 (Some secs) a d \<noteq> (Panic, d')"
  by (cases "valid_address b58 a")
    (use add_address_invalid [of b58 a "Some secs" d] in
      \<open>auto simp: add_address_valid elim!: stmt_cases\<close>)

text \<open>Whatever the outcome, the transactions stay, and no address but the given one changes.\<close>

lemma add_address_effect:
  assumes "add_address b58 clock a d = (r, d')"
  shows "t_txs (db_tables d') = t_txs (db_tables d)"
    and "has_address b (db_tables d') \<longleftrightarrow> has_address b (db_tables d) \<or> (b = a \<and> r = Ok ())"
proof -
  have "t_txs (db_tables d') = t_txs (db_tables d) \<and>
    (has_address b (db_tables d') \<longleftrightarrow> has_address b (db_tables d) \<or> (b = a \<and> r = Ok ()))"
  proof (cases "r = Ok ()")
    case True
    with assms show ?thesis by (auto elim!: add_address_Ok simp: has_address_upsert)
  next
    case False
    with add_address_not_Ok_tables [OF assms False] show ?thesis by simp
  qed
  then show "t_txs (db_tables d') = t_txs (db_tables d)"
    and "has_address b (db_tables d') \<longleftrightarrow> has_address b (db_tables d) \<or> (b = a \<and> r = Ok ())"
    by blast+
qed

lemma add_address_no_faults:
  assumes "add_address b58 (Some secs) a d = (r, d')" and "db_faults d = []"
  shows "db_faults d' = []" and "r = Ok () \<longleftrightarrow> valid_address b58 a"
proof -
  have "db_faults d' = [] \<and> (r = Ok () \<longleftrightarrow> valid_address b58 a)"
  proof (cases "valid_address b58 a")
    case True
    with assms show ?thesis by (auto simp: add_address_valid stmt_no_faults)
  next
    case False
    with assms show ?thesis using add_address_invalid [OF False, of "Some secs" d] by auto
  qed
  then show "db_faults d' = []" and "r = Ok () \<longleftrightarrow> valid_address b58 a" by blast+
qed

lemma add_address_tables_ok:
  assumes "add_address b58 clock a d = (r, d')" and "tables_ok (db_tables d)"
  shows "tables_ok (db_tables d')"
proof (cases "r = Ok ()")
  case True
  with assms show ?thesis by (auto elim!: add_address_Ok intro: tables_ok_upsert)
next
  case False
  with assms show ?thesis using add_address_not_Ok_tables by metis
qed

lemma remove_address_stmt:
  "remove_address a d = (r, d') \<longleftrightarrow>
     (\<exists>q. stmt (sql_delete_address a) d = (q, d') \<and>
        r = (case q of Ok n \<Rightarrow> Ok (0 < n) | Err e \<Rightarrow> Err e | Panic \<Rightarrow> Panic))"
  by (auto simp: remove_address_def bind_st_def ret_st_def split: prod.splits res.splits)

lemma remove_address_tables_ok:
  assumes "remove_address a d = (r, d')" and "tables_ok (db_tables d)"
  shows "tables_ok (db_tables d')"
  using assms unfolding remove_address_stmt
  by (auto elim!: stmt_cases dest: tables_ok_delete)

lemma remove_address_keeps:
  assumes "remove_address a d = (r, d')"
  shows "t_txs (db_tables d') = t_txs (db_tables d) \<and> r \<noteq> Panic"
proof -
  obtain q where q: "stmt (sql_delete_address a) d = (q, d')"
    and r: "r = (case q of Ok n \<Rightarrow> Ok (0 < n) | Err e \<Rightarrow> Err e | Panic \<Rightarrow> Panic)"
    using assms unfolding remove_address_stmt by blast
  from q show ?thesis
    by (cases rule: stmt_cases) (auto simp: r sql_delete_address_def dest: sym split: if_splits)
qed

lemma remove_address_no_faults:
  assumes "tables_ok (db_tables d)" and "db_faults d = []"
  shows "remove_address a d =
    (if pinned a (db_tables d) then (Err ForeignKeyViolation, d)
     else (Ok (has_address a (db_tables d)),
           d\<lparr>db_tables := snd (sql_delete_address a (db_tables d))\<rparr>))"
  using assms tables_ok_pinned [of "db_tables d" a] count_address_pos [of a "db_tables d"]
  by (auto simp: remove_address_def bind_st_def ret_st_def stmt_no_faults sql_delete_address_def
      pinned_def sql_count_address_def)

lemma is_address_tracked_Ok:
  assumes "is_address_tracked a d = (Ok b, d')"
  shows "b = has_address a (db_tables d) \<and> db_tables d' = db_tables d"
  using assms
  by (auto simp: is_address_tracked_def bind_st_def ret_st_def count_address_pos count_address_zero
      elim!: stmt_cases split: prod.splits res.splits)

lemma is_address_tracked_tables:
  assumes "is_address_tracked a d = (r, d')"
  shows "db_tables d' = db_tables d \<and> r \<noteq> Panic"
  using assms
  by (auto simp: is_address_tracked_def bind_st_def ret_st_def
      elim!: stmt_cases split: prod.splits res.splits)

lemma is_address_tracked_no_faults:
  "db_faults d = [] \<Longrightarrow> is_address_tracked a d = (Ok (has_address a (db_tables d)), d)"
  by (simp add: is_address_tracked_def bind_st_def ret_st_def stmt_no_faults count_address_pos)

lemma get_all_Ok:
  assumes "get_all_tracked_addresses d = (Ok as, d')"
  shows "set as = {a. has_address a (db_tables d)} \<and> db_tables d' = db_tables d"
  using assms
  by (force simp: get_all_tracked_addresses_def bind_st_def ret_st_def has_address_def
      set_map_filter elim!: stmt_cases split: prod.splits res.splits)

lemma get_all_tables:
  assumes "get_all_tracked_addresses d = (r, d')"
  shows "db_tables d' = db_tables d \<and> r \<noteq> Panic"
  using assms
  by (auto simp: get_all_tracked_addresses_def bind_st_def ret_st_def
      elim!: stmt_cases split: prod.splits res.splits)

lemma get_all_fails:
  assumes "get_all_tracked_addresses d = (r, d')"
  shows "(\<exists>e. r = Err e) \<longleftrightarrow> fails_at 0 d"
  using assms
  by (auto simp: get_all_tracked_addresses_def bind_st_def ret_st_def stmt_def fails_at_def
      split: list.splits option.splits)

section \<open>Properties\<close>

text \<open>A decoder and tables for the witnesses: the all-ones address is the 32-byte system program.\<close>

definition ones :: string where "ones = replicate 32 (CHR ''1'')"

definition ones_b58 :: b58 where
  "ones_b58 s = (if list_all (\<lambda>c. c = CHR ''1'') s then Some (map (\<lambda>_. 0) s) else None)"

lemma valid_ones [simp]: "valid_address ones_b58 ones"
  by (simp add: valid_address_def ones_b58_def ones_def trim_is_empty_def ascii_ws_def list_all_iff
      numeral_eq_Suc)

definition sample_row :: tx_row where
  "sample_row =
     \<lparr>r_signature = ''s1'', r_block_time = 100, r_slot = 7, r_source = ones, r_destination = None,
      r_amount = None, r_program_id = None, r_success = 1\<rparr>"

definition sample_db :: db where
  "sample_db =
     \<lparr>db_tables = \<lparr>t_tracked = [(Some ones, 50)], t_txs = [sample_row]\<rparr>, db_faults = []\<rparr>"

lemma sample_no_faults [simp]: "db_faults sample_db = []"
  by (simp add: sample_db_def)

lemma sample_tables_ok [simp]: "tables_ok (db_tables sample_db)"
  by (simp add: tables_ok_def sample_db_def sample_row_def fk_ok_def has_address_def)

text \<open>Tracking a valid address and untracking it again, with no stored transaction that names it,
  succeeds, reports that the address was tracked, and leaves exactly the other tracked addresses.\<close>

theorem add_then_remove:
  assumes "valid_address b58 address" and "db_faults d = []"
    and "\<not> pinned address (db_tables d)"
  shows "\<exists>d1 d2. add_address b58 (Some secs) address d = (Ok (), d1) \<and>
    is_address_tracked address d1 = (Ok True, d1) \<and>
    remove_address address d1 = (Ok True, d2) \<and>
    (\<forall>b. is_address_tracked b d2 = (Ok (b \<noteq> address \<and> has_address b (db_tables d)), d2))"
proof -
  let ?t = "db_tables d" and ?v = "u64_as_i64 secs"
  let ?t1 = "sql_upsert_address address ?v ?t"
  let ?d1 = "d\<lparr>db_tables := ?t1\<rparr>"
  obtain n t2 where del: "sql_delete_address address ?t1 = (Ok n, t2)" and n: "0 < n"
    using assms(3) has_address_upsert [of address address ?v ?t] count_address_pos [of address ?t1]
    by (auto simp: sql_delete_address_def pinned_def sql_count_address_def)
  let ?d2 = "d\<lparr>db_tables := t2\<rparr>"
  have "add_address b58 (Some secs) address d = (Ok (), ?d1)"
    using assms(1,2) by (simp add: add_address_valid stmt_no_faults)
  moreover have "is_address_tracked address ?d1 = (Ok True, ?d1)"
    using assms(2) by (simp add: is_address_tracked_no_faults has_address_upsert)
  moreover have "remove_address address ?d1 = (Ok True, ?d2)"
    using assms(2) del n by (simp add: remove_address_def bind_st_def ret_st_def stmt_no_faults)
  moreover have "is_address_tracked b ?d2 = (Ok (b \<noteq> address \<and> has_address b ?t), ?d2)" for b
    using addr_reg.reg_insert_delete [OF assms(3), of b ?v] assms(2) del
    by (simp add: is_address_tracked_no_faults)
  ultimately show ?thesis by blast
qed

definition empty_db :: db where
  "empty_db = \<lparr>db_tables = \<lparr>t_tracked = [], t_txs = []\<rparr>, db_faults = []\<rparr>"

theorem add_then_remove_witness:
  "\<exists>d1 d2. add_address ones_b58 (Some 9) ones empty_db = (Ok (), d1) \<and>
    is_address_tracked ones d1 = (Ok True, d1) \<and> remove_address ones d1 = (Ok True, d2) \<and>
    (\<forall>b. is_address_tracked b d2 = (Ok (b \<noteq> ones \<and> has_address b (db_tables empty_db)), d2))"
  by (rule add_then_remove) (simp_all, simp_all add: empty_db_def pinned_def)

end
