(* ===== verification/Cache.thy ===== *)
theory Cache
  imports Models Config
begin

text \<open>
  The caches, \<^verbatim>\<open>src/cache\<close>: the cache key and its textual form (\<^verbatim>\<open>keys.rs\<close>), the transaction cache
  manager (\<^verbatim>\<open>transaction.rs\<close>), the address cache manager (\<^verbatim>\<open>address.rs\<close>) and \<open>init_cache\<close>
  (\<^verbatim>\<open>mod.rs\<close>). The cache itself is the crate \<open>moka\<close>: its operations are the argument \<open>M\<close> of the
  definitions, and the locale \<open>moka_cache\<close> states what its documentation promises.
\<close>

section \<open>Cache keys\<close>

datatype cache_key =
    TransactionQuery string i64 i64 i64 i64
  | AddressTracked string

definition transaction_query :: "string \<Rightarrow> i64 \<Rightarrow> i64 \<Rightarrow> i64 \<Rightarrow> i64 \<Rightarrow> cache_key" where
  "transaction_query address start_time end_time offset limit =
     TransactionQuery address start_time end_time offset limit"

definition address_tracked :: "string \<Rightarrow> cache_key" where
  "address_tracked address = AddressTracked address"

fun key_address :: "cache_key \<Rightarrow> string option" where
  "key_address (TransactionQuery a s e off l) = Some a"
| "key_address (AddressTracked a) = Some a"

fun key_display :: "cache_key \<Rightarrow> string" where
  "key_display (TransactionQuery a s e off l) =
     ''tx:'' @ a @ '':'' @ show_int s @ '':'' @ show_int e @ '':'' @ show_int off @ '':'' @ show_int l"
| "key_display (AddressTracked a) = ''addr:'' @ a"

text \<open>A separator that does not occur to its right splits a string in one way.\<close>

lemma last_separator_unique:
  assumes "xs @ c # ys = xs' @ c # ys'" and "c \<notin> set ys" and "c \<notin> set ys'"
  shows "xs = xs' \<and> ys = ys'"
proof -
  have split: "takeWhile (\<lambda>x. x \<noteq> c) (rev (p @ c # q)) = rev q" if "c \<notin> set q" for p q :: "'a list"
    using that by (simp add: takeWhile_append)
  from split [OF assms(2), of xs] split [OF assms(3), of xs'] have "ys = ys'"
    by (simp add: assms(1))
  with assms(1) show ?thesis by simp
qed

lemma key_display_inj: "key_display k = key_display k' \<Longrightarrow> k = k'"
proof (cases k; cases k')
  fix a s e off l a' s' e' off' l'
  let ?c = "CHR '':''"
  assume eq: "key_display k = key_display k'"
    and k: "k = TransactionQuery a s e off l" "k' = TransactionQuery a' s' e' off' l'"
  note peel = last_separator_unique [OF _ show_int_no_colon show_int_no_colon]
  have "(''tx:'' @ a @ ?c # show_int s @ ?c # show_int e @ ?c # show_int off) @ ?c # show_int l =
        (''tx:'' @ a' @ ?c # show_int s' @ ?c # show_int e' @ ?c # show_int off') @ ?c # show_int l'"
    using eq k by simp
  note 1 = peel [OF this]
  have "(''tx:'' @ a @ ?c # show_int s @ ?c # show_int e) @ ?c # show_int off =
        (''tx:'' @ a' @ ?c # show_int s' @ ?c # show_int e') @ ?c # show_int off'"
    using 1 by simp
  note 2 = peel [OF this]
  have "(''tx:'' @ a @ ?c # show_int s) @ ?c # show_int e =
        (''tx:'' @ a' @ ?c # show_int s') @ ?c # show_int e'"
    using 2 by simp
  note 3 = peel [OF this]
  have "(''tx:'' @ a) @ ?c # show_int s = (''tx:'' @ a') @ ?c # show_int s'"
    using 3 by simp
  note 4 = peel [OF this]
  show "k = k'" using 1 2 3 4 k by (simp add: show_int_inj)
qed simp_all

section \<open>The cache of the crate \<open>moka\<close>\<close>

datatype predicate_error = InvalidationClosuresDisabled

text \<open>
  \<open>mk_build\<close> takes the maximum capacity, the time to live in seconds and whether
  \<open>support_invalidation_closures()\<close> was called; \<open>None\<close> is a panic, for a time to live over 1000 years
  of 365 days. The times are seconds of a monotonic clock.
\<close>

definition moka_max_ttl :: nat where
  "moka_max_ttl = 1000 * (365 * 24 * 3600)"

record ('c, 'k, 'v) moka =
  mk_build :: "nat \<Rightarrow> nat \<Rightarrow> bool \<Rightarrow> 'c option"
  mk_get :: "nat \<Rightarrow> 'k \<Rightarrow> 'c \<Rightarrow> 'v option \<times> 'c"
  mk_insert :: "nat \<Rightarrow> 'k \<Rightarrow> 'v \<Rightarrow> 'c \<Rightarrow> 'c"
  mk_invalidate :: "'k \<Rightarrow> 'c \<Rightarrow> 'c"
  mk_invalidate_if :: "('k \<Rightarrow> 'v \<Rightarrow> bool) \<Rightarrow> 'c \<Rightarrow> (predicate_error, unit) res \<times> 'c"

text \<open>
  \<open>contents c k\<close> is the value a lookup of \<open>k\<close> may return: entries may expire or be evicted at any
  time, so every operation may lose entries, and none invents one. \<open>invalidate_entries_if\<close> is an
  error without effect unless the cache was built with support for it.
\<close>

locale moka_cache =
  fixes M :: "('c, 'k, 'v) moka"
    and contents :: "'c \<Rightarrow> 'k \<Rightarrow> 'v option"
    and closures :: "'c \<Rightarrow> bool"
  assumes build_panics: "mk_build M cap ttl b = None \<longleftrightarrow> moka_max_ttl < ttl"
    and build_contents: "mk_build M cap ttl b = Some c \<Longrightarrow> contents c = Map.empty"
    and build_closures: "mk_build M cap ttl b = Some c \<Longrightarrow> closures c = b"
    and get_contents: "mk_get M now k c = (r, c') \<Longrightarrow>
      (\<forall>v. r = Some v \<longrightarrow> contents c k = Some v) \<and> contents c' \<subseteq>\<^sub>m contents c"
    and get_closures: "mk_get M now k c = (r, c') \<Longrightarrow> closures c' = closures c"
    and insert_contents: "contents (mk_insert M now k v c) \<subseteq>\<^sub>m (contents c)(k \<mapsto> v)"
    and insert_closures: "closures (mk_insert M now k v c) = closures c"
    and invalidate_contents: "contents (mk_invalidate M k c) \<subseteq>\<^sub>m (contents c)(k := None)"
    and invalidate_closures: "closures (mk_invalidate M k c) = closures c"
    and invalidate_if_disabled: "\<not> closures c \<Longrightarrow>
      mk_invalidate_if M p c = (Err InvalidationClosuresDisabled, c)"
    and invalidate_if_enabled: "closures c \<Longrightarrow> mk_invalidate_if M p c = (q, c') \<Longrightarrow>
      q = Ok () \<and> closures c' \<and>
      (\<forall>k v. contents c' k = Some v \<longrightarrow> contents c k = Some v \<and> \<not> p k v)"

section \<open>The transaction cache manager\<close>

record 'c tcm =
  tc_cache :: 'c
  tc_default_ttl :: nat

definition tcm_new :: "('c, 'k, 'v) moka \<Rightarrow> nat \<Rightarrow> nat \<Rightarrow> ('e, 'c tcm) res" where
  "tcm_new M capacity default_ttl =
     (case mk_build M capacity default_ttl False of
        None \<Rightarrow> Panic
      | Some cache \<Rightarrow> Ok \<lparr>tc_cache = cache, tc_default_ttl = default_ttl\<rparr>)"

definition tcm_get :: "('c, 'k, 'v) moka \<Rightarrow> nat \<Rightarrow> 'k \<Rightarrow> 'c tcm \<Rightarrow> 'v option \<times> 'c tcm" where
  "tcm_get M now key m =
     (case mk_get M now key (tc_cache m) of (r, c) \<Rightarrow> (r, m\<lparr>tc_cache := c\<rparr>))"

text \<open>The time to live is computed and only logged: the insertion does not receive it.\<close>

definition tcm_insert ::
  "('c, 'k, 'v) moka \<Rightarrow> nat \<Rightarrow> 'k \<Rightarrow> 'v \<Rightarrow> nat option \<Rightarrow> 'c tcm \<Rightarrow> 'c tcm" where
  "tcm_insert M now key val ttl m =
     (let logged_ttl = (case ttl of None \<Rightarrow> tc_default_ttl m | Some t \<Rightarrow> t)
      in m\<lparr>tc_cache := mk_insert M now key val (tc_cache m)\<rparr>)"

definition key_is_for :: "string \<Rightarrow> cache_key \<Rightarrow> bool" where
  "key_is_for address k = (case key_address k of Some a \<Rightarrow> a = address | None \<Rightarrow> False)"

text \<open>The result of \<open>invalidate_entries_if\<close> is dropped (\<open>let _ =\<close>).\<close>

definition tcm_invalidate_for_address ::
  "('c, cache_key, 'v) moka \<Rightarrow> string \<Rightarrow> 'c tcm \<Rightarrow> 'c tcm" where
  "tcm_invalidate_for_address M address m =
     m\<lparr>tc_cache := snd (mk_invalidate_if M (\<lambda>k v. key_is_for address k) (tc_cache m))\<rparr>"

definition get_ttl_for_time_range :: "u64 option \<Rightarrow> i64 \<Rightarrow> i64 \<Rightarrow> nat" where
  "get_ttl_for_time_range clock start_time end_time =
     (let now = u64_as_i64 (case clock of None \<Rightarrow> 0 | Some secs \<Rightarrow> secs)
      in if wrap_i64 (now - 3600) < end_time then 30
         else if wrap_i64 (now - 86400) < end_time then 300
         else 1800)"

section \<open>The address cache manager\<close>

record 'c acm =
  ac_cache :: 'c

definition acm_new :: "('c, string, bool) moka \<Rightarrow> nat \<Rightarrow> nat \<Rightarrow> ('e, 'c acm) res" where
  "acm_new M capacity ttl =
     (case mk_build M capacity ttl False of
        None \<Rightarrow> Panic
      | Some cache \<Rightarrow> Ok \<lparr>ac_cache = cache\<rparr>)"

definition acm_is_tracked ::
  "('c, string, bool) moka \<Rightarrow> nat \<Rightarrow> string \<Rightarrow> 'c acm \<Rightarrow> bool option \<times> 'c acm" where
  "acm_is_tracked M now address m =
     (case mk_get M now address (ac_cache m) of (r, c) \<Rightarrow> (r, m\<lparr>ac_cache := c\<rparr>))"

definition acm_set_tracked ::
  "('c, string, bool) moka \<Rightarrow> nat \<Rightarrow> string \<Rightarrow> bool \<Rightarrow> 'c acm \<Rightarrow> 'c acm" where
  "acm_set_tracked M now address tracked m =
     m\<lparr>ac_cache := mk_insert M now address tracked (ac_cache m)\<rparr>"

definition acm_invalidate :: "('c, string, bool) moka \<Rightarrow> string \<Rightarrow> 'c acm \<Rightarrow> 'c acm" where
  "acm_invalidate M address m = m\<lparr>ac_cache := mk_invalidate M address (ac_cache m)\<rparr>"

section \<open>\<open>init_cache\<close>\<close>

record ('c, 'd) app_cache =
  transaction_cache :: "'c tcm"
  address_cache :: "'d acm"

definition init_cache ::
  "('c, 'k, 'v) moka \<Rightarrow> ('d, string, bool) moka \<Rightarrow> config \<Rightarrow> ('e, ('c, 'd) app_cache) res" where
  "init_cache MT MA cfg =
     bind_res (tcm_new MT (cache_max_capacity cfg) (cache_ttl cfg)) (\<lambda>tc.
     bind_res (acm_new MA 1000 60) (\<lambda>ac.
       Ok \<lparr>transaction_cache = tc, address_cache = ac\<rparr>))"

section \<open>The interface of a result cache\<close>

text \<open>
  What a client of a cache may rely on when entries can vanish at any time: a hit is a value that
  was stored for the key, and nothing else enters the cache.
\<close>

definition every_entry :: "('k \<Rightarrow> 'v \<Rightarrow> bool) \<Rightarrow> ('k \<Rightarrow> 'v option) \<Rightarrow> bool" where
  "every_entry P view \<longleftrightarrow> (\<forall>k v. view k = Some v \<longrightarrow> P k v)"

lemma every_entry_mono:
  "every_entry P view \<Longrightarrow> (\<And>k v. P k v \<Longrightarrow> Q k v) \<Longrightarrow> every_entry Q view"
  by (auto simp: every_entry_def)

locale result_cache =
  fixes rc_get :: "nat \<Rightarrow> 'k \<Rightarrow> 's \<Rightarrow> 'v option \<times> 's"
    and rc_insert :: "nat \<Rightarrow> 'k \<Rightarrow> 'v \<Rightarrow> 's \<Rightarrow> 's"
    and rc_view :: "'s \<Rightarrow> 'k \<Rightarrow> 'v option"
  assumes rc_get_hit: "rc_get now k s = (Some v, s') \<Longrightarrow> rc_view s k = Some v"
    and rc_get_view: "rc_get now k s = (r, s') \<Longrightarrow> rc_view s' \<subseteq>\<^sub>m rc_view s"
    and rc_insert_view: "rc_view (rc_insert now k v s) \<subseteq>\<^sub>m (rc_view s)(k \<mapsto> v)"
begin

lemma rc_hit_entry:
  "every_entry P (rc_view s) \<Longrightarrow> rc_get now k s = (Some v, s') \<Longrightarrow> P k v"
  using rc_get_hit by (auto simp: every_entry_def)

lemma rc_get_entries:
  "every_entry P (rc_view s) \<Longrightarrow> rc_get now k s = (r, s') \<Longrightarrow> every_entry P (rc_view s')"
  using map_leD [OF rc_get_view] by (fastforce simp: every_entry_def)

lemma rc_insert_entries:
  "every_entry P (rc_view s) \<Longrightarrow> P k v \<Longrightarrow> every_entry P (rc_view (rc_insert now k v s))"
  unfolding every_entry_def
  by (metis map_leD [OF rc_insert_view] fun_upd_apply option.inject)

end

text \<open>The transaction cache manager provides this interface on any cache that keeps its promises.\<close>

sublocale moka_cache \<subseteq> tx_results: result_cache "tcm_get M"
  "\<lambda>now k v m. tcm_insert M now k v ttl m" "\<lambda>m. contents (tc_cache m)" for ttl
proof
  fix now k v s s' r
  show "tcm_get M now k s = (Some v, s') \<Longrightarrow> contents (tc_cache s) k = Some v"
    using get_contents by (auto simp: tcm_get_def split: prod.splits)
  show "tcm_get M now k s = (r, s') \<Longrightarrow> contents (tc_cache s') \<subseteq>\<^sub>m contents (tc_cache s)"
    using get_contents by (auto simp: tcm_get_def split: prod.splits)
  show "contents (tc_cache (tcm_insert M now k v ttl s)) \<subseteq>\<^sub>m (contents (tc_cache s))(k \<mapsto> v)"
    using insert_contents by (simp add: tcm_insert_def)
qed

section \<open>A cache that keeps the promises\<close>

text \<open>
  A bounded cache with least-recently-used eviction and a time to live. It satisfies the
  assumptions of \<open>moka_cache\<close>; the witnesses run on it.
\<close>

record ('k, 'v) lru =
  lru_entries :: "('k \<times> 'v \<times> nat) list"
  lru_capacity :: nat
  lru_ttl :: nat
  lru_closures :: bool

definition lru_find :: "'k \<Rightarrow> ('k, 'v) lru \<Rightarrow> ('v \<times> nat) option" where
  "lru_find k c = map_of (lru_entries c) k"

definition lru_get :: "nat \<Rightarrow> 'k \<Rightarrow> ('k, 'v) lru \<Rightarrow> 'v option \<times> ('k, 'v) lru" where
  "lru_get now k c =
     (case lru_find k c of
        None \<Rightarrow> (None, c)
      | Some (v, t) \<Rightarrow>
          if now < t + lru_ttl c
          then (Some v, c\<lparr>lru_entries := (k, v, t) # filter (\<lambda>e. fst e \<noteq> k) (lru_entries c)\<rparr>)
          else (None, c\<lparr>lru_entries := filter (\<lambda>e. fst e \<noteq> k) (lru_entries c)\<rparr>))"

definition lru_insert :: "nat \<Rightarrow> 'k \<Rightarrow> 'v \<Rightarrow> ('k, 'v) lru \<Rightarrow> ('k, 'v) lru" where
  "lru_insert now k v c =
     c\<lparr>lru_entries :=
         take (lru_capacity c) ((k, v, now) # filter (\<lambda>e. fst e \<noteq> k) (lru_entries c))\<rparr>"

definition lru_drop :: "('k \<Rightarrow> 'v \<Rightarrow> bool) \<Rightarrow> ('k, 'v) lru \<Rightarrow> ('k, 'v) lru" where
  "lru_drop p c =
     c\<lparr>lru_entries :=
         filter (\<lambda>e. \<not> pred_option (\<lambda>(v, t). p (fst e) v) (lru_find (fst e) c)) (lru_entries c)\<rparr>"

definition lru_moka :: "(('k, 'v) lru, 'k, 'v) moka" where
  "lru_moka =
     \<lparr>mk_build = (\<lambda>cap ttl b.
        if moka_max_ttl < ttl then None
        else Some \<lparr>lru_entries = [], lru_capacity = cap, lru_ttl = ttl, lru_closures = b\<rparr>),
      mk_get = lru_get, mk_insert = lru_insert,
      mk_invalidate = (\<lambda>k. lru_drop (\<lambda>k' v. k' = k)),
      mk_invalidate_if = (\<lambda>p c.
        if lru_closures c then (Ok (), lru_drop p c)
        else (Err InvalidationClosuresDisabled, c))\<rparr>"

definition lru_contents :: "('k, 'v) lru \<Rightarrow> 'k \<Rightarrow> 'v option" where
  "lru_contents c k = map_option fst (lru_find k c)"

lemmas lru_defs = lru_contents_def lru_find_def

lemma lru_drop_contents:
  "lru_contents (lru_drop p c) k = Some v \<longleftrightarrow> lru_contents c k = Some v \<and> \<not> p k v"
proof -
  have "lru_find k (lru_drop p c) =
      (if \<not> pred_option (\<lambda>(v, t). p k v) (lru_find k c) then lru_find k c else None)"
    using map_of_filter_key
      [of "\<lambda>k. \<not> pred_option (\<lambda>(v, t). p k v) (lru_find k c)" "lru_entries c" k]
    by (simp add: lru_drop_def lru_find_def)
  then show ?thesis by (cases "lru_find k c") (auto simp: lru_contents_def)
qed

lemma lru_get_contents:
  assumes "lru_get now k c = (r, c')"
  shows "(\<forall>v. r = Some v \<longrightarrow> lru_contents c k = Some v) \<and> lru_contents c' \<subseteq>\<^sub>m lru_contents c"
  using assms
  by (auto simp: lru_get_def lru_defs map_of_filter_key [of "\<lambda>x. x \<noteq> k"]
      intro!: map_leI split: option.splits if_splits)

lemma lru_insert_contents: "lru_contents (lru_insert now k v c) \<subseteq>\<^sub>m (lru_contents c)(k \<mapsto> v)"
proof (rule map_leI)
  fix k' v'
  assume "lru_contents (lru_insert now k v c) k' = Some v'"
  then obtain t where "map_of (take (lru_capacity c)
      ((k, v, now) # filter (\<lambda>e. fst e \<noteq> k) (lru_entries c))) k' = Some (v', t)"
    by (auto simp: lru_insert_def lru_defs)
  then have "map_of ((k, v, now) # filter (\<lambda>e. fst e \<noteq> k) (lru_entries c)) k' = Some (v', t)"
    by (rule map_of_take)
  then show "((lru_contents c)(k \<mapsto> v)) k' = Some v'"
    by (auto simp: lru_defs map_of_filter_key [of "\<lambda>x. x \<noteq> k"] split: if_splits)
qed

interpretation lru: moka_cache lru_moka lru_contents lru_closures
proof
  fix cap ttl b now k v c p r c' q
  show "mk_build lru_moka cap ttl b = None \<longleftrightarrow> moka_max_ttl < ttl"
    by (simp add: lru_moka_def)
  show "mk_build lru_moka cap ttl b = Some c \<Longrightarrow> lru_contents c = Map.empty"
    by (auto simp: lru_moka_def lru_defs fun_eq_iff split: if_splits)
  show "mk_build lru_moka cap ttl b = Some c \<Longrightarrow> lru_closures c = b"
    by (auto simp: lru_moka_def split: if_splits)
  show "mk_get lru_moka now k c = (r, c') \<Longrightarrow>
      (\<forall>v. r = Some v \<longrightarrow> lru_contents c k = Some v) \<and> lru_contents c' \<subseteq>\<^sub>m lru_contents c"
    by (simp add: lru_moka_def lru_get_contents)
  show "mk_get lru_moka now k c = (r, c') \<Longrightarrow> lru_closures c' = lru_closures c"
    by (auto simp: lru_moka_def lru_get_def split: option.splits if_splits)
  show "lru_contents (mk_insert lru_moka now k v c) \<subseteq>\<^sub>m (lru_contents c)(k \<mapsto> v)"
    by (simp add: lru_moka_def lru_insert_contents)
  show "lru_closures (mk_insert lru_moka now k v c) = lru_closures c"
    by (simp add: lru_moka_def lru_insert_def)
  show "lru_contents (mk_invalidate lru_moka k c) \<subseteq>\<^sub>m (lru_contents c)(k := None)"
    by (auto simp: lru_moka_def lru_drop_contents intro!: map_leI)
  show "lru_closures (mk_invalidate lru_moka k c) = lru_closures c"
    by (simp add: lru_moka_def lru_drop_def)
  show "\<not> lru_closures c \<Longrightarrow>
      mk_invalidate_if lru_moka p c = (Err InvalidationClosuresDisabled, c)"
    by (simp add: lru_moka_def)
  show "lru_closures c \<Longrightarrow> mk_invalidate_if lru_moka p c = (q, c') \<Longrightarrow>
      q = Ok () \<and> lru_closures c' \<and>
      (\<forall>k v. lru_contents c' k = Some v \<longrightarrow> lru_contents c k = Some v \<and> \<not> p k v)"
    by (auto simp: lru_moka_def lru_drop_contents) (simp add: lru_drop_def)
qed

text \<open>A manager on such a cache, as \<open>tcm_new\<close> leaves it.\<close>

definition lru_tcm :: "nat \<Rightarrow> nat \<Rightarrow> ('k, 'v) lru tcm" where
  "lru_tcm cap ttl =
     \<lparr>tc_cache = \<lparr>lru_entries = [], lru_capacity = cap, lru_ttl = ttl, lru_closures = False\<rparr>,
      tc_default_ttl = ttl\<rparr>"

lemma tcm_new_lru: "tcm_new lru_moka 1000 60 = Ok (lru_tcm 1000 60)"
  by (simp add: tcm_new_def lru_moka_def lru_tcm_def moka_max_ttl_def)

lemma lru_tcm_empty [simp]: "lru_contents (tc_cache (lru_tcm cap ttl)) = Map.empty"
  by (simp add: lru_tcm_def lru_defs fun_eq_iff)

text \<open>
  The time to live of \<open>moka\<close>: an entry is returned only while its age, since the insertion, is below
  the time to live the cache was built with. \<open>stamp c k\<close> is the time at which the entry of \<open>k\<close> was
  inserted.
\<close>

locale timed_cache = moka_cache M contents closures
  for M :: "('c, 'k, 'v) moka" and contents and closures +
  fixes stamp :: "'c \<Rightarrow> 'k \<Rightarrow> nat"
    and lifetime :: "'c \<Rightarrow> nat"
  assumes build_lifetime: "mk_build M cap ttl b = Some c \<Longrightarrow> lifetime c = ttl"
    and get_lifetime: "mk_get M now k c = (r, c') \<Longrightarrow> lifetime c' = lifetime c"
    and insert_lifetime: "lifetime (mk_insert M now k v c) = lifetime c"
    and get_young: "mk_get M now k c = (Some v, c') \<Longrightarrow> now < stamp c k + lifetime c"
    and get_stamp: "mk_get M now k c = (r, c') \<Longrightarrow> contents c' k' \<noteq> None \<Longrightarrow> stamp c' k' = stamp c k'"
    and insert_stamp: "contents (mk_insert M now k v c) k' \<noteq> None \<Longrightarrow>
      stamp (mk_insert M now k v c) k' = (if k' = k then now else stamp c k')"
begin

text \<open>Every entry has a property that may depend on when it was inserted.\<close>

definition dated :: "(nat \<Rightarrow> 'k \<Rightarrow> 'v \<Rightarrow> bool) \<Rightarrow> 'c tcm \<Rightarrow> bool" where
  "dated P m \<longleftrightarrow> every_entry (\<lambda>k. P (stamp (tc_cache m) k) k) (contents (tc_cache m))"

lemma dated_new:
  assumes "tcm_new M cap ttl = Ok m"
  shows "dated P m" and "lifetime (tc_cache m) = ttl"
  using assms
  by (auto simp: dated_def every_entry_def tcm_new_def build_contents build_lifetime split: option.splits)

lemma dated_mono: "dated P m \<Longrightarrow> (\<And>n k v. P n k v \<Longrightarrow> Q n k v) \<Longrightarrow> dated Q m"
  by (auto simp: dated_def every_entry_def)

lemma dated_get:
  assumes "dated P m" and "tcm_get M now k m = (r, m')"
  shows "dated P m'" and "lifetime (tc_cache m') = lifetime (tc_cache m)"
    and "r = Some v \<Longrightarrow> P (stamp (tc_cache m) k) k v \<and> now < stamp (tc_cache m) k + lifetime (tc_cache m)"
proof -
  obtain c where c: "mk_get M now k (tc_cache m) = (r, c)" and m': "m' = m\<lparr>tc_cache := c\<rparr>"
    using assms(2) by (auto simp: tcm_get_def split: prod.splits)
  note g = get_contents [OF c]
  have "P (stamp c k') k' v'" if "contents c k' = Some v'" for k' v'
    using that assms(1) map_leD [OF conjunct2 [OF g] that] get_stamp [OF c, of k']
    by (simp add: dated_def every_entry_def)
  then show "dated P m'" by (simp add: m' dated_def every_entry_def)
  show "lifetime (tc_cache m') = lifetime (tc_cache m)" using get_lifetime [OF c] by (simp add: m')
  show "P (stamp (tc_cache m) k) k v \<and> now < stamp (tc_cache m) k + lifetime (tc_cache m)"
    if "r = Some v"
    using g assms(1) get_young [of now k "tc_cache m" v c] c that
    by (simp add: dated_def every_entry_def)
qed

lemma dated_insert:
  assumes "dated P m" and "P now k v"
  shows "dated P (tcm_insert M now k v ttl m)"
    and "lifetime (tc_cache (tcm_insert M now k v ttl m)) = lifetime (tc_cache m)"
proof -
  let ?c = "mk_insert M now k v (tc_cache m)"
  have "P (stamp ?c k') k' v'" if "contents ?c k' = Some v'" for k' v'
    using that assms map_leD [OF insert_contents that] insert_stamp [of now k v "tc_cache m" k']
    by (auto simp: dated_def every_entry_def split: if_splits)
  then show "dated P (tcm_insert M now k v ttl m)"
    by (simp add: tcm_insert_def dated_def every_entry_def)
  show "lifetime (tc_cache (tcm_insert M now k v ttl m)) = lifetime (tc_cache m)"
    by (simp add: tcm_insert_def insert_lifetime)
qed

end

definition lru_stamp :: "('k, 'v) lru \<Rightarrow> 'k \<Rightarrow> nat" where
  "lru_stamp c k = (case lru_find k c of None \<Rightarrow> 0 | Some (v, t) \<Rightarrow> t)"

interpretation lru_time: timed_cache lru_moka lru_contents lru_closures lru_stamp lru_ttl
proof
  fix cap ttl now :: nat and b k v c r c' k'
  show "mk_build lru_moka cap ttl b = Some c \<Longrightarrow> lru_ttl c = ttl"
    by (auto simp: lru_moka_def split: if_splits)
  show "mk_get lru_moka now k c = (r, c') \<Longrightarrow> lru_ttl c' = lru_ttl c"
    by (auto simp: lru_moka_def lru_get_def split: option.splits if_splits)
  show "lru_ttl (mk_insert lru_moka now k v c) = lru_ttl c"
    by (simp add: lru_moka_def lru_insert_def)
  show "mk_get lru_moka now k c = (Some v, c') \<Longrightarrow> now < lru_stamp c k + lru_ttl c"
    by (auto simp: lru_moka_def lru_get_def lru_stamp_def split: option.splits if_splits)
  show "mk_get lru_moka now k c = (r, c') \<Longrightarrow> lru_contents c' k' \<noteq> None \<Longrightarrow>
      lru_stamp c' k' = lru_stamp c k'"
    by (auto simp: lru_moka_def lru_get_def lru_stamp_def lru_defs
        map_of_filter_key [of "\<lambda>x. x \<noteq> k"] split: option.splits if_splits)
  show "lru_contents (mk_insert lru_moka now k v c) k' \<noteq> None \<Longrightarrow>
      lru_stamp (mk_insert lru_moka now k v c) k' = (if k' = k then now else lru_stamp c k')"
  proof -
    assume "lru_contents (mk_insert lru_moka now k v c) k' \<noteq> None"
    then obtain v' t where f: "map_of (take (lru_capacity c)
        ((k, v, now) # filter (\<lambda>e. fst e \<noteq> k) (lru_entries c))) k' = Some (v', t)"
      by (auto simp: lru_moka_def lru_insert_def lru_defs)
    from map_of_take [OF f] have "t = (if k' = k then now else lru_stamp c k')"
      by (auto simp: lru_stamp_def lru_find_def map_of_filter_key [of "\<lambda>x. x \<noteq> k"] split: if_splits)
    with f show ?thesis by (simp add: lru_moka_def lru_insert_def lru_stamp_def lru_find_def)
  qed
qed

section \<open>Properties of the caches\<close>

datatype ('k, 'v) tcm_op =
    OpGet nat 'k
  | OpInsert nat 'k 'v "nat option"
  | OpInvalidate string

fun tcm_step :: "('c, cache_key, 'v) moka \<Rightarrow> (cache_key, 'v) tcm_op \<Rightarrow> 'c tcm \<Rightarrow> 'c tcm" where
  "tcm_step M (OpGet now k) m = snd (tcm_get M now k m)"
| "tcm_step M (OpInsert now k v ttl) m = tcm_insert M now k v ttl m"
| "tcm_step M (OpInvalidate a) m = tcm_invalidate_for_address M a m"

definition tcm_run ::
  "('c, cache_key, 'v) moka \<Rightarrow> (cache_key, 'v) tcm_op list \<Rightarrow> 'c tcm \<Rightarrow> 'c tcm" where
  "tcm_run M ops m = fold (tcm_step M) ops m"

context moka_cache
begin

lemma tcm_get_closures: "closures (tc_cache (snd (tcm_get M now k m))) = closures (tc_cache m)"
  using get_closures by (auto simp: tcm_get_def split: prod.splits)

lemma tcm_insert_closures: "closures (tc_cache (tcm_insert M now k v ttl m)) = closures (tc_cache m)"
  by (simp add: tcm_insert_def insert_closures)

lemma tcm_get_contents: "fst (tcm_get M now k m) = Some v \<Longrightarrow> contents (tc_cache m) k = Some v"
  using tx_results.rc_get_hit by (metis prod.collapse)

text \<open>What a lookup may return after a hit, and after an insertion.\<close>

lemma tcm_hit_kept:
  "tcm_get M now k m = (Some v, m') \<Longrightarrow> contents (tc_cache m') k = Some w \<Longrightarrow> w = v"
  using tx_results.rc_get_hit tx_results.rc_get_view map_leD by (metis option.inject)

lemma tcm_inserted: "contents (tc_cache (tcm_insert M now k v ttl m)) k = Some w \<Longrightarrow> w = v"
  using map_leD [OF tx_results.rc_insert_view] by fastforce

lemma tcm_new_closures: "tcm_new M cap ttl = Ok m \<Longrightarrow> \<not> closures (tc_cache m)"
  by (auto simp: tcm_new_def build_closures split: option.splits)

lemma tcm_new_empty: "tcm_new M cap ttl = Ok m \<Longrightarrow> contents (tc_cache m) = Map.empty"
  by (auto simp: tcm_new_def build_contents split: option.splits)

lemma tcm_new_outcome:
  "if moka_max_ttl < ttl then tcm_new M cap ttl = Panic
   else \<exists>m. tcm_new M cap ttl = Ok m \<and> tc_default_ttl m = ttl \<and>
     contents (tc_cache m) = Map.empty \<and> \<not> closures (tc_cache m)"
  using build_panics [of cap ttl False]
  by (cases "mk_build M cap ttl False") (auto simp: tcm_new_def dest: build_contents build_closures)

end

lemma tcm_invalidate_disabled:
  assumes "moka_cache M contents closures" and "\<not> closures (tc_cache m)"
  shows "tcm_invalidate_for_address M a m = m"
  using moka_cache.invalidate_if_disabled [OF assms] by (simp add: tcm_invalidate_for_address_def)

lemma tcm_run_closures:
  assumes "moka_cache M contents closures"
  shows "\<not> closures (tc_cache m) \<Longrightarrow> \<not> closures (tc_cache (tcm_run M ops m))"
proof (induction ops arbitrary: m)
  case Nil
  then show ?case by (simp add: tcm_run_def)
next
  case (Cons op ops)
  have "\<not> closures (tc_cache (tcm_step M op m))"
    using Cons.prems assms
    by (cases op) (simp_all add: moka_cache.tcm_get_closures moka_cache.tcm_insert_closures
        tcm_invalidate_disabled)
  then show ?case using Cons.IH by (simp add: tcm_run_def)
qed

text \<open>The time to live chosen for the entry has no effect on the cache.\<close>

lemma tcm_insert_ignores_ttl: "tcm_insert M now k v ttl m = tcm_insert M now k v None m"
  by (simp add: tcm_insert_def)

text \<open>The caches can be built exactly if the configured time to live is at most 1000 years.\<close>

lemma init_cache_outcome:
  assumes "moka_cache MT contents closures" and "moka_cache MA contents' closures'"
  shows "if moka_max_ttl < cache_ttl cfg then init_cache MT MA cfg = Panic
    else \<exists>c. init_cache MT MA cfg = Ok c \<and>
      tc_default_ttl (transaction_cache c) = cache_ttl cfg \<and>
      contents (tc_cache (transaction_cache c)) = Map.empty \<and>
      contents' (ac_cache (address_cache c)) = Map.empty"
proof -
  obtain ac where ac: "mk_build MA 1000 60 False = Some ac" "contents' ac = Map.empty"
    using moka_cache.build_panics [OF assms(2), of 1000 60 False] moka_cache.build_contents [OF assms(2)]
    by (cases "mk_build MA 1000 60 False") (auto simp: moka_max_ttl_def)
  show ?thesis
    using moka_cache.build_panics [OF assms(1), of "cache_max_capacity cfg" "cache_ttl cfg" False]
      moka_cache.build_contents [OF assms(1), of "cache_max_capacity cfg" "cache_ttl cfg" False]
    by (cases "mk_build MT (cache_max_capacity cfg) (cache_ttl cfg) False")
      (auto simp: init_cache_def tcm_new_def acm_new_def ac)
qed

text \<open>The textual form of a cache key identifies the key: no two keys print alike, whatever
  characters the address contains.\<close>

theorem cache_key_display_injective: "inj key_display"
  by (rule injI) (rule key_display_inj)

text \<open>\<open>invalidate_for_address\<close> never removes anything: the manager builds its cache without
  \<open>support_invalidation_closures()\<close>, so after any sequence of operations the predicate invalidation
  is refused, the error is dropped, and the manager is left as it was.\<close>

theorem invalidate_for_address_no_effect:
  assumes "moka_cache M contents closures" and "tcm_new M capacity ttl = Ok m"
  shows "tcm_invalidate_for_address M address (tcm_run M ops m) = tcm_run M ops m"
  by (rule tcm_invalidate_disabled [OF assms(1)], rule tcm_run_closures [OF assms(1)],
      rule moka_cache.tcm_new_closures [OF assms])

theorem invalidate_for_address_no_effect_witness:
  "tcm_invalidate_for_address lru_moka ''A''
     (tcm_run lru_moka [OpInsert 0 (TransactionQuery ''A'' 0 9 0 10) (7::nat) None] (lru_tcm 1000 60)) =
   tcm_run lru_moka [OpInsert 0 (TransactionQuery ''A'' 0 9 0 10) (7::nat) None] (lru_tcm 1000 60) \<and>
   fst (tcm_get lru_moka 1 (TransactionQuery ''A'' 0 9 0 10)
     (tcm_run lru_moka [OpInsert 0 (TransactionQuery ''A'' 0 9 0 10) (7::nat) None] (lru_tcm 1000 60))) =
     Some 7"
proof (rule conjI)
  show "tcm_invalidate_for_address lru_moka ''A''
     (tcm_run lru_moka [OpInsert 0 (TransactionQuery ''A'' 0 9 0 10) (7::nat) None] (lru_tcm 1000 60)) =
   tcm_run lru_moka [OpInsert 0 (TransactionQuery ''A'' 0 9 0 10) 7 None] (lru_tcm 1000 60)"
    by (rule invalidate_for_address_no_effect [OF lru.moka_cache_axioms tcm_new_lru])
  show "fst (tcm_get lru_moka 1 (TransactionQuery ''A'' 0 9 0 10)
     (tcm_run lru_moka [OpInsert 0 (TransactionQuery ''A'' 0 9 0 10) (7::nat) None] (lru_tcm 1000 60))) =
     Some 7"
    by (simp add: tcm_run_def tcm_insert_def lru_tcm_def tcm_get_def lru_moka_def lru_get_def
        lru_insert_def lru_find_def)
qed

text \<open>The adaptive time to live is one of 30 s, 5 min and 30 min and never grows with the end of
  the range, as long as the clock reads a time at which the subtractions do not overflow.\<close>

theorem adaptive_ttl_antitone:
  assumes "end_time \<le> end_time'"
    and "pred_option (\<lambda>secs. uint secs < 2 ^ 63) clock"
  shows "get_ttl_for_time_range clock st' end_time' \<le> get_ttl_for_time_range clock st end_time \<and>
    get_ttl_for_time_range clock st end_time \<in> {30, 300, 1800}"
proof -
  define now where "now = u64_as_i64 (case clock of None \<Rightarrow> 0 | Some secs \<Rightarrow> secs)"
  have now: "0 \<le> now" "now < 2 ^ 63"
    using assms(2) by (auto simp: now_def u64_as_i64_small split: option.split)
  then have "i64_ok (now - 3600)" and "i64_ok (now - 86400)"
    by (simp_all add: i64_ok_def)
  then show ?thesis
    using assms(1) unfolding get_ttl_for_time_range_def Let_def now_def [symmetric] by auto
qed

theorem adaptive_ttl_antitone_witness:
  "get_ttl_for_time_range (Some 1700000000) 0 1699999000 \<le>
     get_ttl_for_time_range (Some 1700000000) 0 1600000000 \<and>
   get_ttl_for_time_range (Some 1700000000) 0 1600000000 \<in> {30, 300, 1800}"
  by (rule adaptive_ttl_antitone) auto

end
