(* ===== verification/Db_Transaction.thy ===== *)
theory Db_Transaction
  imports Db_Address Cache
begin

text \<open>
  Storing and querying transactions, \<^verbatim>\<open>src/db/transaction.rs\<close>: the batch insert in one database
  transaction, the paged query through the cache with what other tasks do to the tables between its
  awaits (\<open>query_env\<close>), and the count.
\<close>

section \<open>\<open>add_transactions\<close>\<close>

fun insert_all :: "transaction list \<Rightarrow> unit dbm" where
  "insert_all [] = ret_st ()"
| "insert_all (t # ts) = bind_st (stmt (sql_insert_tx (row_of_tx t))) (\<lambda>_. insert_all ts)"

definition add_transactions :: "transaction list \<Rightarrow> unit dbm" where
  "add_transactions transactions = in_transaction (insert_all transactions)"

text \<open>What a successful insert leaves: every row kept, and the first transaction of each new
  signature appended in order.\<close>

definition merge_rows :: "tx_row list \<Rightarrow> transaction list \<Rightarrow> tx_row list" where
  "merge_rows rows ts =
     fold (\<lambda>t rs. if tx_signature t \<in> r_signature ` set rs then rs else rs @ [row_of_tx t]) ts rows"

lemma merge_rows_simps [simp]:
  "merge_rows rows [] = rows"
  "merge_rows rows (t # ts) =
     merge_rows (if tx_signature t \<in> r_signature ` set rows then rows else rows @ [row_of_tx t]) ts"
  by (simp_all add: merge_rows_def)

lemma merge_rows_signatures:
  "r_signature ` set (merge_rows rows ts) = r_signature ` set rows \<union> tx_signature ` set ts"
  by (induction ts arbitrary: rows) auto

lemma merge_rows_prefix: "prefix rows (merge_rows rows ts)"
proof (induction ts arbitrary: rows)
  case Nil
  then show ?case by simp
next
  case (Cons t ts)
  have "prefix rows (if tx_signature t \<in> r_signature ` set rows then rows else rows @ [row_of_tx t])"
    by simp
  then show ?case unfolding merge_rows_simps using Cons by (rule prefix_order.trans)
qed

lemma merge_rows_known: "tx_signature ` set ts \<subseteq> r_signature ` set rows \<Longrightarrow> merge_rows rows ts = rows"
  by (induction ts) auto

lemma merge_rows_set: "set (merge_rows rows ts) \<subseteq> set rows \<union> row_of_tx ` set ts"
proof (induction ts arbitrary: rows)
  case (Cons t ts)
  show ?case
    using Cons [of "if tx_signature t \<in> r_signature ` set rows then rows else rows @ [row_of_tx t]"]
    by (auto split: if_splits)
qed simp

text \<open>A transaction that is the only one of a new signature gets its own row.\<close>

lemma merge_rows_new:
  assumes "t \<in> set ts" and "tx_signature t \<notin> r_signature ` set rows"
    and "\<forall>u \<in> set ts. tx_signature u = tx_signature t \<longrightarrow> u = t"
  shows "row_of_tx t \<in> set (merge_rows rows ts)"
proof -
  have "tx_signature t \<in> r_signature ` set (merge_rows rows ts)"
    using assms(1) by (simp add: merge_rows_signatures)
  then obtain row where row: "row \<in> set (merge_rows rows ts)" "r_signature row = tx_signature t" by auto
  moreover have "row \<notin> set rows" using row(2) assms(2) by (metis imageI)
  ultimately have "row \<in> row_of_tx ` set ts" using merge_rows_set [of rows ts] by blast
  then obtain u where "u \<in> set ts" "row = row_of_tx u" by blast
  with row assms(3) show ?thesis by auto
qed

lemma insert_stmt_Ok:
  assumes "stmt (sql_insert_tx (row_of_tx t)) d = (Ok u, d')"
  shows "db_tables d' = (db_tables d)\<lparr>t_txs := merge_rows (t_txs (db_tables d)) [t]\<rparr>"
  using assms by (elim stmt_cases) (auto simp: sql_insert_tx_def split: if_splits)

lemma insert_all_Ok:
  "insert_all ts d = (Ok u, d') \<Longrightarrow>
   db_tables d' = (db_tables d)\<lparr>t_txs := merge_rows (t_txs (db_tables d)) ts\<rparr>"
proof (induction ts arbitrary: d)
  case Nil
  then show ?case by (simp add: ret_st_def)
next
  case (Cons t ts)
  then obtain x d1 where 1: "stmt (sql_insert_tx (row_of_tx t)) d = (Ok x, d1)"
    and 2: "insert_all ts d1 = (Ok u, d')"
    by (auto simp: res_iff)
  from insert_stmt_Ok [OF 1] Cons.IH [OF 2] show ?case by simp
qed

lemma insert_all_tables_ok:
  "insert_all ts d = (r, d') \<Longrightarrow> tables_ok (db_tables d) \<Longrightarrow> tables_ok (db_tables d')"
proof (induction ts arbitrary: d)
  case Nil
  then show ?case by (simp add: ret_st_def)
next
  case (Cons t ts)
  obtain r1 d1 where 1: "stmt (sql_insert_tx (row_of_tx t)) d = (r1, d1)" by fastforce
  then have ok: "tables_ok (db_tables d1)"
    using Cons.prems(2) by (elim stmt_cases) (auto intro: tables_ok_insert)
  with Cons 1 show ?case by (cases r1) (auto simp: st_simps)
qed

lemma insert_all_no_Panic: "insert_all ts d \<noteq> (Panic, d')"
proof (induction ts arbitrary: d)
  case Nil
  then show ?case by (simp add: ret_st_def)
next
  case (Cons t ts)
  obtain r1 d1 where 1: "stmt (sql_insert_tx (row_of_tx t)) d = (r1, d1)" by fastforce
  then have "r1 \<noteq> Panic" by (elim stmt_cases) (auto simp: sql_insert_tx_def split: if_splits)
  with Cons 1 show ?case by (cases r1) (auto simp: st_simps)
qed

text \<open>Without faults the insert succeeds if every transaction satisfies its foreign keys.\<close>

lemma insert_all_succeeds:
  "db_faults d = [] \<Longrightarrow> \<forall>t \<in> set ts. fk_ok (db_tables d) (row_of_tx t) \<Longrightarrow>
   \<exists>d'. insert_all ts d = (Ok (), d') \<and> db_faults d' = []"
proof (induction ts arbitrary: d)
  case Nil
  then show ?case by (simp add: ret_st_def)
next
  case (Cons t ts)
  let ?d1 = "d\<lparr>db_tables := (db_tables d)\<lparr>t_txs := merge_rows (t_txs (db_tables d)) [t]\<rparr>\<rparr>"
  have "stmt (sql_insert_tx (row_of_tx t)) d = (Ok (), ?d1)"
    using Cons.prems by (simp add: stmt_no_faults sql_insert_tx_def)
  then show ?case using Cons.IH [of ?d1] Cons.prems by (simp add: st_simps)
qed

section \<open>Transactions of the database\<close>

lemma in_transaction_Ok:
  assumes "in_transaction m d = (Ok x, d')"
  obtains d1 d2 where "db_tables d1 = db_tables d" "m d1 = (Ok x, d2)"
    "db_tables d' = db_tables d2"
  using assms unfolding in_transaction_def
  by (auto split: prod.splits res.splits dest!: stmt_noop_tables)

lemma in_transaction_not_Ok:
  assumes "in_transaction m d = (r, d')" and "\<And>x. r \<noteq> Ok x"
  shows "db_tables d' = db_tables d"
  using assms unfolding in_transaction_def
  by (auto split: prod.splits res.splits dest!: stmt_noop_tables)

lemma in_transaction_no_faults:
  assumes "db_faults d = []" and "m d = (Ok x, d')" and "db_faults d' = []"
  shows "in_transaction m d = (Ok x, d')"
  using assms by (simp add: in_transaction_def stmt_no_faults)

lemma add_transactions_Ok:
  assumes "add_transactions ts d = (Ok u, d')"
  shows "db_tables d' = (db_tables d)\<lparr>t_txs := merge_rows (t_txs (db_tables d)) ts\<rparr>"
  using assms unfolding add_transactions_def
  by (elim in_transaction_Ok) (simp add: insert_all_Ok)

lemma add_transactions_tables_ok:
  assumes "add_transactions ts d = (r, d')" and "tables_ok (db_tables d)"
  shows "tables_ok (db_tables d')"
proof (cases "\<exists>x. r = Ok x")
  case True
  then obtain x where "in_transaction (insert_all ts) d = (Ok x, d')"
    using assms(1) by (auto simp: add_transactions_def)
  then obtain d1 d2 where "db_tables d1 = db_tables d" "insert_all ts d1 = (Ok x, d2)"
    "db_tables d' = db_tables d2"
    by (rule in_transaction_Ok)
  with assms(2) show ?thesis using insert_all_tables_ok [of ts d1 "Ok x" d2] by simp
next
  case False
  have "db_tables d' = db_tables d"
    by (rule in_transaction_not_Ok [OF assms(1) [unfolded add_transactions_def]]) (use False in blast)
  with assms(2) show ?thesis by simp
qed

lemma add_transactions_no_Panic: "add_transactions ts d \<noteq> (Panic, d')"
proof
  assume "add_transactions ts d = (Panic, d')"
  then show False unfolding add_transactions_def in_transaction_def
    using insert_all_no_Panic [of ts]
    by (auto split: prod.splits res.splits dest!: stmt_noop_tables)
qed

lemma add_transactions_succeeds:
  assumes "db_faults d = []" and "\<forall>t \<in> set ts. fk_ok (db_tables d) (row_of_tx t)"
  shows "\<exists>d'. add_transactions ts d = (Ok (), d') \<and> db_faults d' = []"
proof -
  obtain d' where i: "insert_all ts d = (Ok (), d')" and f: "db_faults d' = []"
    using insert_all_succeeds [OF assms] by blast
  from in_transaction_no_faults [where m = "insert_all ts", OF assms(1) i f] f show ?thesis
    by (auto simp: add_transactions_def)
qed

section \<open>\<open>get_transactions\<close> and \<open>count_transactions\<close>\<close>

type_synonym page = "transaction list \<times> i64"
type_synonym 'c tx_moka = "('c, cache_key, page) moka"

text \<open>
  What surrounds a query. The lookup, the count, the selection and the insertion are four awaits
  outside a database transaction: \<open>qe_before\<close> is what other tasks do to the tables before the count,
  \<open>qe_between\<close> what they do between the count and the selection; \<open>qe_lookup\<close> and \<open>qe_insert\<close> are the
  readings of the cache's monotonic clock at the lookup and at the insertion, \<open>qe_clock\<close> the wall
  clock. (Other queries do not come between: the handler keeps the cache locked.)
\<close>

record query_env =
  qe_lookup :: nat
  qe_insert :: nat
  qe_clock :: "u64 option"
  qe_before :: "tables \<Rightarrow> tables"
  qe_between :: "tables \<Rightarrow> tables"

definition quiet :: "query_env \<Rightarrow> bool" where
  "quiet E \<longleftrightarrow> qe_before E = id \<and> qe_between E = id"

definition quiet_env :: "nat \<Rightarrow> u64 option \<Rightarrow> query_env" where
  "quiet_env mclock clock =
     \<lparr>qe_lookup = mclock, qe_insert = mclock, qe_clock = clock, qe_before = id, qe_between = id\<rparr>"

definition others :: "(tables \<Rightarrow> tables) \<Rightarrow> db \<Rightarrow> db" where
  "others f d = d\<lparr>db_tables := f (db_tables d)\<rparr>"

definition get_transactions ::
  "'c tx_moka \<Rightarrow> sorter \<Rightarrow> query_env \<Rightarrow> string \<Rightarrow> i64 \<Rightarrow> i64 \<Rightarrow> i64 \<Rightarrow> i64 \<Rightarrow>
   (db \<times> 'c tcm, sqlx_error, page) sm" where
  "get_transactions M ob E address start_time end_time offset limit s =
     (let key = transaction_query address start_time end_time offset limit;
          (hit, tc1) = tcm_get M (qe_lookup E) key (snd s);
          d0 = others (qe_before E) (fst s)
      in case hit of
        Some (txs, total_count) \<Rightarrow> (Ok (txs, total_count), (d0, tc1))
      | None \<Rightarrow>
          (case stmt (\<lambda>t. (Ok (int (sql_count_txs address start_time end_time t)), t)) d0 of
             (Err e, d1) \<Rightarrow> (Err e, (d1, tc1))
           | (Panic, d1) \<Rightarrow> (Panic, (d1, tc1))
           | (Ok total_count, d1) \<Rightarrow>
               (case stmt (\<lambda>t. (Ok (sql_select_txs ob address start_time end_time limit offset t), t))
                      (others (qe_between E) d1) of
                  (Err e, d2) \<Rightarrow> (Err e, (d2, tc1))
                | (Panic, d2) \<Rightarrow> (Panic, (d2, tc1))
                | (Ok rows, d2) \<Rightarrow>
                    (let txs = map tx_of_row rows;
                         ttl = get_ttl_for_time_range (qe_clock E) start_time end_time;
                         tc2 = tcm_insert M (qe_insert E) key (txs, total_count) (Some ttl) tc1
                     in (Ok (txs, total_count), (d2, tc2))))))"

definition count_transactions :: "string \<Rightarrow> i64 \<Rightarrow> i64 \<Rightarrow> i64 dbm" where
  "count_transactions address start_time end_time =
     stmt (\<lambda>t. (Ok (int (sql_count_txs address start_time end_time t)), t))"

text \<open>The answer to a query over given tables, with no cache in between; and the page a query reads that
  counts over some tables and selects over others.\<close>

definition answer :: "sorter \<Rightarrow> tables \<Rightarrow> string \<Rightarrow> i64 \<Rightarrow> i64 \<Rightarrow> i64 \<Rightarrow> i64 \<Rightarrow> page" where
  "answer ob t address start_time end_time offset limit =
     (map tx_of_row (sql_select_txs ob address start_time end_time limit offset t),
      int (sql_count_txs address start_time end_time t))"

definition read_page ::
  "sorter \<Rightarrow> tables \<Rightarrow> tables \<Rightarrow> string \<Rightarrow> i64 \<Rightarrow> i64 \<Rightarrow> i64 \<Rightarrow> i64 \<Rightarrow> page" where
  "read_page ob counted selected address start_time end_time offset limit =
     (fst (answer ob selected address start_time end_time offset limit),
      snd (answer ob counted address start_time end_time offset limit))"

lemma read_page_same [simp]: "read_page ob t t a st en off l = answer ob t a st en off l"
  by (simp add: read_page_def)

fun key_page :: "sorter \<Rightarrow> tables \<times> tables \<Rightarrow> cache_key \<Rightarrow> page option" where
  "key_page ob (t, u) (TransactionQuery a st en off l) = Some (read_page ob t u a st en off l)"
| "key_page ob (t, u) (AddressTracked a) = None"

text \<open>Every cached page was read over one of the pairs of tables in \<open>R\<close>.\<close>

definition cached_from ::
  "sorter \<Rightarrow> (tables \<times> tables) set \<Rightarrow> (cache_key \<Rightarrow> page option) \<Rightarrow> bool" where
  "cached_from ob R view \<longleftrightarrow> every_entry (\<lambda>k v. \<exists>p \<in> R. key_page ob p k = Some v) view"

lemma cached_from_mono: "cached_from ob R view \<Longrightarrow> R \<subseteq> S \<Longrightarrow> cached_from ob S view"
  unfolding cached_from_def by (erule every_entry_mono) blast

lemma cached_from_empty [simp]: "cached_from ob R Map.empty"
  by (simp add: cached_from_def every_entry_def)

lemma others_sel [simp]:
  "db_tables (others f d) = f (db_tables d)" "db_faults (others f d) = db_faults d" "others id d = d"
  by (simp_all add: others_def)

lemma quiet_envD: "quiet E \<Longrightarrow> qe_before E = id \<and> qe_between E = id"
  by (simp add: quiet_def)

lemma quiet_env_sel [simp]:
  "quiet (quiet_env n c)" "qe_lookup (quiet_env n c) = n" "qe_insert (quiet_env n c) = n"
  "qe_clock (quiet_env n c) = c" "qe_before (quiet_env n c) = id" "qe_between (quiet_env n c) = id"
  by (simp_all add: quiet_env_def quiet_def)

lemma read_stmt_Ok:
  "stmt (\<lambda>t. (Ok (f t), t)) d = (Ok x, d') \<Longrightarrow> x = f (db_tables d) \<and> db_tables d' = db_tables d"
  by (elim stmt_cases) auto

lemma read_stmt_tables:
  "stmt (\<lambda>t. (Ok (f t), t)) d = (r, d') \<Longrightarrow> db_tables d' = db_tables d \<and> r \<noteq> Panic"
  by (elim stmt_cases) auto

text \<open>What a statement that only reads does with the faults to come.\<close>

lemma read_stmt_faults:
  "stmt (\<lambda>t. (Ok (f t), t)) d =
     (case db_faults d of Some e # fs \<Rightarrow> Err e | _ \<Rightarrow> Ok (f (db_tables d)),
      d\<lparr>db_faults := tl (db_faults d)\<rparr>)"
  by (simp add: stmt_def split: list.split option.split)

text \<open>The two ways a query returns a page.\<close>

lemma get_transactions_Ok:
  assumes "get_transactions M ob E a st en off l (d, tc) = (Ok v, (d', tc'))"
  obtains (hit) "tcm_get M (qe_lookup E) (TransactionQuery a st en off l) tc = (Some v, tc')"
      "d' = others (qe_before E) d"
  | (miss) tc1 ttl where "tcm_get M (qe_lookup E) (TransactionQuery a st en off l) tc = (None, tc1)"
      "v = read_page ob (qe_before E (db_tables d)) (db_tables d') a st en off l"
      "db_tables d' = qe_between E (qe_before E (db_tables d))"
      "tc' = tcm_insert M (qe_insert E) (TransactionQuery a st en off l) v (Some ttl) tc1"
proof -
  let ?k = "TransactionQuery a st en off l" and ?d0 = "others (qe_before E) d"
  let ?count = "stmt (\<lambda>t. (Ok (int (sql_count_txs a st en t)), t))"
  let ?select = "stmt (\<lambda>t. (Ok (sql_select_txs ob a st en l off t), t))"
  obtain r tc1 where get: "tcm_get M (qe_lookup E) ?k tc = (r, tc1)" by fastforce
  show ?thesis
  proof (cases r)
    case (Some p)
    with get assms show ?thesis
      by (intro hit) (auto simp: get_transactions_def transaction_query_def)
  next
    case None
    with get assms obtain total_count d1 rows where c: "?count ?d0 = (Ok total_count, d1)"
      and s: "?select (others (qe_between E) d1) = (Ok rows, d')"
      and v: "v = (map tx_of_row rows, total_count)"
      and tc': "tc' = tcm_insert M (qe_insert E) ?k v (Some (get_ttl_for_time_range (qe_clock E) st en)) tc1"
      by (auto simp: get_transactions_def transaction_query_def Let_def
          split: prod.splits res.splits)
    from read_stmt_Ok [OF c] read_stmt_Ok [OF s] v None get tc' show ?thesis
      by (intro miss) (auto simp: answer_def read_page_def)
  qed
qed

text \<open>A query changes no table itself: it leaves what the others made of them.\<close>

lemma get_transactions_tables:
  assumes "get_transactions M ob E a st en off l (d, tc) = (r, (d', tc'))"
  shows "db_tables d' \<in> {qe_before E (db_tables d), qe_between E (qe_before E (db_tables d))} \<and> r \<noteq> Panic"
  using assms
  by (auto simp: get_transactions_def Let_def split: prod.splits res.splits option.splits
      dest!: read_stmt_tables)

text \<open>The outcome by the lookup and the faults of the two statements.\<close>

lemma get_transactions_outcome:
  "fst (get_transactions M ob E a st en off l (d, tc)) =
     (case fst (tcm_get M (qe_lookup E) (TransactionQuery a st en off l) tc) of
        Some v \<Rightarrow> Ok v
      | None \<Rightarrow>
          (case db_faults d of
             Some e # fs \<Rightarrow> Err e
           | _ \<Rightarrow>
               (case tl (db_faults d) of
                  Some e # fs \<Rightarrow> Err e
                | _ \<Rightarrow> Ok (read_page ob (qe_before E (db_tables d))
                         (qe_between E (qe_before E (db_tables d))) a st en off l))))"
  by (simp add: get_transactions_def transaction_query_def Let_def read_stmt_faults answer_def
      read_page_def split: prod.split option.split list.split)

section \<open>Properties of the inserts\<close>

text \<open>C6. \<open>add_transactions\<close> is all or nothing: it either succeeds and the table holds the old rows
  followed by the first transaction of every new signature, or it fails (a foreign key violation or
  any statement failing, the commit included) and the tables are what they were.\<close>

theorem add_transactions_atomic:
  assumes "add_transactions transactions d = (r, d')"
  shows "(r = Ok () \<and> db_tables d' =
            (db_tables d)\<lparr>t_txs := merge_rows (t_txs (db_tables d)) transactions\<rparr>) \<or>
         (\<exists>e. r = Err e \<and> db_tables d' = db_tables d)"
proof (cases r)
  case (Ok u)
  then show ?thesis using add_transactions_Ok [of transactions d u d'] assms by simp
next
  case (Err e)
  have "db_tables d' = db_tables d"
    by (rule in_transaction_not_Ok [OF assms [unfolded add_transactions_def]]) (simp add: Err)
  with Err show ?thesis by simp
next
  case Panic
  then show ?thesis using add_transactions_no_Panic assms by blast
qed

definition sample_tx :: transaction where
  "sample_tx =
     \<lparr>tx_signature = ''s2'', tx_block_time = 200, tx_slot = 8, tx_source = ones,
      tx_destination = None, tx_amount = None, tx_program_id = None, tx_success = True\<rparr>"

definition foreign_tx :: transaction where
  "foreign_tx = sample_tx\<lparr>tx_signature := ''s3'', tx_destination := Some ''unknown''\<rparr>"

text \<open>At a batch whose second transaction violates its foreign key, the first is rolled back too.\<close>

theorem add_transactions_atomic_witness:
  "db_tables (snd (add_transactions [sample_tx, foreign_tx] sample_db)) = db_tables sample_db \<and>
   fst (add_transactions [sample_tx, foreign_tx] sample_db) = Err ForeignKeyViolation"
proof -
  have r: "fst (add_transactions [sample_tx, foreign_tx] sample_db) = Err ForeignKeyViolation"
    by code_simp
  then show ?thesis
    using add_transactions_atomic [of "[sample_tx, foreign_tx]" sample_db] by (metis prod.collapse res.distinct(1))
qed

text \<open>Storing a batch again is harmless: after a success, a second \<open>add_transactions\<close> of any part
  of the batch, if it succeeds, leaves the table unchanged.\<close>

theorem add_transactions_idempotent:
  assumes "add_transactions transactions d = (Ok u, d1)"
    and "set again \<subseteq> set transactions"
    and "add_transactions again d1 = (Ok u', d2)"
  shows "db_tables d2 = db_tables d1"
proof -
  have "tx_signature ` set again \<subseteq> r_signature ` set (t_txs (db_tables d1))"
    using assms(2) by (auto simp: add_transactions_Ok [OF assms(1)] merge_rows_signatures)
  then show ?thesis by (simp add: add_transactions_Ok [OF assms(3)] merge_rows_known)
qed

theorem add_transactions_idempotent_witness:
  "\<exists>d1 d2. add_transactions [sample_tx] sample_db = (Ok (), d1) \<and>
     add_transactions [sample_tx] d1 = (Ok (), d2) \<and> db_tables d2 = db_tables d1"
proof -
  have fk: "fk_ok (db_tables sample_db) (row_of_tx sample_tx)"
    by (simp add: fk_ok_def sample_tx_def sample_db_def row_of_tx_def has_address_def)
  obtain d1 where d1: "add_transactions [sample_tx] sample_db = (Ok (), d1)" "db_faults d1 = []"
    using add_transactions_succeeds [of sample_db "[sample_tx]"] fk by (auto simp: sample_db_def)
  have "fk_ok (db_tables d1) (row_of_tx sample_tx)"
    using fk by (simp add: add_transactions_Ok [OF d1(1)])
  then obtain d2 where d2: "add_transactions [sample_tx] d1 = (Ok (), d2)"
    using add_transactions_succeeds [of d1 "[sample_tx]"] d1(2) by auto
  have "db_tables d2 = db_tables d1"
    by (rule add_transactions_idempotent [OF d1(1) _ d2]) simp
  with d1 d2 show ?thesis by blast
qed

section \<open>The query through a cache and a sorter\<close>

text \<open>The pages of a sorted list, with the keys that are on them.\<close>

lemma pages_concat:
  "concat (map (\<lambda>i. take l (drop (i * l) xs)) [0..<k]) = take (k * l) xs"
proof (induction k)
  case (Suc k)
  have "take (Suc k * l) xs = take (k * l + l) xs" by (simp add: add.commute)
  then show ?case using Suc by (simp only: take_add) simp
qed simp

lemma filter_const_length: "length (filter (\<lambda>x. f x = c) xs) = count_list (map f xs) c"
  by (induction xs) auto

lemma sorted_split:
  assumes "sorted (ts :: 'k::linorder list)"
  shows "ts = filter (\<lambda>x. x < c) ts @ replicate (count_list ts c) c @ filter (\<lambda>x. c < x) ts"
  using assms
proof (induction ts)
  case (Cons x ts)
  then have IH: "ts = filter (\<lambda>x. x < c) ts @ replicate (count_list ts c) c @ filter (\<lambda>x. c < x) ts"
    and ge: "\<forall>y \<in> set ts. x \<le> y" by simp_all
  consider "x < c" | "x = c" | "c < x" by fastforce
  then show ?case
  proof cases
    case 1
    then have "filter (\<lambda>x. x < c) (x # ts) = x # filter (\<lambda>x. x < c) ts"
      and "count_list (x # ts) c = count_list ts c"
      and "filter (\<lambda>x. c < x) (x # ts) = filter (\<lambda>x. c < x) ts" by auto
    then show ?thesis by (simp only: append_Cons list.inject simp_thms) (rule IH)
  next
    case 2
    then have less: "filter (\<lambda>x. x < c) ts = []" using ge by (auto simp: filter_empty_conv)
    then have "filter (\<lambda>x. x < c) (x # ts) = []"
      and "count_list (x # ts) c = Suc (count_list ts c)"
      and "filter (\<lambda>x. c < x) (x # ts) = filter (\<lambda>x. c < x) ts" using 2 by auto
    moreover have "ts = replicate (count_list ts c) c @ filter (\<lambda>x. c < x) ts" using IH less by simp
    ultimately show ?thesis using 2 by simp
  next
    case 3
    then have gt: "\<forall>y \<in> set (x # ts). c < y" using ge by (auto intro: less_le_trans)
    then have "filter (\<lambda>x. x < c) (x # ts) = []" and "count_list (x # ts) c = 0"
      and "filter (\<lambda>x. c < x) (x # ts) = x # ts"
      by (auto simp: filter_empty_conv count_list_0_iff)
    then show ?thesis by simp
  qed
qed simp

text \<open>A page that holds all places of a key holds all its entries, and no other page holds any.\<close>

lemma page_of_key:
  fixes f :: "'a \<Rightarrow> 'k::linorder"
  assumes "sorted (map f ys)"
    and "j * l \<le> length (filter (\<lambda>y. f y < c) ys)" and "length (filter (\<lambda>y. f y \<le> c) ys) \<le> Suc j * l"
  shows "filter (\<lambda>y. f y = c) (take l (drop (j * l) ys)) = filter (\<lambda>y. f y = c) ys"
proof -
  let ?ts = "map f ys" and ?E = "\<lambda>y. f y = c"
  let ?A = "filter (\<lambda>x. x < c) ?ts" and ?B = "replicate (count_list ?ts c) c"
    and ?C = "filter (\<lambda>x. c < x) ?ts"
  have split: "?ts = ?A @ ?B @ ?C" by (rule sorted_split [OF assms(1)])
  have a: "j * l \<le> length ?A" using assms(2) by (simp add: filter_map o_def)
  have "filter (\<lambda>x. x \<le> c) ?A = ?A" and "filter (\<lambda>x. x \<le> c) ?B = ?B" and "filter (\<lambda>x. x \<le> c) ?C = []"
    by (rule filter_True; auto)+ (auto simp: filter_empty_conv)
  then have "filter (\<lambda>x. x \<le> c) (?A @ ?B @ ?C) = ?A @ ?B" by (simp only: filter_append append_Nil2)
  then have "filter (\<lambda>x. x \<le> c) ?ts = ?A @ ?B" by (simp only: split [symmetric])
  moreover have "length (filter (\<lambda>y. f y \<le> c) ys) = length (filter (\<lambda>x. x \<le> c) ?ts)"
    by (simp add: filter_map o_def)
  ultimately have "length (filter (\<lambda>y. f y \<le> c) ys) = length (?A @ ?B)" by (simp only:)
  then have ab: "length (?A @ ?B) \<le> j * l + l" using assms(3) by simp
  have none: "filter ?E xs = []" if "\<forall>x \<in> set (map f xs). x \<noteq> c" for xs
    using that by (auto simp: filter_empty_conv)
  have "take (j * l) ?ts = take (j * l) ?A" using arg_cong [OF split, of "take (j * l)"] a by simp
  then have before: "filter ?E (take (j * l) ys) = []"
    by (intro none) (auto simp: take_map dest!: in_set_takeD)
  have "drop (j * l + l) ?ts = drop (j * l + l) (?A @ ?B) @ drop (j * l + l - length (?A @ ?B)) ?C"
    using arg_cong [OF split, of "drop (j * l + l)"] by (simp only: append_assoc [symmetric] drop_append)
  with ab have "drop (j * l + l) ?ts = drop (j * l + l - length (?A @ ?B)) ?C" by simp
  then have after: "filter ?E (drop (j * l + l) ys) = []"
    by (intro none) (auto simp: drop_map dest!: in_set_dropD)
  have "ys = take (j * l) ys @ take l (drop (j * l) ys) @ drop (j * l + l) ys"
    by (metis add.commute append_take_drop_id drop_drop)
  then have "filter ?E ys = filter ?E (take (j * l) ys) @ filter ?E (take l (drop (j * l) ys)) @
      filter ?E (drop (j * l + l) ys)"
    by (metis filter_append)
  with before after show ?thesis by simp
qed

locale tx_sorter = order_by ob for ob :: sorter
begin

lemma page_contents:
  assumes "answer ob t a st en off l = (txs, n)" and "0 \<le> off" and "0 \<le> l"
  shows "sorted (map tx_block_time txs)"
    and "set txs \<subseteq> tx_of_row ` {r \<in> set (t_txs t). in_query a st en r}"
    and "n = int (card {i. i < length (t_txs t) \<and> in_query a st en (t_txs t ! i)})"
    and "int (length txs) = min l (max 0 (n - off))"
proof -
  let ?rows = "filter (in_query a st en) (t_txs t)"
  have txs: "txs = map tx_of_row (sql_limit_offset l off (ob l off r_block_time ?rows))"
    and n: "n = int (length ?rows)"
    using assms(1) by (auto simp: answer_def sql_select_txs_def sql_count_txs_def)
  have "map tx_block_time txs = map r_block_time (sql_limit_offset l off (ob l off r_block_time ?rows))"
    by (simp add: txs tx_of_row_def)
  then show "sorted (map tx_block_time txs)" using ob_page_sorted by simp
  show "set txs \<subseteq> tx_of_row ` {r \<in> set (t_txs t). in_query a st en r}"
    using ob_page_set [of l off l off r_block_time ?rows] by (auto simp: txs)
  show "n = int (card {i. i < length (t_txs t) \<and> in_query a st en (t_txs t ! i)})"
    by (simp add: n length_filter_conv_card)
  show "int (length txs) = min l (max 0 (n - off))"
    using assms(2,3) by (auto simp: txs n sql_limit_offset_def Let_def ob_length)
qed

text \<open>Page \<open>i\<close> is cut out of the list in the order of that page's own query.\<close>

definition sorted_for :: "tables \<Rightarrow> string \<Rightarrow> i64 \<Rightarrow> i64 \<Rightarrow> nat \<Rightarrow> nat \<Rightarrow> transaction list" where
  "sorted_for t a st en l i =
     map tx_of_row (ob (int l) (int (i * l)) r_block_time (filter (in_query a st en) (t_txs t)))"

lemma answer_page:
  "fst (answer ob t a st en (int (i * l)) (int l)) = take l (drop (i * l) (sorted_for t a st en l i))"
  by (simp add: answer_def sql_select_txs_def sql_limit_offset_def sorted_for_def Let_def take_map
      drop_map del: of_nat_mult)

lemma sorted_for_times:
  "map tx_block_time (sorted_for t a st en l i) =
   sort (map tx_block_time (map tx_of_row (filter (in_query a st en) (t_txs t))))"
  by (simp add: sorted_for_def tx_of_row_def o_def ob_keys)

lemma sorted_for_mset:
  "mset (sorted_for t a st en l i) = mset (map tx_of_row (filter (in_query a st en) (t_txs t)))"
  by (simp add: sorted_for_def ob_mset)

lemma pages_times:
  assumes "sql_count_txs a st en t \<le> k * l"
  shows "map tx_block_time (concat (map (\<lambda>i. fst (answer ob t a st en (int (i * l)) (int l))) [0..<k])) =
    sort (map tx_block_time (map tx_of_row (filter (in_query a st en) (t_txs t))))"
proof -
  let ?ts = "sort (map tx_block_time (map tx_of_row (filter (in_query a st en) (t_txs t))))"
  have "map tx_block_time (take l (drop (i * l) (sorted_for t a st en l i))) = take l (drop (i * l) ?ts)" for i
    by (simp only: take_map [symmetric] drop_map [symmetric] sorted_for_times)
  then have "map tx_block_time (concat (map (\<lambda>i. take l (drop (i * l) (sorted_for t a st en l i))) [0..<k])) =
      concat (map (\<lambda>i. take l (drop (i * l) ?ts)) [0..<k])"
    by (simp only: map_concat map_map o_def)
  also have "\<dots> = ?ts"
    unfolding pages_concat using assms by (simp add: sql_count_txs_def)
  finally show ?thesis by (simp only: answer_page)
qed

lemma pages_group:
  assumes "sql_count_txs a st en t \<le> k * l"
    and rows: "rows = map tx_of_row (filter (in_query a st en) (t_txs t))"
    and pages: "pages = concat (map (\<lambda>i. fst (answer ob t a st en (int (i * l)) (int l))) [0..<k])"
    and "j * l \<le> length (filter (\<lambda>x. tx_block_time x < c) rows)"
    and "length (filter (\<lambda>x. tx_block_time x \<le> c) rows) \<le> Suc j * l"
  shows "mset (filter (\<lambda>x. tx_block_time x = c) pages) = mset (filter (\<lambda>x. tx_block_time x = c) rows)"
proof -
  let ?E = "\<lambda>x. tx_block_time x = c" and ?ys = "sorted_for t a st en l j"
  let ?pg = "\<lambda>i. fst (answer ob t a st en (int (i * l)) (int l))"
  have times: "map tx_block_time pages = sort (map tx_block_time rows)"
    unfolding pages rows by (rule pages_times [OF assms(1)])
  have ys: "mset ?ys = mset rows" by (simp add: rows sorted_for_mset)
  have len: "length (filter P ?ys) = length (filter P rows)" for P
    using ys by (metis mset_filter size_mset)
  have "filter ?E (?pg j) = filter ?E ?ys"
    unfolding answer_page
    by (rule page_of_key) (use assms(4,5) in \<open>simp_all add: sorted_for_times len\<close>)
  then have here: "mset (filter ?E (?pg j)) = mset (filter ?E rows)" using ys by (simp add: mset_filter)
  have all: "length (filter ?E pages) = length (filter ?E rows)"
    unfolding filter_const_length times
    by (simp flip: count_mset)
  show ?thesis
  proof (cases "j < k")
    case False
    have "length (filter ?E rows) \<le> length rows - length (filter (\<lambda>x. tx_block_time x < c) rows)"
    proof -
      have "length (filter ?E rows) + length (filter (\<lambda>x. tx_block_time x < c) rows) \<le> length rows"
        by (induction rows) auto
      then show ?thesis by simp
    qed
    moreover have kj: "k * l \<le> j * l" using False by (intro mult_le_mono1) simp
    have "length rows \<le> k * l" using assms(1) by (simp add: rows sql_count_txs_def)
    then have "length rows \<le> j * l" using kj by (rule order_trans)
    ultimately have "length (filter ?E rows) = 0" using assms(4) by simp
    with all show ?thesis by simp
  next
    case True
    have "[0..<k] = [0..<j] @ j # [Suc j..<k]"
      using True by (metis le_add1 less_imp_add_positive upt_add_eq_append upt_conv_Cons zero_le)
    then have "pages = concat (map ?pg [0..<j]) @ ?pg j @ concat (map ?pg [Suc j..<k])"
      by (simp only: pages map_append list.map concat_append concat.simps)
    then have "filter ?E pages = filter ?E (concat (map ?pg [0..<j])) @ filter ?E (?pg j) @
        filter ?E (concat (map ?pg [Suc j..<k]))"
      by (simp only: filter_append)
    moreover from this have "filter ?E (concat (map ?pg [0..<j])) = []"
      "filter ?E (concat (map ?pg [Suc j..<k])) = []"
      using all arg_cong [OF here, of size] by (simp_all only: length_append size_mset) auto
    ultimately show ?thesis using here by simp
  qed
qed

end

interpretation rowid_sorter: tx_sorter rowid_sort
  by unfold_locales

locale query_engine = moka_cache M contents closures + tx_sorter ob
  for M :: "('c, cache_key, page) moka" and contents and closures and ob :: sorter
begin

text \<open>A page comes from the cache, or was read over the tables the others left before the count and
  before the selection.\<close>

lemma query_answers:
  assumes cached: "cached_from ob R (contents (tc_cache tc))"
    and q: "get_transactions M ob E a st en off l (d, tc) = (Ok v, (d', tc'))"
  shows "\<exists>(t, u) \<in> insert (qe_before E (db_tables d), db_tables d') R. v = read_page ob t u a st en off l"
  using q
proof (cases rule: get_transactions_Ok)
  case hit
  have "\<exists>p \<in> R. key_page ob p (TransactionQuery a st en off l) = Some v"
    by (rule tx_results.rc_hit_entry [OF cached [unfolded cached_from_def] hit(1)])
  then show ?thesis by fastforce
next
  case miss
  then show ?thesis by simp
qed

lemma query_cached:
  assumes cached: "cached_from ob R (contents (tc_cache tc))"
    and q: "get_transactions M ob E a st en off l (d, tc) = (r, (d', tc'))"
  shows "cached_from ob (insert (qe_before E (db_tables d), db_tables d') R) (contents (tc_cache tc'))"
proof -
  let ?k = "TransactionQuery a st en off l" and ?R = "insert (qe_before E (db_tables d), db_tables d') R"
  obtain h tc1 where get: "tcm_get M (qe_lookup E) ?k tc = (h, tc1)" by fastforce
  have "cached_from ob R (contents (tc_cache tc1))"
    unfolding cached_from_def by (rule tx_results.rc_get_entries [OF cached [unfolded cached_from_def] get])
  then have tc1: "cached_from ob ?R (contents (tc_cache tc1))" by (rule cached_from_mono) auto
  show ?thesis
  proof (cases "\<exists>v. r = Ok v")
    case True
    then obtain v where "get_transactions M ob E a st en off l (d, tc) = (Ok v, (d', tc'))"
      using q by blast
    then show ?thesis
    proof (cases rule: get_transactions_Ok)
      case hit
      with get tc1 show ?thesis by simp
    next
      case (miss tc2 ttl)
      have "\<exists>p \<in> ?R. key_page ob p ?k = Some v" by (simp add: miss(2))
      from tx_results.rc_insert_entries [OF tc1 [unfolded cached_from_def] this] show ?thesis
        using miss(1) get unfolding cached_from_def miss(4) by simp
    qed
  next
    case False
    with get q have "tc' = tc1"
      by (auto simp: get_transactions_def transaction_query_def Let_def
          split: prod.splits res.splits option.splits)
    with tc1 show ?thesis by simp
  qed
qed

lemma hit_read:
  assumes "cached_from ob R (contents (tc_cache tc))"
    and "fst (tcm_get M now (TransactionQuery a st en off l) tc) = Some v"
  shows "\<exists>(t, u) \<in> R. v = read_page ob t u a st en off l"
proof -
  have "contents (tc_cache tc) (TransactionQuery a st en off l) = Some v"
    by (rule tcm_get_contents [OF assms(2)])
  then have "\<exists>p \<in> R. key_page ob p (TransactionQuery a st en off l) = Some v"
    using assms(1) unfolding cached_from_def every_entry_def by blast
  then show ?thesis by fastforce
qed

text \<open>Without faults a query returns a page, and alone it leaves the tables.\<close>

lemma query_total:
  assumes "db_faults d = []"
  shows "\<exists>v d' tc'. get_transactions M ob E a st en off l (d, tc) = (Ok v, (d', tc'))"
proof -
  obtain r d' tc' where q: "get_transactions M ob E a st en off l (d, tc) = (r, (d', tc'))"
    by (metis surj_pair)
  then have "r = fst (get_transactions M ob E a st en off l (d, tc))" by simp
  with q assms show ?thesis unfolding get_transactions_outcome by (auto split: option.splits)
qed

lemma query_quiet:
  assumes "quiet E" and "get_transactions M ob E a st en off l (d, tc) = (r, (d', tc'))"
  shows "db_tables d' = db_tables d"
  using get_transactions_tables [OF assms(2)] quiet_envD [OF assms(1)] by simp

end

interpretation lru_query: query_engine lru_moka lru_contents lru_closures rowid_sort
  by unfold_locales

text \<open>The first query on the reference cache is a miss, and its page stays for the time to live.\<close>

lemma lru_first_query:
  assumes "get_transactions lru_moka ob E a st en off l (d, lru_tcm cap ttl) = (Ok v, (d', tc'))"
    and "0 < cap" and "now < qe_insert E + ttl"
  shows "fst (tcm_get lru_moka now (TransactionQuery a st en off l) tc') = Some v"
    and "v = read_page ob (qe_before E (db_tables d)) (qe_between E (qe_before E (db_tables d))) a st en off l"
  using assms(1)
proof (atomize (full), cases rule: get_transactions_Ok)
  case (miss tc1 x)
  then have "tc1 = lru_tcm cap ttl"
    by (simp add: tcm_get_def lru_moka_def lru_get_def lru_find_def lru_tcm_def)
  with miss assms(2,3)
  show "fst (tcm_get lru_moka now (TransactionQuery a st en off l) tc') = Some v \<and>
    v = read_page ob (qe_before E (db_tables d)) (qe_between E (qe_before E (db_tables d))) a st en off l"
    by (simp add: tcm_get_def tcm_insert_def lru_moka_def lru_get_def lru_insert_def lru_find_def
        lru_tcm_def take_Cons' split: prod.split)
qed (simp_all add: tcm_get_def lru_moka_def lru_get_def lru_find_def lru_tcm_def)

section \<open>Runs of queries and writes\<close>

text \<open>
  Queries and arbitrary writes, before, between and during the queries, from an empty cache: \<open>H\<close> are
  the states the tables went through, the last one the current state.
\<close>

inductive service_run ::
  "'c tx_moka \<Rightarrow> sorter \<Rightarrow> tables list \<Rightarrow> db \<Rightarrow> 'c tcm \<Rightarrow> bool" for M ob where
  run_start: "tcm_new M capacity ttl = (Ok tc :: (unit, 'c tcm) res) \<Longrightarrow>
    service_run M ob [db_tables d] d tc"
| run_query: "service_run M ob H d tc \<Longrightarrow>
    get_transactions M ob E a st en off l (d, tc) = (r, (d', tc')) \<Longrightarrow>
    service_run M ob (H @ [qe_before E (db_tables d), db_tables d']) d' tc'"
| run_write: "service_run M ob H d tc \<Longrightarrow> service_run M ob (H @ [db_tables d']) d' tc"

text \<open>The pairs of a state and the next one.\<close>

definition adjacent :: "'a list \<Rightarrow> ('a \<times> 'a) set" where
  "adjacent H = {(H ! i, H ! Suc i) |i. Suc i < length H}"

lemma adjacent_append: "adjacent H \<subseteq> adjacent (H @ X)"
  by (force simp: adjacent_def nth_append)

lemma adjacent_last: "(x, y) \<in> adjacent (H @ [x, y])"
  by (auto simp: adjacent_def nth_append intro!: exI [of _ "length H"])

lemma adjacent_insert: "insert (x, y) (adjacent H) \<subseteq> adjacent (H @ [x, y])"
  by (intro insert_subsetI adjacent_append adjacent_last)

lemma service_run_cached:
  assumes "query_engine M contents closures ob"
  shows "service_run M ob H d tc \<Longrightarrow>
    cached_from ob (adjacent H) (contents (tc_cache tc)) \<and> H \<noteq> [] \<and> last H = db_tables d"
proof (induction rule: service_run.induct)
  case (run_start capacity ttl tc d)
  have "moka_cache M contents closures" using assms by (simp add: query_engine_def)
  from moka_cache.tcm_new_empty [OF this run_start] show ?case by simp
next
  case (run_query H d tc E a st en off l r d' tc')
  let ?H = "H @ [qe_before E (db_tables d), db_tables d']"
  have "cached_from ob (insert (qe_before E (db_tables d), db_tables d') (adjacent H))
      (contents (tc_cache tc'))"
    by (rule query_engine.query_cached [OF assms _ run_query(2)]) (use run_query.IH in blast)
  then have "cached_from ob (adjacent ?H) (contents (tc_cache tc'))"
    by (rule cached_from_mono [OF _ adjacent_insert])
  then show ?case by simp
next
  case (run_write H d tc d')
  then show ?case using cached_from_mono [OF _ adjacent_append] by auto
qed

section \<open>Properties of the query\<close>

text \<open>C12. Whatever is written between and during the queries, and whatever the cache evicts, a page that
  \<open>get_transactions\<close> returns was read from the tables as they were since the cache was created: its
  total is the exact count over one of their states and its transactions are the exact page over the
  next recorded state, the one to which other tasks had brought the tables when the page was
  selected. Pages can be stale, and a write between count and selection shows in the one and not in
  the other; nothing is invented or mixed between queries.\<close>

theorem query_answers_past_state:
  assumes "query_engine M contents closures ob" and "service_run M ob H d tc"
    and "get_transactions M ob E address st en off l (d, tc) = (Ok v, (d', tc'))"
    and "H' = H @ [qe_before E (db_tables d), db_tables d']"
  shows "\<exists>i. Suc i < length H' \<and> v = read_page ob (H' ! i) (H' ! Suc i) address st en off l"
proof -
  obtain t u where tu: "(t, u) \<in> insert (qe_before E (db_tables d), db_tables d') (adjacent H)"
    and v: "v = read_page ob t u address st en off l"
    using query_engine.query_answers [OF assms(1) _ assms(3)] service_run_cached [OF assms(1,2)] by blast
  have "(t, u) \<in> adjacent H'"
    unfolding assms(4) by (rule subsetD [OF adjacent_insert tu])
  with v show ?thesis by (auto simp: adjacent_def)
qed

text \<open>A transaction stored between the count and the selection: the page holds two transactions and its
  total says 1.\<close>

definition racing_env :: query_env where
  "racing_env = (quiet_env 0 (Some 1000))
     \<lparr>qe_between := (\<lambda>t. t\<lparr>t_txs := t_txs t @ [row_of_tx sample_tx]\<rparr>)\<rparr>"

theorem query_answers_past_state_witness:
  "\<exists>v d' tc' i. get_transactions lru_moka rowid_sort racing_env ones 0 1000 0 10
       (sample_db, lru_tcm 1000 60) = (Ok v, (d', tc')) \<and>
     Suc i < length [db_tables sample_db, qe_before racing_env (db_tables sample_db), db_tables d'] \<and>
     snd v = 1 \<and> length (fst v) = 2"
proof -
  obtain v d' tc' where q: "get_transactions lru_moka rowid_sort racing_env ones 0 1000 0 10
       (sample_db, lru_tcm 1000 60) = (Ok v, (d', tc'))"
    using lru_query.query_total [OF sample_no_faults] by blast
  have "v = read_page rowid_sort (db_tables sample_db)
      ((db_tables sample_db)\<lparr>t_txs := t_txs (db_tables sample_db) @ [row_of_tx sample_tx]\<rparr>) ones 0 1000 0 10"
    using lru_first_query(2) [OF q, of 0] by (simp add: racing_env_def quiet_env_def)
  moreover have "snd \<dots> = 1 \<and> length (fst \<dots>) = 2" by code_simp
  ultimately have "snd v = 1 \<and> length (fst v) = 2" by simp
  with query_answers_past_state [OF lru_query.query_engine_axioms service_run.run_start [OF tcm_new_lru] q refl]
    q show ?thesis by auto
qed

text \<open>
  The same with the times: \<open>H\<close> records states of the tables with the reading of the cache's clock,
  which does not go back. A query looks its key up, counts, selects and inserts at four times in this
  order, the last at most \<open>dur\<close> after the count.
\<close>

inductive timed_run ::
  "'c tx_moka \<Rightarrow> sorter \<Rightarrow> nat \<Rightarrow> nat \<Rightarrow> (nat \<times> tables) set \<Rightarrow> nat \<Rightarrow> db \<Rightarrow> 'c tcm \<Rightarrow> bool"
  for M ob ttl dur where
  timed_start: "tcm_new M capacity ttl = (Ok tc :: (unit, 'c tcm) res) \<Longrightarrow>
    timed_run M ob ttl dur {(now, db_tables d)} now d tc"
| timed_query: "timed_run M ob ttl dur H now d tc \<Longrightarrow>
    sorted [now, qe_lookup E, counted, selected, qe_insert E] \<Longrightarrow> qe_insert E \<le> counted + dur \<Longrightarrow>
    get_transactions M ob E a st en off l (d, tc) = (r, (d', tc')) \<Longrightarrow>
    timed_run M ob ttl dur ({(counted, qe_before E (db_tables d)), (selected, db_tables d')} \<union> H)
      (qe_insert E) d' tc'"
| timed_write: "timed_run M ob ttl dur H now d tc \<Longrightarrow> now \<le> later \<Longrightarrow>
    timed_run M ob ttl dur (insert (later, db_tables d') H) later d' tc"

locale timed_engine = query_engine M contents closures ob + timed_cache M contents closures stamp lifetime
  for M :: "('c, cache_key, page) moka" and contents closures and ob :: sorter and stamp lifetime
begin

text \<open>A page stamped at time \<open>n\<close> was counted and selected in this order, the count not long before.\<close>

definition read_at :: "nat \<Rightarrow> (nat \<times> tables) set \<Rightarrow> nat \<Rightarrow> cache_key \<Rightarrow> page \<Rightarrow> bool" where
  "read_at dur H n k v \<longleftrightarrow>
     (\<exists>(c, t) \<in> H. \<exists>(s, u) \<in> H. c \<le> s \<and> s \<le> n \<and> n \<le> c + dur \<and> key_page ob (t, u) k = Some v)"

lemma read_at_mono: "read_at dur H n k v \<Longrightarrow> H \<subseteq> H' \<Longrightarrow> read_at dur H' n k v"
  unfolding read_at_def by blast

lemma query_dated:
  assumes "dated (read_at dur H) tc" and "c \<le> s" and "s \<le> qe_insert E" and "qe_insert E \<le> c + dur"
    and "get_transactions M ob E a st en off l (d, tc) = (r, (d', tc'))"
    and "H' = {(c, qe_before E (db_tables d)), (s, db_tables d')} \<union> H"
  shows "dated (read_at dur H') tc'" and "lifetime (tc_cache tc') = lifetime (tc_cache tc)"
proof -
  let ?k = "TransactionQuery a st en off l"
  have start: "dated (read_at dur H') tc"
    by (rule dated_mono [OF assms(1)]) (auto simp: assms(6) elim: read_at_mono)
  obtain h tc1 where get: "tcm_get M (qe_lookup E) ?k tc = (h, tc1)" by fastforce
  note g = dated_get(1,2) [OF start get]
  have "dated (read_at dur H') tc' \<and> lifetime (tc_cache tc') = lifetime (tc_cache tc)"
  proof (cases "\<exists>v. r = Ok v")
    case True
    then obtain v where "get_transactions M ob E a st en off l (d, tc) = (Ok v, (d', tc'))"
      using assms(5) by blast
    then show ?thesis
    proof (cases rule: get_transactions_Ok)
      case hit
      with get g show ?thesis by simp
    next
      case (miss tc2 ttl)
      have "read_at dur H' (qe_insert E) ?k v"
        unfolding read_at_def assms(6) using assms(2-4) by (auto simp: miss(2))
      with g get miss(1,4)
        dated_insert [where P = "read_at dur H'" and now = "qe_insert E" and k = ?k and v = v and m = tc1]
      show ?thesis by simp
    qed
  next
    case False
    with get assms(5) have "tc' = tc1"
      by (auto simp: get_transactions_def transaction_query_def Let_def
          split: prod.splits res.splits option.splits)
    with g show ?thesis by simp
  qed
  then show "dated (read_at dur H') tc'" and "lifetime (tc_cache tc') = lifetime (tc_cache tc)"
    by blast+
qed

lemma timed_run_dated:
  "timed_run M ob ttl dur H now d tc \<Longrightarrow>
   dated (read_at dur H) tc \<and> lifetime (tc_cache tc) = ttl \<and> (\<forall>(n, t) \<in> H. n \<le> now)"
proof (induction rule: timed_run.induct)
  case (timed_start capacity tc now d)
  then show ?case by (simp add: dated_new)
next
  case (timed_query H now d tc E counted selected a st en off l r d' tc')
  then show ?case using query_dated [OF _ _ _ timed_query(3,4) refl, of H selected] by fastforce
next
  case (timed_write H now d tc later d')
  then show ?case by (fastforce intro: dated_mono elim: read_at_mono)
qed

lemma query_age:
  assumes "timed_run M ob ttl dur H now d tc"
    and "sorted [now, qe_lookup E, counted, selected, qe_insert E]"
    and "get_transactions M ob E a st en off l (d, tc) = (Ok v, (d', tc'))"
    and "H' = {(counted, qe_before E (db_tables d)), (selected, db_tables d')} \<union> H"
  shows "\<exists>(c, t) \<in> H'. \<exists>(s, u) \<in> H'. c \<le> s \<and> s \<le> qe_insert E \<and>
    (qe_lookup E \<le> c \<or> qe_lookup E < c + dur + ttl) \<and> v = read_page ob t u a st en off l"
  using assms(3)
proof (cases rule: get_transactions_Ok)
  case hit
  let ?n = "stamp (tc_cache tc) (TransactionQuery a st en off l)"
  note run = timed_run_dated [OF assms(1)]
  have "read_at dur H ?n (TransactionQuery a st en off l) v \<and> qe_lookup E < ?n + ttl"
    using dated_get(3) [OF _ hit(1) refl] run by blast
  then obtain c t s u where old: "(c, t) \<in> H" "(s, u) \<in> H" "c \<le> s" "s \<le> ?n" "?n \<le> c + dur"
    "v = read_page ob t u a st en off l" "qe_lookup E < ?n + ttl"
    unfolding read_at_def by auto
  moreover have "s \<le> now" using run old(2) by blast
  ultimately show ?thesis
    unfolding assms(4) using assms(2)
    by (intro bexI [of _ "(c, t)"] bexI [of _ "(s, u)"] case_prodI conjI) auto
next
  case miss
  then show ?thesis
    unfolding assms(4) using assms(2)
    by (intro bexI [of _ "(counted, qe_before E (db_tables d))"] bexI [of _ "(selected, db_tables d')"]
        case_prodI conjI) auto
qed

end

interpretation lru_timed: timed_engine lru_moka lru_contents lru_closures rowid_sort lru_stamp lru_ttl
  by unfold_locales

text \<open>C13. A page is staler than the time to live by at most the time a query takes: whatever is written
  between and during the queries, a returned page was counted over the tables as they were at a time
  \<open>c\<close> and selected over the tables of a time \<open>s\<close> not before it, and either the returning query itself
  read them, after its lookup, or that lookup was less than the time to live plus the duration of the
  query that read them after \<open>c\<close>. (The cache stamps an entry when it is inserted, after both reads.)\<close>

theorem staleness_bounded:
  assumes "timed_engine M contents closures ob stamp lifetime"
    and "timed_run M ob ttl dur H now d tc"
    and "sorted [now, qe_lookup E, counted, selected, qe_insert E]"
    and "get_transactions M ob E address st en off l (d, tc) = (Ok v, (d', tc'))"
    and "H' = {(counted, qe_before E (db_tables d)), (selected, db_tables d')} \<union> H"
  shows "\<exists>(c, t) \<in> H'. \<exists>(s, u) \<in> H'. c \<le> s \<and> s \<le> qe_insert E \<and>
    (qe_lookup E \<le> c \<or> qe_lookup E < c + dur + ttl) \<and> v = read_page ob t u address st en off l"
  by (rule timed_engine.query_age [OF assms])

text \<open>A query that takes three seconds, and a hit 62 seconds after its count, with a time to live of 60.\<close>

definition slow_env :: query_env where
  "slow_env = \<lparr>qe_lookup = 5, qe_insert = 8, qe_clock = Some 1000, qe_before = id, qe_between = id\<rparr>"

theorem staleness_bounded_witness:
  "\<exists>v d1 tc1 d2 tc2. get_transactions lru_moka rowid_sort slow_env ones 0 1000 0 10
       (sample_db, lru_tcm 1000 60) = (Ok v, (d1, tc1)) \<and>
     get_transactions lru_moka rowid_sort (quiet_env 67 (Some 1062)) ones 0 1000 0 10 (d1, tc1) =
       (Ok v, (d2, tc2)) \<and> v = answer rowid_sort (db_tables sample_db) ones 0 1000 0 10"
proof -
  let ?q = "quiet_env 67 (Some 1062)"
  obtain v d1 tc1 where q1: "get_transactions lru_moka rowid_sort slow_env ones 0 1000 0 10
       (sample_db, lru_tcm 1000 60) = (Ok v, (d1, tc1))"
    using lru_query.query_total [OF sample_no_faults] by blast
  have kept: "fst (tcm_get lru_moka 67 (TransactionQuery ones 0 1000 0 10) tc1) = Some v"
    using lru_first_query(1) [OF q1] by (simp add: slow_env_def)
  obtain r d2 tc2 where q2: "get_transactions lru_moka rowid_sort ?q ones 0 1000 0 10 (d1, tc1) = (r, (d2, tc2))"
    by (metis surj_pair)
  have "r = Ok v"
    using arg_cong [OF q2, of fst] kept by (simp add: get_transactions_outcome)
  note q2 = q2 [unfolded this]
  have "quiet slow_env" by (simp add: slow_env_def quiet_def)
  then have same: "db_tables d1 = db_tables sample_db" "db_tables d2 = db_tables sample_db"
    using lru_query.query_quiet [OF _ q1] lru_query.query_quiet [OF _ q2] by simp_all
  have "timed_run lru_moka rowid_sort 60 3 {(5, db_tables sample_db)} 5 sample_db (lru_tcm 1000 60)"
    by (rule timed_start [OF tcm_new_lru])
  from timed_query [OF this _ _ q1, of 5 6]
  have run: "timed_run lru_moka rowid_sort 60 3
      ({(5, qe_before slow_env (db_tables sample_db)), (6, db_tables d1)} \<union> {(5, db_tables sample_db)}) 8 d1 tc1"
    by (simp add: slow_env_def)
  from staleness_bounded [OF lru_timed.timed_engine_axioms run _ q2 refl, of 67 67]
  have "v = answer rowid_sort (db_tables sample_db) ones 0 1000 0 10"
    by (auto simp: same slow_env_def)
  with q1 q2 show ?thesis by blast
qed

text \<open>C20. While the tables do not change, the cache is transparent: a query whose statements do not
  fail returns exactly the answer over the current tables, from the cache or not, and keeps the cache
  transparent for the next query.\<close>

theorem query_transparent:
  assumes "query_engine M contents closures ob" and "db_faults d = []" and "quiet E"
    and "cached_from ob {(db_tables d, db_tables d)} (contents (tc_cache tc))"
  shows "\<exists>d' tc'. get_transactions M ob E address st en off l (d, tc) =
      (Ok (answer ob (db_tables d) address st en off l), (d', tc')) \<and> db_tables d' = db_tables d \<and>
    cached_from ob {(db_tables d, db_tables d)} (contents (tc_cache tc'))"
proof -
  obtain v d' tc' where q: "get_transactions M ob E address st en off l (d, tc) = (Ok v, (d', tc'))"
    using query_engine.query_total [OF assms(1,2)] by blast
  have same: "db_tables d' = db_tables d" by (rule query_engine.query_quiet [OF assms(1,3) q])
  then show ?thesis
    using query_engine.query_answers [OF assms(1,4) q] query_engine.query_cached [OF assms(1,4) q]
      quiet_envD [OF assms(3)] q
    by auto
qed

theorem query_transparent_witness:
  "\<exists>d' tc'. get_transactions lru_moka rowid_sort (quiet_env 0 (Some 1000)) ones 0 1000 0 10
      (sample_db, lru_tcm 1000 60) =
      (Ok (answer rowid_sort (db_tables sample_db) ones 0 1000 0 10), (d', tc')) \<and>
    db_tables d' = db_tables sample_db \<and>
    cached_from rowid_sort {(db_tables sample_db, db_tables sample_db)} (lru_contents (tc_cache tc'))"
  by (rule query_transparent [OF lru_query.query_engine_axioms]) (simp_all add: sample_db_def)

text \<open>A page with non-negative offset and limit is in ascending order of block time, holds only
  stored transactions of the address in the half-open time range, has the length that offset, limit
  and total count imply, and the total count is the number of matching rows.\<close>

theorem page_is_correct:
  assumes "tx_sorter ob" and "0 \<le> off" and "0 \<le> l"
    and "answer ob t address st en off l = (txs, n)"
  shows "sorted (map tx_block_time txs) \<and>
    set txs \<subseteq> tx_of_row ` {r \<in> set (t_txs t). in_query address st en r} \<and>
    n = int (card {i. i < length (t_txs t) \<and> in_query address st en (t_txs t ! i)}) \<and>
    int (length txs) = min l (max 0 (n - off))"
  by (intro conjI tx_sorter.page_contents [OF assms(1,4,2,3)])

theorem page_is_correct_witness:
  "sorted (map tx_block_time (fst (answer rowid_sort (db_tables sample_db) ones 0 1000 0 10))) \<and>
   length (fst (answer rowid_sort (db_tables sample_db) ones 0 1000 0 10)) = 1"
proof -
  obtain txs n where p: "answer rowid_sort (db_tables sample_db) ones 0 1000 0 10 = (txs, n)" by fastforce
  have n: "n = 1"
    using p by (simp add: answer_def sql_count_txs_def sample_db_def sample_row_def in_query_def
        references_def)
  have "sorted (map tx_block_time txs)" and "int (length txs) = min 10 (max 0 (n - 0))"
    using page_is_correct [OF rowid_sorter.tx_sorter_axioms _ _ p] by simp_all
  then show ?thesis by (simp add: p n)
qed

text \<open>C21. What paging covers, with an order of rows of equal time that each query chooses anew: consecutive
  pages of a positive limit, as many as the total count needs, laid one after the other show the times
  of all matching transactions in ascending order, as often as they occur; and for every time whose
  transactions all fall on one page, exactly these transactions. (Transactions of equal time on both
  sides of a page boundary may be repeated and missed, lemma \<open>pages_may_repeat\<close>.)\<close>

theorem pages_cover_result:
  assumes "tx_sorter ob" and "sql_count_txs address st en t \<le> k * l"
    and "rows = map tx_of_row (filter (in_query address st en) (t_txs t))"
    and "pages = concat (map (\<lambda>i. fst (answer ob t address st en (int (i * l)) (int l))) [0..<k])"
  shows "map tx_block_time pages = sort (map tx_block_time rows) \<and>
    (\<forall>c j. j * l \<le> length (filter (\<lambda>x. tx_block_time x < c) rows) \<and>
       length (filter (\<lambda>x. tx_block_time x \<le> c) rows) \<le> Suc j * l \<longrightarrow>
       mset (filter (\<lambda>x. tx_block_time x = c) pages) = mset (filter (\<lambda>x. tx_block_time x = c) rows))"
proof (intro conjI allI impI)
  show "map tx_block_time pages = sort (map tx_block_time rows)"
    unfolding assms(3,4) by (rule tx_sorter.pages_times [OF assms(1,2)])
  show "mset (filter (\<lambda>x. tx_block_time x = c) pages) = mset (filter (\<lambda>x. tx_block_time x = c) rows)"
    if "j * l \<le> length (filter (\<lambda>x. tx_block_time x < c) rows) \<and>
      length (filter (\<lambda>x. tx_block_time x \<le> c) rows) \<le> Suc j * l" for c j
    by (rule tx_sorter.pages_group [OF assms conjunct1 [OF that] conjunct2 [OF that]])
qed

text \<open>Two tracked transactions of the same time, and a sorter that orders them by the offset.\<close>

definition tied_tables :: tables where
  "tied_tables = (db_tables sample_db)
     \<lparr>t_txs := [row_of_tx sample_tx, row_of_tx (sample_tx\<lparr>tx_signature := ''s4''\<rparr>)]\<rparr>"

definition offset_sort :: "int \<Rightarrow> int \<Rightarrow> ('r \<Rightarrow> 'k::linorder) \<Rightarrow> 'r list \<Rightarrow> 'r list" where
  "offset_sort lmt off k xs = sort_key k (if off = 0 then xs else rev xs)"

interpretation offset_sorter: tx_sorter offset_sort
  by unfold_locales (simp_all add: offset_sort_def)

lemma pages_may_repeat:
  "map (\<lambda>i. map tx_signature (fst (answer offset_sort tied_tables ones 0 1000 (int i) 1))) [0, 1] =
     [[''s2''], [''s2'']]"
  by code_simp

theorem pages_cover_result_witness:
  "mset (filter (\<lambda>x. tx_block_time x = 200)
     (concat (map (\<lambda>i. fst (answer offset_sort tied_tables ones 0 1000 (int (i * 2)) (int 2))) [0..<1]))) =
   mset [sample_tx, sample_tx\<lparr>tx_signature := ''s4''\<rparr>]"
proof -
  have "mset (filter (\<lambda>x. tx_block_time x = 200)
      (concat (map (\<lambda>i. fst (answer offset_sort tied_tables ones 0 1000 (int (i * 2)) (int 2))) [0..<1]))) =
    mset (filter (\<lambda>x. tx_block_time x = 200)
      (map tx_of_row (filter (in_query ones 0 1000) (t_txs tied_tables))))"
    using pages_cover_result [OF offset_sorter.tx_sorter_axioms _ refl refl, of ones 0 1000 tied_tables 1 2,
        THEN conjunct2, rule_format, of 0 200]
    by (simp add: sql_count_txs_def tied_tables_def)
  also have "\<dots> = mset [sample_tx, sample_tx\<lparr>tx_signature := ''s4''\<rparr>]"
    by (simp add: tied_tables_def sample_tx_def row_of_tx_def tx_of_row_def in_query_def references_def
        sql_real_def)
  finally show ?thesis .
qed

text \<open>C37. The cache hides what is stored: after a query that answered from the current tables, a
  transaction of a new signature that the query asks for is stored, and the cached pages of any
  address are invalidated; as long as the entry is in the cache, the query still returns the old page,
  whatever happened to the tables meanwhile, and its total is less than the number of matching rows.\<close>

theorem cache_serves_stale_page:
  assumes "query_engine M contents closures ob"
    and "tcm_new M capacity ttl = (Ok m :: (unit, 'c tcm) res)"
    and "cached_from ob {(db_tables d, db_tables d)} (contents (tc_cache (tcm_run M ops m)))"
    and "quiet E" and "get_transactions M ob E address st en off l (d, tcm_run M ops m) = (Ok v, (d1, tc1))"
    and "add_transactions ts d1 = (Ok u, d2)"
    and "t \<in> set ts" and "\<forall>x \<in> set ts. tx_signature x = tx_signature t \<longrightarrow> x = t"
    and "tx_signature t \<notin> r_signature ` set (t_txs (db_tables d))" and "in_query address st en (row_of_tx t)"
    and "fst (tcm_get M (qe_lookup F) (TransactionQuery address st en off l) tc1) \<noteq> None"
  shows "fst (get_transactions M ob F address st en off l (d2, tcm_invalidate_for_address M b tc1)) = Ok v \<and>
    snd v < snd (answer ob (db_tables d2) address st en off l)"
proof -
  note eng = assms(1)
  have moka: "moka_cache M contents closures" using eng by (simp add: query_engine_def)
  let ?k = "TransactionQuery address st en off l"
  have same: "db_tables d1 = db_tables d" by (rule query_engine.query_quiet [OF eng assms(4,5)])
  have v: "v = answer ob (db_tables d) address st en off l"
    using query_engine.query_answers [OF eng assms(3,5)] quiet_envD [OF assms(4)] same by auto
  have open1: "\<not> closures (tc_cache tc1) \<and> (\<forall>w. contents (tc_cache tc1) ?k = Some w \<longrightarrow> w = v)"
  proof -
    have new: "\<not> closures (tc_cache (tcm_run M ops m))"
      by (rule tcm_run_closures [OF moka moka_cache.tcm_new_closures [OF moka assms(2)]])
    show ?thesis
      using assms(5)
    proof (cases rule: get_transactions_Ok)
      case hit
      then show ?thesis
        using new moka_cache.tcm_get_closures [OF moka, of "qe_lookup E" ?k "tcm_run M ops m"]
          moka_cache.tcm_hit_kept [OF moka hit(1)]
        by simp
    next
      case (miss tc2 ttl')
      then show ?thesis
        using new moka_cache.tcm_get_closures [OF moka, of "qe_lookup E" ?k "tcm_run M ops m"]
          moka_cache.tcm_insert_closures [OF moka] moka_cache.tcm_inserted [OF moka]
        by simp
    qed
  qed
  then have "tcm_invalidate_for_address M b tc1 = tc1" by (simp add: tcm_invalidate_disabled [OF moka])
  moreover obtain w where w: "fst (tcm_get M (qe_lookup F) ?k tc1) = Some w" using assms(11) by blast
  then have "w = v" using open1 moka_cache.tcm_get_contents [OF moka] by blast
  ultimately have "fst (get_transactions M ob F address st en off l (d2, tcm_invalidate_for_address M b tc1)) = Ok v"
    using w by (simp add: get_transactions_outcome)
  moreover have "snd v < snd (answer ob (db_tables d2) address st en off l)"
  proof -
    let ?rows = "t_txs (db_tables d)"
    have rows: "t_txs (db_tables d2) = merge_rows ?rows ts"
      using add_transactions_Ok [OF assms(6)] same by simp
    obtain new where new: "merge_rows ?rows ts = ?rows @ new"
      using merge_rows_prefix [of ?rows ts] by (auto simp: prefix_def)
    have "row_of_tx t \<in> set (merge_rows ?rows ts)"
      by (rule merge_rows_new [OF assms(7,9,8)])
    moreover have "row_of_tx t \<notin> set ?rows" using assms(9) by (metis imageI row_of_tx_sel(1))
    ultimately have "filter (in_query address st en) new \<noteq> []"
      using new assms(10) by (auto simp: filter_empty_conv)
    then show ?thesis by (simp add: v answer_def sql_count_txs_def rows new)
  qed
  ultimately show ?thesis ..
qed

theorem cache_serves_stale_page_witness:
  "\<exists>v d1 tc1 d2. get_transactions lru_moka rowid_sort (quiet_env 0 (Some 1000)) ones 0 1000 0 10
       (sample_db, lru_tcm 1000 60) = (Ok v, (d1, tc1)) \<and>
     add_transactions [sample_tx] d1 = (Ok (), d2) \<and>
     fst (get_transactions lru_moka rowid_sort (quiet_env 1 (Some 1001)) ones 0 1000 0 10
       (d2, tcm_invalidate_for_address lru_moka ones tc1)) = Ok v \<and>
     snd v < snd (answer rowid_sort (db_tables d2) ones 0 1000 0 10)"
proof -
  let ?E = "quiet_env 0 (Some 1000)" and ?F = "quiet_env 1 (Some 1001)"
  obtain v d1 tc1 where q: "get_transactions lru_moka rowid_sort ?E ones 0 1000 0 10
       (sample_db, lru_tcm 1000 60) = (Ok v, (d1, tc1))"
    using lru_query.query_total [OF sample_no_faults] by blast
  have kept: "fst (tcm_get lru_moka (qe_lookup ?F) (TransactionQuery ones 0 1000 0 10) tc1) \<noteq> None"
    using lru_first_query(1) [OF q, of 1] by simp
  have d1: "d1 = sample_db"
    using q by (auto simp: get_transactions_def Let_def read_stmt_faults sample_db_def
        split: prod.splits option.splits)
  have "fst (add_transactions [sample_tx] sample_db) = Ok ()" by code_simp
  then obtain d2 where add: "add_transactions [sample_tx] d1 = (Ok (), d2)"
    by (cases "add_transactions [sample_tx] sample_db") (auto simp: d1)
  have new: "tx_signature sample_tx \<notin> r_signature ` set (t_txs (db_tables sample_db))"
    and asked: "in_query ones 0 1000 (row_of_tx sample_tx)" by code_simp+
  have run: "tcm_run lru_moka [] (lru_tcm 1000 60) = lru_tcm 1000 60" by (simp add: tcm_run_def)
  have "fst (get_transactions lru_moka rowid_sort ?F ones 0 1000 0 10
      (d2, tcm_invalidate_for_address lru_moka ones tc1)) = Ok v \<and>
    snd v < snd (answer rowid_sort (db_tables d2) ones 0 1000 0 10)"
  proof (rule cache_serves_stale_page [where ops = "[]" and E = ?E and t = sample_tx])
    show "query_engine lru_moka lru_contents lru_closures rowid_sort"
      by (rule lru_query.query_engine_axioms)
    show "tcm_new lru_moka 1000 60 = Ok (lru_tcm 1000 60)" by (rule tcm_new_lru)
    show "cached_from rowid_sort {(db_tables sample_db, db_tables sample_db)}
        (lru_contents (tc_cache (tcm_run lru_moka [] (lru_tcm 1000 60))))" by (simp add: run)
    show "get_transactions lru_moka rowid_sort ?E ones 0 1000 0 10
        (sample_db, tcm_run lru_moka [] (lru_tcm 1000 60)) = (Ok v, (d1, tc1))" by (simp only: run q)
    show "add_transactions [sample_tx] d1 = (Ok (), d2)" by (rule add)
  qed (use new asked kept in simp_all)
  then show ?thesis using q add by blast
qed

end
