(* ===== verification/Api.thy ===== *)
theory Api
  imports Db_Transaction
begin

text \<open>
  The HTTP interface, \<^verbatim>\<open>src/api\<close>: errors and their responses (\<^verbatim>\<open>error.rs\<close>), the response with the
  total count (\<^verbatim>\<open>response.rs\<close>), the two handlers and the router (\<^verbatim>\<open>route.rs\<close>). Serialising a page
  to JSON (\<open>serde_json\<close>) is the argument \<open>ser\<close>; reading the query string into the parameter structs
  (the \<open>Query\<close> extractor of \<open>axum\<close>) are the arguments \<open>xt\<close> and \<open>xq\<close> of the router.
\<close>

section \<open>Errors\<close>

datatype api_error =
    BadRequest string
  | NotFound string
  | ApiDatabase sqlx_error
  | Internal string
  | InvalidAddress
  | ApiInvalidParameter string

datatype body = NoBody | PlainText string | JsonBody string | ErrorBody string

text \<open>Status, the headers the code sets itself, and body.\<close>

record response =
  rs_status :: nat
  rs_headers :: "(string \<times> string) list"
  rs_body :: body

definition response_of :: "nat \<Rightarrow> body \<Rightarrow> response" where
  "response_of status b = \<lparr>rs_status = status, rs_headers = [], rs_body = b\<rparr>"

text \<open>\<open>From<ValidationError> for ApiError\<close>\<close>

fun api_of_validation :: "validation_error \<Rightarrow> api_error" where
  "api_of_validation (InvalidSolanaAddress _) = InvalidAddress"
| "api_of_validation (InvalidAction msg) = ApiInvalidParameter (''Invalid action: '' @ msg)"
| "api_of_validation (MissingParameter param) = BadRequest (''Missing parameter: '' @ param)"
| "api_of_validation (InvalidParameter msg) = ApiInvalidParameter msg"

text \<open>\<open>IntoResponse for ApiError\<close>: the messages of database and internal errors are not disclosed.\<close>

fun api_error_response :: "api_error \<Rightarrow> response" where
  "api_error_response (BadRequest m) = response_of 400 (ErrorBody (''Invalid request: '' @ m))"
| "api_error_response (NotFound m) = response_of 404 (ErrorBody (''Resource not found: '' @ m))"
| "api_error_response (ApiDatabase _) = response_of 500 (ErrorBody ''Database error occurred'')"
| "api_error_response (Internal _) = response_of 500 (ErrorBody ''Internal server error'')"
| "api_error_response InvalidAddress =
     response_of 400 (ErrorBody ''Invalid blockchain address format'')"
| "api_error_response (ApiInvalidParameter m) =
     response_of 400 (ErrorBody (''Invalid parameter: '' @ m))"

section \<open>Responses\<close>

definition with_total_count ::
  "(transaction list \<Rightarrow> string option) \<Rightarrow> transaction list \<Rightarrow> i64 \<Rightarrow> response" where
  "with_total_count ser data total_cnt =
     (case ser data of
        None \<Rightarrow> response_of 500 NoBody
      | Some json \<Rightarrow>
          \<lparr>rs_status = 200,
           rs_headers = [(''content-type'', ''application/json''), (''X-Total-Count'', show_int total_cnt)],
           rs_body = JsonBody json\<rparr>)"

text \<open>\<open>IntoResponse for ApiResponse<T>\<close>\<close>

definition api_response :: "('a \<Rightarrow> string option) \<Rightarrow> 'a \<Rightarrow> response" where
  "api_response ser data =
     (case ser data of
        None \<Rightarrow> response_of 500 NoBody
      | Some json \<Rightarrow>
          \<lparr>rs_status = 200, rs_headers = [(''content-type'', ''application/json'')],
           rs_body = JsonBody json\<rparr>)"

section \<open>\<^verbatim>\<open>POST /track\<close>\<close>

record track_query =
  tq_address :: string
  tq_action :: string

definition track_address ::
  "b58 \<Rightarrow> u64 option \<Rightarrow> track_query \<Rightarrow> (db, api_error, response) sm" where
  "track_address b58 clock params =
     bind_st (lift_st (map_err (\<lambda>_. InvalidAddress)
                         (validate_solana_address b58 (tq_address params)))) (\<lambda>_.
       let action = to_lowercase (tq_action params) in
       if action \<noteq> ''add'' \<and> action \<noteq> ''remove''
       then lift_st (Err (ApiInvalidParameter
              (''Action must be either '' @ quoted ''add'' @ '' or '' @ quoted ''remove'')))
       else if action = ''add'' then
         bind_st (map_err_st ApiDatabase (add_address b58 clock (tq_address params))) (\<lambda>_.
           ret_st (response_of 201 (PlainText ''Address added to tracking'')))
       else if action = ''remove'' then
         bind_st (map_err_st ApiDatabase (remove_address (tq_address params))) (\<lambda>removed.
           if removed
           then ret_st (response_of 200 (PlainText ''Address removed from tracking''))
           else ret_st (response_of 200 (PlainText ''Address was not being tracked'')))
       else lift_st Panic)"

section \<open>\<^verbatim>\<open>GET /transactions\<close>\<close>

record transactions_query =
  q_address :: string
  q_start_time :: string
  q_end_time :: string
  q_offset :: string
  q_limit :: string

text \<open>The handler works on the database and the transaction cache, under the cache's lock.\<close>

definition on_db :: "(db, 'e, 'a) sm \<Rightarrow> (db \<times> 'c, 'e, 'a) sm" where
  "on_db m s = (case m (fst s) of (r, d) \<Rightarrow> (r, (d, snd s)))"

definition get_transactions_handler ::
  "'c tx_moka \<Rightarrow> sorter \<Rightarrow> (transaction list \<Rightarrow> string option) \<Rightarrow> b58 \<Rightarrow> query_env \<Rightarrow>
   transactions_query \<Rightarrow> (db \<times> 'c tcm, api_error, response) sm" where
  "get_transactions_handler M ob ser b58 E params =
     bind_st (lift_st (map_err (\<lambda>_. InvalidAddress)
                         (validate_solana_address b58 (q_address params)))) (\<lambda>_.
     bind_st (lift_st (map_err api_of_validation (validate_timestamp (q_start_time params)))) (\<lambda>start.
     bind_st (lift_st (map_err api_of_validation (validate_timestamp (q_end_time params)))) (\<lambda>end_t.
     bind_st (lift_st (map_err api_of_validation (validate_offset (q_offset params)))) (\<lambda>offset.
     bind_st (lift_st (map_err api_of_validation (validate_limit (q_limit params)))) (\<lambda>limit.
       if end_t \<le> start
       then lift_st (Err (ApiInvalidParameter ''start_time must be less than end_time''))
       else
         bind_st (on_db (map_err_st ApiDatabase (is_address_tracked (q_address params)))) (\<lambda>tracked.
           if \<not> tracked then lift_st (Err (NotFound ''Address is not being tracked''))
           else
             bind_st (map_err_st ApiDatabase
                (get_transactions M ob E (q_address params) start end_t offset limit))
               (\<lambda>(txs, total_count). ret_st (with_total_count ser txs total_count))))))))"

section \<open>The router\<close>

datatype http_method = GET | HEAD | POST | OtherMethod string

record request =
  rq_method :: http_method
  rq_path :: string
  rq_query :: string

text \<open>
  How a handler's result becomes a response; a panic closes the connection. A \<open>get\<close> route of \<open>axum\<close>
  also serves \<open>HEAD\<close>, without the body; a request the extractor rejects is answered 400, a method
  with no handler 405, a path with no route 404.
\<close>

fun respond :: "(api_error, response) res \<Rightarrow> response option" where
  "respond (Ok r) = Some r"
| "respond (Err e) = Some (api_error_response e)"
| "respond Panic = None"

definition without_body :: "response \<Rightarrow> response" where
  "without_body r = r\<lparr>rs_body := NoBody\<rparr>"

definition create_router ::
  "'c tx_moka \<Rightarrow> sorter \<Rightarrow> (transaction list \<Rightarrow> string option) \<Rightarrow> b58 \<Rightarrow>
   (string \<Rightarrow> track_query option) \<Rightarrow> (string \<Rightarrow> transactions_query option) \<Rightarrow>
   nat \<Rightarrow> u64 option \<Rightarrow> request \<Rightarrow> db \<times> 'c tcm \<Rightarrow> response option \<times> (db \<times> 'c tcm)" where
  "create_router M ob ser b58 xt xq mclock clock req s =
     (if rq_path req = ''/track'' then
        (if rq_method req = POST then
           (case xt (rq_query req) of
              None \<Rightarrow> (Some (response_of 400 NoBody), s)
            | Some p \<Rightarrow> (case on_db (track_address b58 clock p) s of (r, s') \<Rightarrow> (respond r, s')))
         else (Some (response_of 405 NoBody), s))
      else if rq_path req = ''/transactions'' then
        (if rq_method req = GET \<or> rq_method req = HEAD then
           (case xq (rq_query req) of
              None \<Rightarrow> (Some (response_of 400 NoBody), s)
            | Some p \<Rightarrow>
                (case get_transactions_handler M ob ser b58 (quiet_env mclock clock) p s of
                   (r, s') \<Rightarrow>
                     (if rq_method req = HEAD then map_option without_body (respond r)
                      else respond r, s')))
         else (Some (response_of 405 NoBody), s))
      else (Some (response_of 404 NoBody), s))"

section \<open>What the handlers do\<close>

text \<open>The queries that pass validation, with their parameters.\<close>

definition accepted_query ::
  "b58 \<Rightarrow> transactions_query \<Rightarrow> i64 \<Rightarrow> i64 \<Rightarrow> i64 \<Rightarrow> i64 \<Rightarrow> bool" where
  "accepted_query b58 p st en off l \<longleftrightarrow>
     valid_address b58 (q_address p) \<and> parse_i64 (q_start_time p) = Some st \<and>
     parse_i64 (q_end_time p) = Some en \<and> parse_i64 (q_offset p) = Some off \<and>
     parse_i64 (q_limit p) = Some l \<and> st < en \<and> 0 \<le> off \<and> 1 \<le> l \<and> l \<le> 1000"

lemma accepted_query_checks:
  "accepted_query b58 p st en off l \<longleftrightarrow>
     validate_solana_address b58 (q_address p) = Ok () \<and>
     validate_timestamp (q_start_time p) = Ok st \<and> validate_timestamp (q_end_time p) = Ok en \<and>
     validate_offset (q_offset p) = Ok off \<and> validate_limit (q_limit p) = Ok l \<and> st < en"
  by (auto simp: accepted_query_def res_iff)

lemma validation_status: "rs_status (api_error_response (api_of_validation e)) = 400"
  by (cases e) (simp_all add: response_of_def)

lemma bind_lift_st: "bind_st (lift_st r) f s = (case r of Ok x \<Rightarrow> f x s | Err e \<Rightarrow> (Err e, s) | Panic \<Rightarrow> (Panic, s))"
  by (cases r) (simp_all add: bind_st_def lift_st_def)

lemma handler_rejects:
  assumes "\<nexists>st en off l. accepted_query b58 p st en off l"
  shows "\<exists>e. get_transactions_handler M ob ser b58 E p s = (Err e, s) \<and>
    rs_status (api_error_response e) = 400"
proof (cases "validate_solana_address b58 (q_address p)";
    cases "validate_timestamp (q_start_time p)"; cases "validate_timestamp (q_end_time p)";
    cases "validate_offset (q_offset p)"; cases "validate_limit (q_limit p)")
qed (use assms in \<open>auto simp: accepted_query_checks get_transactions_handler_def bind_lift_st
    response_of_def lift_st_def validation_status\<close>)

lemma handler_accepts:
  assumes "accepted_query b58 p st en off l"
  shows "get_transactions_handler M ob ser b58 E p s =
    bind_st (on_db (map_err_st ApiDatabase (is_address_tracked (q_address p)))) (\<lambda>tracked.
      if \<not> tracked then lift_st (Err (NotFound ''Address is not being tracked''))
      else bind_st (map_err_st ApiDatabase
             (get_transactions M ob E (q_address p) st en off l))
           (\<lambda>(txs, total_count). ret_st (with_total_count ser txs total_count))) s"
  using assms by (simp add: accepted_query_checks get_transactions_handler_def bind_lift_st)

lemma handler_tables:
  assumes "get_transactions_handler M ob ser b58 E p (d, tc) = (r, (d', tc'))"
  shows "db_tables d' \<in> {db_tables d, qe_before E (db_tables d), qe_between E (qe_before E (db_tables d))} \<and>
    r \<noteq> Panic"
proof (cases "\<exists>st en off l. accepted_query b58 p st en off l")
  case False
  with handler_rejects [OF False, of M ob ser E "(d, tc)"] assms show ?thesis by auto
next
  case True
  then obtain st en off l where q: "accepted_query b58 p st en off l" by blast
  show ?thesis
    using assms unfolding handler_accepts [OF q]
    by (auto simp: bind_st_def on_db_def map_err_st_def lift_st_def ret_st_def res_iff
        split: prod.splits res.splits if_splits
        dest!: is_address_tracked_tables get_transactions_tables)
qed

section \<open>Properties of the endpoints\<close>

lemma is_address_tracked_outcome:
  "is_address_tracked a d = (q, d1) \<Longrightarrow>
   d1 = d\<lparr>db_faults := tl (db_faults d)\<rparr> \<and>
   (if fails_at 0 d then \<exists>e. q = Err e else q = Ok (has_address a (db_tables d)))"
  by (auto simp: is_address_tracked_def bind_st_def ret_st_def read_stmt_faults fails_at_def
      count_address_pos count_address_zero split: list.splits option.splits)

lemma get_transactions_miss:
  assumes "fst (tcm_get M (qe_lookup E) (TransactionQuery a st en off l) tc) = None"
  shows "if fails_at 0 d \<or> fails_at 1 d then \<exists>e. fst (get_transactions M ob E a st en off l (d, tc)) = Err e
    else fst (get_transactions M ob E a st en off l (d, tc)) =
      Ok (read_page ob (qe_before E (db_tables d)) (qe_between E (qe_before E (db_tables d))) a st en off l)"
  using assms unfolding get_transactions_outcome
  by (auto simp: fails_at_def nth_tl [symmetric] split: list.splits option.splits)

text \<open>The response that carries a page.\<close>

definition page_response :: "(transaction list \<Rightarrow> string option) \<Rightarrow> page \<Rightarrow> response" where
  "page_response ser v = (case v of (txs, total_cnt) \<Rightarrow> with_total_count ser txs total_cnt)"

lemma handler_answer:
  assumes "accepted_query b58 p st en off l"
    and "get_transactions_handler M ob ser b58 E p (d, tc) = (r, (d', tc'))"
  shows "if fails_at 0 d then \<exists>e. r = Err (ApiDatabase e)
    else if \<not> has_address (q_address p) (db_tables d) then \<exists>m. r = Err (NotFound m)
    else case fst (tcm_get M (qe_lookup E) (TransactionQuery (q_address p) st en off l) tc) of
      Some v \<Rightarrow> r = Ok (page_response ser v)
    | None \<Rightarrow>
        if fails_at 1 d \<or> fails_at 2 d then \<exists>e. r = Err (ApiDatabase e)
        else r = Ok (page_response ser (read_page ob (qe_before E (db_tables d))
          (qe_between E (qe_before E (db_tables d))) (q_address p) st en off l))"
proof -
  obtain q d1 where tr: "is_address_tracked (q_address p) d = (q, d1)" by fastforce
  note out = is_address_tracked_outcome [OF tr]
  obtain g d2 tc2 where gt: "get_transactions M ob E (q_address p) st en off l (d1, tc) = (g, (d2, tc2))"
    by (metis surj_pair)
  have g: "g = fst (get_transactions M ob E (q_address p) st en off l (d1, tc))" by (simp add: gt)
  have run: "(r, (d', tc')) =
      (case q of
         Ok tracked \<Rightarrow>
           if \<not> tracked then (Err (NotFound ''Address is not being tracked''), (d1, tc))
           else (case g of Ok v \<Rightarrow> (Ok (page_response ser v), (d2, tc2))
                 | Err e \<Rightarrow> (Err (ApiDatabase e), (d2, tc2)) | Panic \<Rightarrow> (Panic, (d2, tc2)))
       | Err e \<Rightarrow> (Err (ApiDatabase e), (d1, tc)) | Panic \<Rightarrow> (Panic, (d1, tc)))"
    unfolding assms(2) [symmetric] handler_accepts [OF assms(1)]
    by (simp add: bind_st_def on_db_def map_err_st_def lift_st_def ret_st_def tr gt page_response_def
        split: res.split prod.split)
  show ?thesis
  proof (cases "fails_at 0 d \<or> \<not> has_address (q_address p) (db_tables d)")
    case True
    with out run show ?thesis by (auto split: if_splits)
  next
    case False
    with out have q: "q = Ok True" and d1: "d1 = d\<lparr>db_faults := tl (db_faults d)\<rparr>" by auto
    show ?thesis
    proof (cases "fst (tcm_get M (qe_lookup E) (TransactionQuery (q_address p) st en off l) tc)")
      case None
      from get_transactions_miss [OF None, of d1 ob] False q run show ?thesis
        by (auto simp: None g d1 numeral_2_eq_2 split: if_splits)
    next
      case (Some v)
      then have "g = Ok v" by (simp add: g get_transactions_outcome)
      with False q run Some show ?thesis by simp
    qed
  qed
qed

lemma handler_cached:
  assumes "query_engine M contents closures ob" and "cached_from ob R (contents (tc_cache tc))"
    and "accepted_query b58 p st en off l"
    and "get_transactions_handler M ob ser b58 E p (d, tc) = (r, (d', tc'))"
  shows "cached_from ob (R \<union> {(qe_before E (db_tables d), qe_between E (qe_before E (db_tables d))),
      (qe_before E (db_tables d), qe_before E (db_tables d))}) (contents (tc_cache tc'))"
proof -
  obtain q d1 where tr: "is_address_tracked (q_address p) d = (q, d1)" by fastforce
  have d1: "db_tables d1 = db_tables d" using is_address_tracked_outcome [OF tr] by simp
  obtain g d2 tc2 where gt: "get_transactions M ob E (q_address p) st en off l (d1, tc) = (g, (d2, tc2))"
    by (metis surj_pair)
  have "tc' = tc \<or> tc' = tc2"
    using assms(4) unfolding handler_accepts [OF assms(3)]
    by (auto simp: bind_st_def on_db_def map_err_st_def lift_st_def ret_st_def tr gt
        split: res.splits prod.splits if_splits)
  moreover have "cached_from ob (insert (qe_before E (db_tables d1), db_tables d2) R) (contents (tc_cache tc2))"
    by (rule query_engine.query_cached [OF assms(1,2) gt])
  moreover have "db_tables d2 \<in> {qe_before E (db_tables d), qe_between E (qe_before E (db_tables d))}"
    using get_transactions_tables [OF gt] d1 by simp
  ultimately show ?thesis
    using assms(2) by (elim disjE) (auto simp: d1 elim!: cached_from_mono)
qed

text \<open>C15. Every outcome of \<^verbatim>\<open>GET /transactions\<close>, with statements that may fail, other tasks that write during
  the request, and a cache whose pages were read over any tables: unacceptable parameters (address,
  integers, offset, limit between 1 and 1000, start before end) are answered 400 and change nothing;
  otherwise the request is answered 500 if the first statement fails and 404 if the address is not
  tracked; a page in the cache is served as it is, however the tables have changed since it was
  read; without one the request is answered 500 if the count or the selection fails, and else with the
  total of the tables at the count and the page of the tables at the selection. Nothing is written
  by the request, and what it adds to the cache was read over these tables.\<close>

theorem get_transactions_endpoint:
  assumes "query_engine M contents closures ob"
    and "cached_from ob R (contents (tc_cache tc))"
    and "get_transactions_handler M ob ser b58 E p (d, tc) = (r, (d', tc'))"
    and "counted = qe_before E (db_tables d)" and "selected = qe_between E counted"
  shows "\<exists>resp. respond r = Some resp \<and> db_tables d' \<in> {db_tables d, counted, selected} \<and>
    cached_from ob (R \<union> {(counted, selected), (counted, counted)}) (contents (tc_cache tc')) \<and>
    (if \<nexists>st en off l. accepted_query b58 p st en off l then rs_status resp = 400 \<and> d' = d \<and> tc' = tc
     else \<exists>st en off l. accepted_query b58 p st en off l \<and>
       (if fails_at 0 d then rs_status resp = 500
        else if \<not> has_address (q_address p) (db_tables d) then rs_status resp = 404
        else case fst (tcm_get M (qe_lookup E) (TransactionQuery (q_address p) st en off l) tc) of
          Some v \<Rightarrow> resp = page_response ser v \<and>
            (\<exists>(t, u) \<in> R. v = read_page ob t u (q_address p) st en off l)
        | None \<Rightarrow>
            if fails_at 1 d \<or> fails_at 2 d then rs_status resp = 500
            else resp = page_response ser (read_page ob counted selected (q_address p) st en off l)))"
proof (cases "\<exists>st en off l. accepted_query b58 p st en off l")
  case False
  with handler_rejects [OF False, of M ob ser E "(d, tc)"] assms(2,3) show ?thesis
    by (auto elim: cached_from_mono)
next
  case True
  then obtain st en off l where q: "accepted_query b58 p st en off l" by blast
  have tables: "db_tables d' \<in> {db_tables d, counted, selected}" "r \<noteq> Panic"
    using handler_tables [OF assms(3)] by (auto simp: assms(4,5))
  have cached: "cached_from ob (R \<union> {(counted, selected), (counted, counted)}) (contents (tc_cache tc'))"
    using handler_cached [OF assms(1,2) q assms(3)] unfolding assms(4,5) .
  have hits: "\<exists>(t, u) \<in> R. v = read_page ob t u (q_address p) st en off l"
    if "fst (tcm_get M (qe_lookup E) (TransactionQuery (q_address p) st en off l) tc) = Some v" for v
    by (rule query_engine.hit_read [OF assms(1,2) that])
  obtain resp where resp: "respond r = Some resp" using tables(2) by (cases r) auto
  with handler_answer [OF q assms(3)] hits
  have ans: "if fails_at 0 d then rs_status resp = 500
      else if \<not> has_address (q_address p) (db_tables d) then rs_status resp = 404
      else case fst (tcm_get M (qe_lookup E) (TransactionQuery (q_address p) st en off l) tc) of
        Some v \<Rightarrow> resp = page_response ser v \<and>
          (\<exists>(t, u) \<in> R. v = read_page ob t u (q_address p) st en off l)
      | None \<Rightarrow>
          if fails_at 1 d \<or> fails_at 2 d then rs_status resp = 500
          else resp = page_response ser (read_page ob counted selected (q_address p) st en off l)"
    by (auto simp: assms(4,5) response_of_def split: if_splits option.splits)
  have "\<not> (\<nexists>st en off l. accepted_query b58 p st en off l)" using True by simp
  then show ?thesis
    by (simp only: if_False)
      (intro conjI exI [of _ resp] exI [of _ st] exI [of _ en] exI [of _ off] exI [of _ l]
        resp tables(1) cached q ans)
qed

text \<open>The \<^verbatim>\<open>X-Total-Count\<close> header of a served page reads back as the number of matching stored
  transactions, whatever page was asked for.\<close>

theorem total_count_header:
  assumes "sql_count_txs a st en t < 2 ^ 63" and "ser (fst (answer ob t a st en off l)) = Some json"
  shows "map_option parse_i64 (map_of (rs_headers (case answer ob t a st en off l of
      (txs, total_cnt) \<Rightarrow> with_total_count ser txs total_cnt)) ''X-Total-Count'') =
    Some (Some (int (sql_count_txs a st en t)))"
proof -
  have "i64_ok (int (sql_count_txs a st en t))"
    using assms(1) unfolding i64_ok_def by simp
  with assms(2) show ?thesis by (simp add: with_total_count_def answer_def)
qed

text \<open>The acceptable \<^verbatim>\<open>POST /track\<close> requests.\<close>

definition accepted_track :: "b58 \<Rightarrow> track_query \<Rightarrow> bool" where
  "accepted_track b58 p \<longleftrightarrow>
     valid_address b58 (tq_address p) \<and> to_lowercase (tq_action p) \<in> {''add'', ''remove''}"

lemma track_address_cases:
  assumes "track_address b58 clock p d = (r, d')"
  obtains (rejected) e where "r = Err e" "d' = d" "rs_status (api_error_response e) = 400"
      "\<not> accepted_track b58 p"
  | (added) q where "accepted_track b58 p" "to_lowercase (tq_action p) = ''add''"
      "add_address b58 clock (tq_address p) d = (q, d')"
      "r = (case q of Ok u \<Rightarrow> Ok (response_of 201 (PlainText ''Address added to tracking''))
                    | Err e \<Rightarrow> Err (ApiDatabase e) | Panic \<Rightarrow> Panic)"
  | (removed) q where "accepted_track b58 p" "to_lowercase (tq_action p) = ''remove''"
      "remove_address (tq_address p) d = (q, d')"
      "r = (case q of Ok b \<Rightarrow> Ok (response_of 200 (PlainText
                        (if b then ''Address removed from tracking''
                         else ''Address was not being tracked'')))
                    | Err e \<Rightarrow> Err (ApiDatabase e) | Panic \<Rightarrow> Panic)"
proof (cases rule: validate_solana_address_cases [of b58 "tq_address p"])
  case (invalid e)
  with assms show ?thesis
    by (intro rejected) (auto simp: track_address_def bind_lift_st accepted_track_def response_of_def)
next
  case valid
  consider "to_lowercase (tq_action p) = ''add''" | "to_lowercase (tq_action p) = ''remove''"
    | "to_lowercase (tq_action p) \<notin> {''add'', ''remove''}" by blast
  then show ?thesis
  proof cases
    case 1
    obtain q d1 where q: "add_address b58 clock (tq_address p) d = (q, d1)" by fastforce
    have acc: "accepted_track b58 p" using 1 valid(2) by (simp add: accepted_track_def)
    have "track_address b58 clock p d = (case q of
        Ok u \<Rightarrow> Ok (response_of 201 (PlainText ''Address added to tracking''))
      | Err e \<Rightarrow> Err (ApiDatabase e) | Panic \<Rightarrow> Panic, d1)"
      using 1 valid(1) q
      by (cases q) (simp_all add: track_address_def lift_st_def bind_st_def map_err_st_def ret_st_def)
    then show ?thesis using assms q acc 1 by (intro added [of q]) simp_all
  next
    case 2
    obtain q d1 where q: "remove_address (tq_address p) d = (q, d1)" by fastforce
    have acc: "accepted_track b58 p" using 2 valid(2) by (simp add: accepted_track_def)
    have "track_address b58 clock p d = (case q of
        Ok b \<Rightarrow> Ok (response_of 200 (PlainText (if b then ''Address removed from tracking''
                     else ''Address was not being tracked'')))
      | Err e \<Rightarrow> Err (ApiDatabase e) | Panic \<Rightarrow> Panic, d1)"
      using 2 valid(1) q
      by (cases q) (simp_all add: track_address_def lift_st_def bind_st_def map_err_st_def ret_st_def)
    then show ?thesis using assms q acc 2 by (intro removed [of q]) simp_all
  next
    case 3
    with valid assms show ?thesis
      by (intro rejected) (auto simp: track_address_def bind_lift_st accepted_track_def
          lift_st_def response_of_def)
  qed
qed

lemma track_address_tables_ok:
  assumes "track_address b58 clock p d = (r, d')" and "tables_ok (db_tables d)"
  shows "tables_ok (db_tables d')"
  using assms
  by (elim track_address_cases)
    (auto dest: add_address_tables_ok remove_address_tables_ok)

text \<open>C16. \<^verbatim>\<open>POST /track\<close> without database faults: an invalid address or an action other than add and
  remove (in any case) is answered 400 and changes nothing; adding answers 201 and tracks the address,
  and only it, in addition; removing an address that stored transactions name answers 500 and changes
  nothing; removing any other address answers 200, and it is not tracked afterwards.\<close>

theorem track_endpoint:
  assumes "db_faults d = []" and "tables_ok (db_tables d)"
  shows "\<exists>resp d'. (case track_address b58 (Some secs) p d of (r, d1) \<Rightarrow>
      respond r = Some resp \<and> d1 = d') \<and>
    (if \<not> accepted_track b58 p then rs_status resp = 400 \<and> d' = d
     else if to_lowercase (tq_action p) = ''add''
     then rs_status resp = 201 \<and>
       (\<forall>b. has_address b (db_tables d') \<longleftrightarrow> b = tq_address p \<or> has_address b (db_tables d))
     else if pinned (tq_address p) (db_tables d) then rs_status resp = 500 \<and> d' = d
     else rs_status resp = 200 \<and>
       (\<forall>b. has_address b (db_tables d') \<longleftrightarrow> b \<noteq> tq_address p \<and> has_address b (db_tables d)))"
proof -
  obtain r d' where t: "track_address b58 (Some secs) p d = (r, d')" by fastforce
  then show ?thesis
  proof (cases rule: track_address_cases)
    case rejected
    then show ?thesis using t by auto
  next
    case (added q)
    then have "q = Ok ()" and "db_tables d' = sql_upsert_address (tq_address p) (u64_as_i64 secs) (db_tables d)"
      using assms(1) by (auto simp: accepted_track_def add_address_valid stmt_no_faults)
    with added t show ?thesis by (simp add: has_address_upsert response_of_def)
  next
    case (removed q)
    then show ?thesis
      using t assms remove_address_no_faults [OF assms(2,1), of "tq_address p"]
        addr_reg.reg_member_delete [of "tq_address p" "db_tables d"]
      by (auto simp: response_of_def split: if_splits)
  qed
qed

text \<open>Witnesses over the tables of one tracked address.\<close>

definition sample_query :: transactions_query where
  "sample_query =
     \<lparr>q_address = ones, q_start_time = ''0'', q_end_time = ''1000'', q_offset = ''0'', q_limit = ''10''\<rparr>"

definition sample_ser :: "transaction list \<Rightarrow> string option" where
  "sample_ser txs = Some (concat (map tx_signature txs))"

text \<open>A request served during a write, and one whose count fails.\<close>

definition count_fails :: db where
  "count_fails = sample_db\<lparr>db_faults := [None, Some (Database ''disk'')]\<rparr>"

theorem get_transactions_endpoint_witness:
  "respond (fst (get_transactions_handler lru_moka rowid_sort sample_ser ones_b58 racing_env
      sample_query (sample_db, lru_tcm 1000 60))) =
     Some (page_response sample_ser (read_page rowid_sort (db_tables sample_db)
       (qe_between racing_env (db_tables sample_db)) ones 0 1000 0 10)) \<and>
   map_option rs_status (respond (fst (get_transactions_handler lru_moka rowid_sort sample_ser ones_b58
      racing_env sample_query (count_fails, lru_tcm 1000 60)))) = Some 500"
proof -
  have q: "accepted_query ones_b58 sample_query st en off l \<longleftrightarrow> st = 0 \<and> en = 1000 \<and> off = 0 \<and> l = 10"
    for st en off l
  proof -
    have "parse_i64 ''0'' = Some 0" "parse_i64 ''1000'' = Some 1000" "parse_i64 ''10'' = Some 10"
      "valid_address ones_b58 ones" by code_simp+
    then show ?thesis by (auto simp: accepted_query_def sample_query_def)
  qed
  have t: "has_address (q_address sample_query) (db_tables sample_db)" by code_simp
  have a: "q_address sample_query = ones" by (simp add: sample_query_def)
  have miss: "fst (tcm_get lru_moka (qe_lookup racing_env) k (lru_tcm 1000 60 :: (cache_key, page) lru tcm)) = None"
    for k :: cache_key
    by (simp add: tcm_get_def lru_moka_def lru_get_def lru_find_def lru_tcm_def)
  have faults: "fails_at 1 count_fails" "\<not> fails_at 0 count_fails" "db_tables count_fails = db_tables sample_db"
    by (simp_all add: fails_at_def count_fails_def)
  have before: "qe_before racing_env = id" by (simp add: racing_env_def)
  obtain r d' tc' where h: "get_transactions_handler lru_moka rowid_sort sample_ser ones_b58 racing_env
      sample_query (sample_db, lru_tcm 1000 60) = (r, (d', tc'))" by (metis surj_pair)
  obtain r2 d2 tc2 where h2: "get_transactions_handler lru_moka rowid_sort sample_ser ones_b58 racing_env
      sample_query (count_fails, lru_tcm 1000 60) = (r2, (d2, tc2))" by (metis surj_pair)
  have empty: "cached_from rowid_sort {} (lru_contents (tc_cache (lru_tcm 1000 60)))" by simp
  note ep = get_transactions_endpoint [OF lru_query.query_engine_axioms empty _ refl refl]
  from ep [OF h] ep [OF h2] show ?thesis
    using t sample_no_faults faults by (auto simp: h h2 q a miss before)
qed

theorem total_count_header_witness:
  "map_option parse_i64 (map_of (rs_headers
     (case answer rowid_sort (db_tables sample_db) ones 0 1000 5 10 of
        (txs, total_cnt) \<Rightarrow> with_total_count sample_ser txs total_cnt)) ''X-Total-Count'') =
    Some (Some (int (sql_count_txs ones 0 1000 (db_tables sample_db))))"
proof (rule total_count_header)
  have "sql_count_txs ones 0 1000 (db_tables sample_db) = 1" by code_simp
  then show "sql_count_txs ones 0 1000 (db_tables sample_db) < 2 ^ 63" by simp
  show "sample_ser (fst (answer rowid_sort (db_tables sample_db) ones 0 1000 5 10)) = Some []"
    by code_simp
qed

theorem track_endpoint_witness:
  "\<exists>resp d'. (case track_address ones_b58 (Some 9) \<lparr>tq_address = ones, tq_action = ''Remove''\<rparr> sample_db
      of (r, d1) \<Rightarrow> respond r = Some resp \<and> d1 = d') \<and> rs_status resp = 500 \<and> d' = sample_db"
proof -
  let ?p = "\<lparr>tq_address = ones, tq_action = ''Remove''\<rparr> :: track_query"
  have acc: "accepted_track ones_b58 ?p" and low: "to_lowercase (tq_action ?p) \<noteq> ''add''"
    and pin: "pinned (tq_address ?p) (db_tables sample_db)"
    by code_simp+
  show ?thesis
    using track_endpoint [OF sample_no_faults sample_tables_ok, of ones_b58 9 ?p] acc low pin
    by simp
qed

section \<open>Sequences of requests\<close>

fun serve ::
  "'c tx_moka \<Rightarrow> sorter \<Rightarrow> (transaction list \<Rightarrow> string option) \<Rightarrow> b58 \<Rightarrow>
   (string \<Rightarrow> track_query option) \<Rightarrow> (string \<Rightarrow> transactions_query option) \<Rightarrow>
   (nat \<times> u64 \<times> request) list \<Rightarrow> db \<times> 'c tcm \<Rightarrow> response option list \<times> (db \<times> 'c tcm)" where
  "serve M ob ser b58 xt xq [] s = ([], s)"
| "serve M ob ser b58 xt xq ((mclock, secs, req) # reqs) s =
     (case create_router M ob ser b58 xt xq mclock (Some secs) req s of
        (resp, s') \<Rightarrow>
          (case serve M ob ser b58 xt xq reqs s' of (resps, s'') \<Rightarrow> (resp # resps, s'')))"

lemma track_address_keeps:
  assumes "track_address b58 (Some secs) p d = (r, d')"
  shows "t_txs (db_tables d') = t_txs (db_tables d) \<and> r \<noteq> Panic"
  using assms
proof (cases rule: track_address_cases)
  case (added q)
  then have "add_address b58 (Some secs) (tq_address p) d =
      stmt (\<lambda>t. (Ok (), sql_upsert_address (tq_address p) (u64_as_i64 secs) t)) d"
    by (simp add: accepted_track_def add_address_valid)
  with added show ?thesis by (auto elim!: stmt_cases dest: sym)
next
  case (removed q)
  then show ?thesis using remove_address_keeps [of "tq_address p" d q d'] by (auto split: res.splits)
qed simp

lemma router_step:
  assumes "create_router M ob ser b58 xt xq mclock (Some secs) req s = (resp, s')"
    and "tables_ok (db_tables (fst s))"
  shows "tables_ok (db_tables (fst s')) \<and> resp \<noteq> None \<and>
    t_txs (db_tables (fst s')) = t_txs (db_tables (fst s)) \<and>
    (rq_method req \<noteq> POST \<longrightarrow> db_tables (fst s') = db_tables (fst s))"
proof -
  have some: "r \<noteq> Panic \<Longrightarrow> \<exists>resp. respond r = Some resp" for r by (cases r) simp_all
  obtain d tc d' tc' where st: "s = (d, tc)" "s' = (d', tc')" by fastforce
  from assms show ?thesis
    unfolding create_router_def st
    by (auto simp: on_db_def split: if_splits option.splits prod.splits
        intro!: some dest: track_address_tables_ok track_address_keeps handler_tables)
qed

text \<open>C14. No sequence of HTTP requests, whatever faults the database has, breaks the invariant of the
  tables (unique addresses and signatures, foreign keys), leaves a request without a response, or
  changes the stored transactions.\<close>

theorem requests_keep_tables_ok:
  assumes "tables_ok (db_tables (fst s))"
    and "serve M ob ser b58 xt xq reqs s = (resps, s')"
  shows "tables_ok (db_tables (fst s')) \<and> t_txs (db_tables (fst s')) = t_txs (db_tables (fst s)) \<and>
    length resps = length reqs \<and> None \<notin> set resps"
  using assms
proof (induction reqs arbitrary: s resps)
  case Nil
  then show ?case by simp
next
  case (Cons r reqs)
  obtain mclock secs req where r: "r = (mclock, secs, req)" by (metis prod_cases3)
  obtain resp s1 where 1: "create_router M ob ser b58 xt xq mclock (Some secs) req s = (resp, s1)"
    by (metis surj_pair)
  obtain resps1 where 2: "serve M ob ser b58 xt xq reqs s1 = (resps1, s')" "resps = resp # resps1"
    using Cons.prems(2) 1 r by (auto split: prod.splits)
  from router_step [OF 1 Cons.prems(1)] Cons.IH [OF _ 2(1)] 2(2) show ?case by auto
qed

theorem requests_keep_tables_ok_witness:
  "case serve lru_moka rowid_sort sample_ser ones_b58
      (\<lambda>_. Some \<lparr>tq_address = ones, tq_action = ''add''\<rparr>) (\<lambda>_. Some sample_query)
      [(0, 9, \<lparr>rq_method = POST, rq_path = ''/track'', rq_query = []\<rparr>),
       (1, 10, \<lparr>rq_method = GET, rq_path = ''/transactions'', rq_query = []\<rparr>)]
      (sample_db, lru_tcm 1000 60) of
    (resps, s') \<Rightarrow> tables_ok (db_tables (fst s')) \<and> length resps = 2 \<and> None \<notin> set resps"
  using requests_keep_tables_ok [where s = "(sample_db, lru_tcm 1000 60)" and
      M = lru_moka and ob = rowid_sort and ser = sample_ser and ?b58.0 = ones_b58 and
      xt = "\<lambda>_. Some \<lparr>tq_address = ones, tq_action = ''add''\<rparr>" and xq = "\<lambda>_. Some sample_query" and
      reqs = "[(0, 9, \<lparr>rq_method = POST, rq_path = ''/track'', rq_query = []\<rparr>),
       (1, 10, \<lparr>rq_method = GET, rq_path = ''/transactions'', rq_query = []\<rparr>)]"]
  by (simp split: prod.split)

end
