(* ===== verification/Chain_Models.thy ===== *)
theory Chain_Models
  imports Db_Address
begin

text \<open>
  From the RPC node's answer to a stored transaction, \<^verbatim>\<open>src/blockchain/models.rs\<close>: the parts of the
  answer the code reads, \<open>extract_transaction\<close> and \<open>extract_transfer_details\<close>. The serialisation of
  a parsed instruction to JSON and the ids of the system and token programs belong to the Solana
  crates; they are the fields of the parameter \<open>pg\<close>.
\<close>

section \<open>JSON values\<close>

datatype json =
    JNull
  | JBool bool
  | JPosInt u64
  | JNegInt i64
  | JFloat f64
  | JString string
  | JArray "json list"
  | JObject "(string \<times> json) list"

text \<open>\<open>Value::get\<close> with a string, \<open>as_str\<close>, \<open>as_u64\<close>\<close>

fun json_get :: "string \<Rightarrow> json \<Rightarrow> json option" where
  "json_get k (JObject obj) = map_of obj k"
| "json_get k _ = None"

fun as_str :: "json \<Rightarrow> string option" where
  "as_str (JString s) = Some s"
| "as_str _ = None"

fun as_u64 :: "json \<Rightarrow> u64 option" where
  "as_u64 (JPosInt n) = Some n"
| "as_u64 _ = None"

section \<open>The answer of the node\<close>

record compiled_instruction =
  ci_program_id_index :: "8 word"

datatype 'pi ui_instruction = UiParsed 'pi | UiCompiled compiled_instruction

record 'pi ui_parsed_message =
  um_account_keys :: "string list"
  um_instructions :: "'pi ui_instruction list"

datatype 'pi ui_message = MsgParsed "'pi ui_parsed_message" | MsgRaw

datatype 'pi encoded_transaction = EncJson "'pi ui_message" | EncOther

record ui_meta =
  me_err :: "string option"
  me_pre_balances :: "u64 list"
  me_post_balances :: "u64 list"

record 'pi tx_data =
  td_slot :: u64
  td_block_time :: "i64 option"
  td_transaction :: "'pi encoded_transaction"
  td_meta :: "ui_meta option"

record 'pi programs =
  pg_to_value :: "'pi \<Rightarrow> json option"
  pg_system :: string
  pg_token :: string

section \<open>\<open>extract_transfer_details\<close>\<close>

type_synonym details = "string option \<times> f64 option \<times> string option"

text \<open>\<open>x as f64 / 1_000_000_000.0\<close>\<close>

definition lamports_to_sol :: "nat \<Rightarrow> f64" where
  "lamports_to_sol n = f64_div (f64_of_nat n) (f64_of_nat 1000000000)"

text \<open>Indexing a \<open>Vec\<close> panics out of bounds.\<close>

definition index_at :: "'a list \<Rightarrow> nat \<Rightarrow> ('e, 'a) res" where
  "index_at xs i = (if i < length xs then Ok (xs ! i) else Panic)"

text \<open>The \<open>info\<close> object of an instruction whose \<open>type\<close> is one of \<open>types\<close>.\<close>

definition transfer_info :: "string list \<Rightarrow> (string \<times> json) list \<Rightarrow> json option" where
  "transfer_info types obj =
     (case map_of obj ''parsed'' of
        None \<Rightarrow> None
      | Some parsed \<Rightarrow>
          (case Option.bind (json_get ''type'' parsed) as_str of
             None \<Rightarrow> None
           | Some ty \<Rightarrow> if ty \<in> set types then json_get ''info'' parsed else None))"

definition parsed_details :: "'pi programs \<Rightarrow> 'pi \<Rightarrow> details" where
  "parsed_details pg parsed_instr =
     (case (case pg_to_value pg parsed_instr of None \<Rightarrow> JNull | Some v \<Rightarrow> v) of
        JObject obj \<Rightarrow>
          (case Option.bind (map_of obj ''programId'') as_str of
             None \<Rightarrow> (None, None, None)
           | Some id_str \<Rightarrow>
               if id_str = pg_system pg then
                 (case transfer_info [''transfer'', ''transferWithSeed''] obj of
                    None \<Rightarrow> (None, None, Some id_str)
                  | Some info \<Rightarrow>
                      (Option.bind (json_get ''destination'' info) as_str,
                       map_option (\<lambda>lamports. lamports_to_sol (unat lamports))
                         (Option.bind (json_get ''lamports'' info) as_u64),
                       Some id_str))
               else if id_str = pg_token pg then
                 (case transfer_info [''transfer'', ''transferChecked''] obj of
                    None \<Rightarrow> (None, None, Some id_str)
                  | Some info \<Rightarrow>
                      (Option.bind (json_get ''destination'' info) as_str,
                       Option.bind (Option.bind (json_get ''amount'' info) as_str) parse_f64,
                       Some id_str))
               else (None, None, Some id_str))
      | _ \<Rightarrow> (None, None, None))"

text \<open>\<open>account_keys.len() as u8\<close> keeps the length modulo 256.\<close>

definition compiled_details ::
  "string list \<Rightarrow> compiled_instruction \<Rightarrow> (unit, details) res" where
  "compiled_details keys compiled =
     (if ci_program_id_index compiled < word_of_nat (length keys)
      then bind_res (index_at keys (unat (ci_program_id_index compiled)))
             (\<lambda>k. Ok (None, None, Some k))
      else Ok (None, None, None))"

definition instruction_details ::
  "'pi programs \<Rightarrow> 'pi ui_parsed_message \<Rightarrow> (unit, details) res" where
  "instruction_details pg message =
     (case um_instructions message of
        [] \<Rightarrow> Ok (None, None, None)
      | UiParsed parsed_instr # _ \<Rightarrow> Ok (parsed_details pg parsed_instr)
      | UiCompiled compiled # _ \<Rightarrow> compiled_details (um_account_keys message) compiled)"

text \<open>The scan of the balances for the largest decrease and increase.\<close>

record scan =
  sc_decrease :: i64
  sc_increase :: i64
  sc_src :: nat
  sc_dst :: nat

definition scan_step :: "nat \<times> u64 \<times> u64 \<Rightarrow> scan \<Rightarrow> scan" where
  "scan_step e s =
     (case e of (i, pre, post) \<Rightarrow>
        let change = wrap_i64 (u64_as_i64 post - u64_as_i64 pre)
        in if change < wrap_i64 (- sc_decrease s)
           then s\<lparr>sc_decrease := wrap_i64 (- change), sc_src := i\<rparr>
           else if sc_increase s < change
           then s\<lparr>sc_increase := change, sc_dst := i\<rparr>
           else s)"

definition scan_balances :: "u64 list \<Rightarrow> u64 list \<Rightarrow> scan" where
  "scan_balances pre post =
     fold scan_step (List.enumerate 0 (zip pre post))
       \<lparr>sc_decrease = 0, sc_increase = 0, sc_src = 0, sc_dst = 0\<rparr>"

definition infer_from_balances ::
  "string list \<Rightarrow> ui_meta \<Rightarrow> details \<Rightarrow> (unit, details) res" where
  "infer_from_balances keys meta dt =
     (case dt of (destination, amount, program_id) \<Rightarrow>
        if destination = None \<and> me_post_balances meta \<noteq> [] \<and> me_pre_balances meta \<noteq> [] then
          (let s = scan_balances (me_pre_balances meta) (me_post_balances meta)
           in if 0 < sc_decrease s \<and> 0 < sc_increase s \<and> sc_src s \<noteq> sc_dst s
                 \<and> sc_dst s < length keys
              then bind_res (index_at keys (sc_dst s))
                     (\<lambda>k. Ok (Some k, Some (lamports_to_sol (nat (sc_increase s))), program_id))
              else Ok dt)
        else Ok dt)"

definition extract_transfer_details ::
  "'pi programs \<Rightarrow> 'pi ui_parsed_message \<Rightarrow> ui_meta \<Rightarrow> (unit, details) res" where
  "extract_transfer_details pg message meta =
     bind_res (instruction_details pg message) (infer_from_balances (um_account_keys message) meta)"

section \<open>\<open>extract_transaction\<close>\<close>

definition extract_transaction ::
  "'pi programs \<Rightarrow> string \<Rightarrow> 'pi tx_data \<Rightarrow> (unit, transaction option) res" where
  "extract_transaction pg signature tx_data =
     (let slot = u64_as_i64 (td_slot tx_data);
          block_time = (case td_block_time tx_data of None \<Rightarrow> 0 | Some t \<Rightarrow> t)
      in case td_transaction tx_data of
        EncOther \<Rightarrow> Ok None
      | EncJson raw_message \<Rightarrow>
          (case td_meta tx_data of
             None \<Rightarrow> Ok None
           | Some meta \<Rightarrow>
               (case raw_message of
                  MsgRaw \<Rightarrow> Ok None
                | MsgParsed message \<Rightarrow>
                    (let success = (me_err meta = None)
                     in if um_account_keys message \<noteq> [] then
                          bind_res (index_at (um_account_keys message) 0) (\<lambda>source_address.
                          bind_res (extract_transfer_details pg message meta)
                            (\<lambda>(destination_address, amount, program_id).
                               Ok (Some (transaction_new signature block_time slot source_address
                                           destination_address amount program_id success))))
                        else Ok None))))"

section \<open>Extraction returns\<close>

lemma index_at_Ok [simp]: "i < length xs \<Longrightarrow> index_at xs i = Ok (xs ! i)"
  by (simp add: index_at_def)

lemma guard_in_bounds:
  fixes i :: "8 word"
  assumes "i < word_of_nat n"
  shows "unat i < n"
proof -
  have "unat i < unat (word_of_nat n :: 8 word)" using assms by (simp add: word_less_nat_alt)
  also have "\<dots> \<le> n" by (simp add: unat_of_nat)
  finally show ?thesis .
qed

lemma compiled_details_Ok:
  "compiled_details keys c =
     Ok (None, None,
       (if ci_program_id_index c < word_of_nat (length keys)
        then Some (keys ! unat (ci_program_id_index c)) else None))"
  by (auto simp: compiled_details_def dest: guard_in_bounds)

lemma instruction_details_Ok: "\<exists>dt. instruction_details pg message = Ok dt"
  by (auto simp: instruction_details_def compiled_details_Ok simp del: split_paired_Ex
      split: list.split ui_instruction.split)

lemma infer_from_balances_Ok: "\<exists>dt'. infer_from_balances keys meta dt = Ok dt'"
  by (cases dt) (auto simp: infer_from_balances_def Let_def)

lemma extract_transfer_details_Ok: "\<exists>dt. extract_transfer_details pg message meta = Ok dt"
proof -
  obtain dt where "instruction_details pg message = Ok dt" using instruction_details_Ok by blast
  then show ?thesis using infer_from_balances_Ok by (simp add: extract_transfer_details_def)
qed

text \<open>The transaction data the code can read, with its message and its metadata.\<close>

fun readable :: "'pi tx_data \<Rightarrow> ('pi ui_parsed_message \<times> ui_meta) option" where
  "readable td =
     (case (td_transaction td, td_meta td) of
        (EncJson (MsgParsed message), Some meta) \<Rightarrow>
          if um_account_keys message = [] then None else Some (message, meta)
      | _ \<Rightarrow> None)"

lemma extract_unreadable: "readable td = None \<Longrightarrow> extract_transaction pg sig td = Ok None"
  by (auto simp: extract_transaction_def Let_def split: encoded_transaction.splits
      option.splits ui_message.splits if_splits)

lemma extract_readable:
  assumes "readable td = Some (message, meta)"
    and "extract_transfer_details pg message meta = Ok (dest, amt, prog)"
  shows "extract_transaction pg sig td = Ok (Some
    \<lparr>tx_signature = sig,
     tx_block_time = (case td_block_time td of None \<Rightarrow> 0 | Some t \<Rightarrow> t),
     tx_slot = u64_as_i64 (td_slot td), tx_source = hd (um_account_keys message),
     tx_destination = dest, tx_amount = amt, tx_program_id = prog,
     tx_success = (me_err meta = None)\<rparr>)"
  using assms
  by (auto simp: extract_transaction_def transaction_new_def hd_conv_nth split:
      encoded_transaction.splits option.splits ui_message.splits if_splits)

text \<open>What extraction yields: the clients use this total function.\<close>

definition extracted :: "'pi programs \<Rightarrow> string \<Rightarrow> 'pi tx_data \<Rightarrow> transaction option" where
  "extracted pg sig td = (case extract_transaction pg sig td of Ok t \<Rightarrow> t | _ \<Rightarrow> None)"

lemma extract_transaction_total [simp]: "extract_transaction pg sig td = Ok (extracted pg sig td)"
proof (cases "readable td")
  case None
  then show ?thesis by (simp add: extracted_def extract_unreadable)
next
  case (Some p)
  obtain message meta where p: "p = (message, meta)" by fastforce
  obtain dest amt prog where "extract_transfer_details pg message meta = Ok (dest, amt, prog)"
    using extract_transfer_details_Ok by (metis prod_cases3)
  from extract_readable [OF Some [unfolded p] this] show ?thesis by (simp add: extracted_def)
qed

lemma extracted_signature: "extracted pg sig td = Some t \<Longrightarrow> tx_signature t = sig"
proof (cases "readable td")
  case None
  then show "extracted pg sig td = Some t \<Longrightarrow> tx_signature t = sig"
    by (simp add: extracted_def extract_unreadable del: extract_transaction_total)
next
  case (Some p)
  obtain message meta where p: "p = (message, meta)" by fastforce
  obtain dest amt prog where "extract_transfer_details pg message meta = Ok (dest, amt, prog)"
    using extract_transfer_details_Ok by (metis prod_cases3)
  from extract_readable [OF Some [unfolded p] this, of sig]
  show "extracted pg sig td = Some t \<Longrightarrow> tx_signature t = sig" by auto
qed

section \<open>The balance scan\<close>

text \<open>The change of each account that both balance lists name.\<close>

definition balance_changes :: "u64 list \<Rightarrow> u64 list \<Rightarrow> int list" where
  "balance_changes pre post = map (\<lambda>(a, b). uint b - uint a) (zip pre post)"

definition first_max :: "int list \<Rightarrow> nat" where
  "first_max cs = length (takeWhile (\<lambda>c. c \<noteq> Max (set cs)) cs)"

text \<open>\<open>m\<close> is the largest positive element of \<open>cs\<close>, first reached at \<open>i\<close>, or 0 if there is none.\<close>

definition peak :: "int list \<Rightarrow> int \<Rightarrow> nat \<Rightarrow> bool" where
  "peak cs m i \<longleftrightarrow> 0 \<le> m \<and> (\<forall>c \<in> set cs. c \<le> m) \<and>
     (0 < m \<longrightarrow> i < length cs \<and> cs ! i = m \<and> (\<forall>j < i. cs ! j < m))"

lemma peak_snoc_new: "peak cs m i \<Longrightarrow> m < c \<Longrightarrow> peak (cs @ [c]) c (length cs)"
proof -
  assume "peak cs m i" "m < c"
  then have "\<forall>x \<in> set cs. x < c" "0 < c" by (auto simp: peak_def)
  then show ?thesis by (auto simp: peak_def nth_append)
qed

lemma peak_snoc_old: "peak cs m i \<Longrightarrow> c \<le> m \<Longrightarrow> peak (cs @ [c]) m i"
  by (auto simp: peak_def nth_append)

lemma peak_bound: "peak cs m i \<Longrightarrow> \<forall>c \<in> set cs. c < b \<Longrightarrow> 0 < b \<Longrightarrow> m < b"
  by (force simp: peak_def)

lemma peak_first_max:
  assumes "peak cs m i" and "0 < m"
  shows "m = Max (set cs)" and "first_max cs = i"
proof -
  from assms have i: "i < length cs" "cs ! i = m" "\<forall>j < i. cs ! j < m" "\<forall>c \<in> set cs. c \<le> m"
    by (auto simp: peak_def)
  then have "m \<in> set cs" by (metis nth_mem)
  with i(4) show m: "m = Max (set cs)" by (intro Max_eqI [symmetric]) auto
  have "takeWhile (\<lambda>c. c \<noteq> m) cs = take i cs"
    using i by (intro takeWhile_eq_take_P_nth) auto
  with i(1) show "first_max cs = i" by (simp add: first_max_def flip: m)
qed

lemma peak_pos: "peak cs m i \<Longrightarrow> 0 < m \<longleftrightarrow> (\<exists>c \<in> set cs. 0 < c)"
  by (force simp: peak_def)

definition scan_ok :: "int list \<Rightarrow> scan \<Rightarrow> bool" where
  "scan_ok cs s \<longleftrightarrow> peak cs (sc_increase s) (sc_dst s) \<and> peak (map uminus cs) (sc_decrease s) (sc_src s)"

lemma scan_step_ok:
  assumes "scan_ok cs s" and "\<forall>c \<in> set ((uint post - uint pre) # cs). \<bar>c\<bar> < 2 ^ 63"
    and "uint pre < 2 ^ 63" "uint post < 2 ^ 63"
  shows "scan_ok (cs @ [uint post - uint pre]) (scan_step (length cs, pre, post) s)"
proof -
  let ?c = "uint post - uint pre"
  have inc: "peak cs (sc_increase s) (sc_dst s)"
    and dec: "peak (map uminus cs) (sc_decrease s) (sc_src s)"
    using assms(1) by (simp_all add: scan_ok_def)
  have d: "0 \<le> sc_decrease s" "sc_decrease s < 2 ^ 63"
    using dec peak_bound [OF dec, of "2 ^ 63"] assms(2) by (force simp: peak_def)+
  have i0: "0 \<le> sc_increase s" using inc by (simp add: peak_def)
  have c: "\<bar>?c\<bar> < 2 ^ 63" using assms(2) by simp
  have "i64_ok ?c" "i64_ok (- ?c)" "i64_ok (- sc_decrease s)"
    using c d unfolding i64_ok_def by linarith+
  then have step: "scan_step (length cs, pre, post) s =
      (if ?c < - sc_decrease s then s\<lparr>sc_decrease := - ?c, sc_src := length cs\<rparr>
       else if sc_increase s < ?c then s\<lparr>sc_increase := ?c, sc_dst := length cs\<rparr> else s)"
    using assms(3,4) by (simp add: scan_step_def Let_def u64_as_i64_small)
  consider "?c < - sc_decrease s" | "- sc_decrease s \<le> ?c" "sc_increase s < ?c"
    | "- sc_decrease s \<le> ?c" "?c \<le> sc_increase s" by linarith
  then show ?thesis
  proof cases
    case 1
    then show ?thesis
      using peak_snoc_new [OF dec, of "- ?c"] peak_snoc_old [OF inc, of ?c] d i0
      by (simp add: step scan_ok_def)
  next
    case 2
    then show ?thesis
      using peak_snoc_new [OF inc, of ?c] peak_snoc_old [OF dec, of "- ?c"]
      by (simp add: step scan_ok_def)
  next
    case 3
    then show ?thesis
      using peak_snoc_old [OF inc, of ?c] peak_snoc_old [OF dec, of "- ?c"]
      by (simp add: step scan_ok_def)
  qed
qed

lemma change_small:
  fixes a b :: u64
  assumes "uint a < 2 ^ 63" "uint b < 2 ^ 63"
  shows "\<bar>uint b - uint a\<bar> < 2 ^ 63"
proof -
  have "0 \<le> uint a" "0 \<le> uint b" by (rule uint_ge_0)+
  with assms show ?thesis by linarith
qed

lemma scan_fold_ok:
  assumes "\<forall>(a, b) \<in> set ps. uint a < 2 ^ 63 \<and> uint b < 2 ^ 63"
  shows "scan_ok (map (\<lambda>(a, b). uint b - uint a) ps) (fold scan_step (List.enumerate 0 ps)
    \<lparr>sc_decrease = 0, sc_increase = 0, sc_src = 0, sc_dst = 0\<rparr>)"
  using assms
proof (induction ps rule: rev_induct)
  case Nil
  then show ?case by (simp add: scan_ok_def peak_def)
next
  case (snoc p ps)
  obtain a b where p: "p = (a, b)" by fastforce
  let ?cs = "map (\<lambda>(a, b). uint b - uint a) ps"
  have "\<forall>c \<in> set ((uint b - uint a) # ?cs). \<bar>c\<bar> < 2 ^ 63"
    using snoc.prems p change_small by fastforce
  from scan_step_ok [OF snoc.IH this] snoc.prems p show ?case
    by (simp add: enumerate_append_eq)
qed

lemma scan_balances_ok:
  assumes "\<forall>b \<in> set pre \<union> set post. uint b < 2 ^ 63"
  shows "scan_ok (balance_changes pre post) (scan_balances pre post)"
  unfolding balance_changes_def scan_balances_def
  by (rule scan_fold_ok) (use assms in \<open>auto dest: set_zip_leftD set_zip_rightD\<close>)

section \<open>Lamports to SOL\<close>

lemma giga: "f64_of_nat 1000000000 = F64 False (1000000000 * 2 ^ 23) (- 23)"
  by (simp add: f64_of_nat_def f64_of_ratio_def ratio_exp_def scaled_def rne_def bits.simps Let_def)

lemma lamports_to_sol_zero [simp]: "lamports_to_sol 0 = F64 False 0 0"
proof -
  have "f64_of_nat 0 = F64 False 0 0" by (simp add: f64_of_nat_def f64_of_ratio_def)
  then show ?thesis by (simp add: lamports_to_sol_def giga f64_of_ratio_def f64_signed_def)
qed

text \<open>Two roundings, each with a relative error of at most \<open>d\<close>.\<close>

lemma two_roundings:
  fixes n x y d g :: real
  assumes "\<bar>x - n\<bar> \<le> n * d" and "\<bar>y - x / g\<bar> \<le> x / g * d" and "0 \<le> n" "0 < g" "0 \<le> d" "d \<le> 1"
  shows "\<bar>y - n / g\<bar> \<le> n / g * (3 * d)"
proof -
  have x: "x \<le> n + n * d" using assms(1) by linarith
  have "x * d \<le> (n + n * d) * d" using x assms(5) by (rule mult_right_mono)
  also have "n * d * d \<le> n * d * 1"
    using assms(3,5,6) by (intro mult_left_mono) simp_all
  then have "(n + n * d) * d \<le> n * (2 * d)" by (simp add: algebra_simps)
  finally have xd: "x * d / g \<le> n * (2 * d) / g" using assms(4) by (simp add: divide_right_mono)
  have "\<bar>x / g - n / g\<bar> = \<bar>x - n\<bar> / g"
    using assms(4) by (simp flip: diff_divide_distrib)
  also have "\<dots> \<le> n * d / g" using assms(1,4) by (simp add: divide_right_mono)
  finally have "\<bar>y - n / g\<bar> \<le> x / g * d + n * d / g" using assms(2) by linarith
  also have "x / g * d = x * d / g" by simp
  also have "x * d / g + n * d / g \<le> n * (2 * d) / g + n * d / g" by (rule add_right_mono [OF xd])
  also have "\<dots> = n / g * (3 * d)" using assms(4) by (simp add: field_simps)
  finally show ?thesis .
qed

section \<open>Properties\<close>

text \<open>C33. Extraction never panics. It yields nothing exactly when the transaction is not JSON encoded,
  has no metadata, an unparsed message or no account keys; otherwise it yields the transaction with
  the given signature, the slot and block time of the answer (0 if it has none), the first account
  as its source, the transfer details of the message, and success exactly if there is no error.\<close>

theorem extract_transaction_result:
  "case readable td of
     None \<Rightarrow> extract_transaction pg sig td = Ok None
   | Some (message, meta) \<Rightarrow>
       (\<exists>dest amt prog. extract_transfer_details pg message meta = Ok (dest, amt, prog) \<and>
          extract_transaction pg sig td = Ok (Some
            \<lparr>tx_signature = sig,
             tx_block_time = (case td_block_time td of None \<Rightarrow> 0 | Some t \<Rightarrow> t),
             tx_slot = u64_as_i64 (td_slot td), tx_source = hd (um_account_keys message),
             tx_destination = dest, tx_amount = amt, tx_program_id = prog,
             tx_success = (me_err meta = None)\<rparr>))"
proof (cases "readable td")
  case None
  show ?thesis unfolding None option.case by (rule extract_unreadable [OF None])
next
  case (Some p)
  obtain message meta where p: "p = (message, meta)" by fastforce
  obtain dest amt prog where d: "extract_transfer_details pg message meta = Ok (dest, amt, prog)"
    using extract_transfer_details_Ok by (metis prod_cases3)
  show ?thesis
    unfolding Some p option.case prod.case
    by (intro exI conjI, rule d, rule extract_readable [OF Some [unfolded p] d])
qed

text \<open>C34. With balances below 2^63 lamports, an instruction that names no destination gets one exactly when
  some account lost and some account gained lamports: the account with the largest gain, the first of
  them, if the message lists it, with its gain as the amount. Otherwise nothing changes.\<close>

theorem inferred_transfer:
  assumes "\<forall>b \<in> set (me_pre_balances meta) \<union> set (me_post_balances meta). uint b < 2 ^ 63"
  shows "infer_from_balances keys meta (None, amount, program_id) =
    (let cs = balance_changes (me_pre_balances meta) (me_post_balances meta)
     in if (\<exists>c \<in> set cs. c < 0) \<and> (\<exists>c \<in> set cs. 0 < c) \<and> first_max cs < length keys
        then Ok (Some (keys ! first_max cs), Some (lamports_to_sol (nat (Max (set cs)))), program_id)
        else Ok (None, amount, program_id))"
proof -
  let ?pre = "me_pre_balances meta" and ?post = "me_post_balances meta"
  let ?cs = "balance_changes ?pre ?post" and ?s = "scan_balances ?pre ?post"
  from scan_balances_ok [OF assms] have inc: "peak ?cs (sc_increase ?s) (sc_dst ?s)"
    and dec: "peak (map uminus ?cs) (sc_decrease ?s) (sc_src ?s)"
    by (simp_all add: scan_ok_def)
  have neg: "0 < sc_decrease ?s \<longleftrightarrow> (\<exists>c \<in> set ?cs. c < 0)" using peak_pos [OF dec] by auto
  have diff: "sc_src ?s \<noteq> sc_dst ?s" if "0 < sc_decrease ?s" "0 < sc_increase ?s"
  proof
    assume "sc_src ?s = sc_dst ?s"
    moreover have "?cs ! sc_dst ?s = sc_increase ?s" "sc_src ?s < length ?cs"
      "- ?cs ! sc_src ?s = sc_decrease ?s"
      using inc dec that by (auto simp: peak_def)
    ultimately show False using that by simp
  qed
  show ?thesis
  proof (cases "?pre = [] \<or> ?post = []")
    case True
    then have "?cs = []" by (auto simp: balance_changes_def)
    with True show ?thesis by (auto simp: infer_from_balances_def)
  next
    case False
    have eq: "infer_from_balances keys meta (None, amount, program_id) =
      (if 0 < sc_decrease ?s \<and> 0 < sc_increase ?s \<and> sc_dst ?s < length keys
       then Ok (Some (keys ! sc_dst ?s), Some (lamports_to_sol (nat (sc_increase ?s))), program_id)
       else Ok (None, amount, program_id))"
      using False diff by (simp add: infer_from_balances_def Let_def)
    show ?thesis
    proof (cases "0 < sc_increase ?s")
      case True
      from peak_first_max [OF inc True] show ?thesis
        using True peak_pos [OF inc] by (simp add: eq Let_def neg)
    next
      case False
      then show ?thesis unfolding eq Let_def using peak_pos [OF inc] by (simp only: if_False simp_thms)
    qed
  qed
qed

theorem inferred_transfer_witness:
  "infer_from_balances [''a'', ''b'', ''c''] \<lparr>me_err = None, me_pre_balances = [100, 5, 5],
       me_post_balances = [60, 5, 40]\<rparr> (None, None, None) =
   Ok (Some ''c'', Some (lamports_to_sol 35), None)"
proof -
  let ?meta = "\<lparr>me_err = None, me_pre_balances = [100, 5, 5], me_post_balances = [60, 5, 40]\<rparr>"
  have cs: "balance_changes [100, 5, 5] [60, 5, 40] = [- 40, 0, 35]"
    by (simp add: balance_changes_def)
  have fm: "first_max [- 40, 0, 35] = 2" by (simp add: first_max_def)
  show ?thesis
    by (subst inferred_transfer, simp, simp add: Let_def cs fm)
qed

text \<open>C35. The conversion of any 64-bit lamport amount to SOL is finite and within a relative error of
  three units in 2^53 of the exact quotient by 10^9.\<close>

theorem lamports_to_sol_accurate:
  assumes "n < 2 ^ 64"
  shows "f64_finite (lamports_to_sol n) \<and>
    \<bar>f64_val (lamports_to_sol n) - real n / 10 ^ 9\<bar> \<le> real n / 10 ^ 9 * (3 * 2 powi (- 53))"
proof (cases "n = 0")
  case True
  then show ?thesis by simp
next
  case False
  let ?d = "2 powi (- 53) :: real"
  have small: "?d \<le> 1 / 2" using powi_mono_real [of "- 53" "- 1"] by simp
  have tiny: "(2::real) powi (- 1000) \<le> 2 powi (- 40)"
    using powi_mono_real [of "- 1000" "- 40"] by linarith
  have big: "(2::real) powi 70 < 2 powi 1000" using powi_mono_real by simp
  have n1: "1 \<le> real n" using False by linarith
  have n2: "real n < 2 powi 64" using assms by (simp add: power_int_def flip: of_nat_less_iff)
  obtain m e where m: "f64_of_ratio n 1 = F64 False m e" "0 < m"
    and em: "\<bar>real m * 2 powi e - real n\<bar> \<le> real n * ?d"
  proof (rule f64_of_ratio_normal [of n 1])
    show "(2::real) powi (- 1000) \<le> real n / real 1"
      using powi_mono_real [of "- 1000" 0] n1 by simp
    show "real n / real 1 < 2 powi 1000" using n2 powi_mono_real [of 64 1000] by simp
  qed (use False in auto)
  let ?x = "real m * 2 powi e"
  have "real n * ?d \<le> real n * (1 / 2)" by (rule mult_left_mono [OF small]) simp
  moreover have p64: "(2::real) powi 65 = 2 * 2 powi 64" by (simp add: power_int_def)
  ultimately have x1: "1 / 2 \<le> ?x" and x2: "?x < 2 powi 65"
    using em n1 n2 unfolding p64 by linarith+
  obtain p q where pq: "0 < p" "0 < q"
    "f64_div (F64 False m e) (F64 False (1000000000 * 2 ^ 23) (- 23)) = f64_of_ratio p q"
    "real p / real q = ?x / (real (1000000000 * 2 ^ 23) * 2 powi (- 23))"
    by (rule f64_div_ratio [OF m(2), of "1000000000 * 2 ^ 23" e "- 23"]) auto
  have g: "real (1000000000 * 2 ^ 23) * 2 powi (- 23) = 10 ^ 9"
    by (simp add: power_int_def power_divide)
  have quot: "real p / real q = ?x / 10 ^ 9" using pq(4) unfolding g .
  obtain k f where k: "f64_of_ratio p q = F64 False k f"
    and ek: "\<bar>real k * 2 powi f - real p / real q\<bar> \<le> real p / real q * ?d"
  proof (rule f64_of_ratio_normal [OF pq(1,2)])
    show "(2::real) powi (- 1000) \<le> real p / real q"
    proof -
      have "(2::real) powi (- 40) \<le> 1 / 2 / 10 ^ 9" by (simp add: power_int_def power_divide)
      also have "\<dots> \<le> ?x / 10 ^ 9" by (rule divide_right_mono [OF x1]) simp
      finally show ?thesis unfolding quot using tiny by linarith
    qed
    show "real p / real q < 2 powi 1000"
    proof -
      have "?x / 10 ^ 9 < 2 powi 65 / 10 ^ 9" by (rule divide_strict_right_mono [OF x2]) simp
      also have "\<dots> < 2 powi 70" by (simp add: power_int_def)
      finally show ?thesis unfolding quot using big by linarith
    qed
  qed auto
  have val: "lamports_to_sol n = F64 False k f"
    unfolding lamports_to_sol_def giga using m pq(3) k by (simp add: f64_of_nat_def)
  have "\<bar>real k * 2 powi f - real n / 10 ^ 9\<bar> \<le> real n / 10 ^ 9 * (3 * ?d)"
    by (rule two_roundings [OF em]) (use ek quot small in auto)
  then show ?thesis by (simp add: val)
qed

theorem lamports_to_sol_accurate_witness:
  "\<bar>f64_val (lamports_to_sol 100000000) - real 100000000 / 10 ^ 9\<bar> \<le>
     real 100000000 / 10 ^ 9 * (3 * 2 powi (- 53))"
  using lamports_to_sol_accurate [of 100000000] by simp

text \<open>The first instruction of a message, when it is a system transfer with a destination and an
  unsigned amount, decides the details: that destination, the amount in SOL, the system program;
  the balances are not consulted.\<close>

theorem system_transfer_extracted:
  assumes "um_instructions message = UiParsed pin # rest"
    and "pg_to_value pg pin = Some (JObject obj)"
    and "map_of obj ''programId'' = Some (JString (pg_system pg))"
    and "map_of obj ''parsed'' = Some parsed"
    and "json_get ''type'' parsed = Some (JString ty)" and "ty \<in> {''transfer'', ''transferWithSeed''}"
    and "json_get ''info'' parsed = Some info"
    and "json_get ''destination'' info = Some (JString dest)"
    and "json_get ''lamports'' info = Some (JPosInt lamports)"
  shows "extract_transfer_details pg message meta =
    Ok (Some dest, Some (lamports_to_sol (unat lamports)), Some (pg_system pg))"
  using assms
  by (auto simp: extract_transfer_details_def instruction_details_def parsed_details_def
      transfer_info_def infer_from_balances_def)

definition sample_pg :: "json programs" where
  "sample_pg = \<lparr>pg_to_value = Some, pg_system = ones, pg_token = ''token''\<rparr>"

definition sample_instr :: json where
  "sample_instr = JObject [(''programId'', JString ones), (''parsed'', JObject
     [(''type'', JString ''transfer''),
      (''info'', JObject [(''destination'', JString ''d''), (''lamports'', JPosInt 7)])])]"

theorem system_transfer_extracted_witness:
  "extract_transfer_details sample_pg
     \<lparr>um_account_keys = [''k''], um_instructions = [UiParsed sample_instr]\<rparr>
     \<lparr>me_err = None, me_pre_balances = [], me_post_balances = []\<rparr> =
   Ok (Some ''d'', Some (lamports_to_sol (unat (7 :: u64))), Some (pg_system sample_pg))"
proof (rule system_transfer_extracted)
  let ?info = "JObject [(''destination'', JString ''d''), (''lamports'', JPosInt 7)]"
  let ?parsed = "JObject [(''type'', JString ''transfer''), (''info'', ?info)]"
  show "pg_to_value sample_pg sample_instr =
      Some (JObject [(''programId'', JString ones), (''parsed'', ?parsed)])"
    by (simp add: sample_pg_def sample_instr_def)
  show "map_of [(''programId'', JString ones), (''parsed'', ?parsed)] ''parsed'' = Some ?parsed"
    "json_get ''type'' ?parsed = Some (JString ''transfer'')"
    "json_get ''info'' ?parsed = Some ?info"
    by simp_all
qed (simp_all add: sample_pg_def)

end
