(* ===== verification/Client.thy ===== *)
theory Client
  imports Config Chain_Models
begin

text \<open>
  The RPC client, \<^verbatim>\<open>src/blockchain/client.rs\<close>: its errors, the construction from the configuration,
  the rate limit, the retries and the calls. The node, the rate limiter (\<open>governor\<close>), the parsers of
  signatures and public keys and the retry loop (\<open>backon\<close>) are fields of the parameter \<open>rp\<close>; \<open>'w\<close> is
  the state they share, so that two calls need not have the same answer. An error of the Solana client
  is represented by its text, the only thing of it the code looks at.
\<close>

section \<open>Errors\<close>

datatype client_error =
    RpcError string
  | SignatureError string
  | PubkeyError string
  | TransactionNotFound string
  | RateLimited
  | NetworkError string
  | MaxRetriesExceeded

fun is_network_error :: "client_error \<Rightarrow> bool" where
  "is_network_error (RpcError e) \<longleftrightarrow>
     str_contains e ''timed out'' \<or> str_contains e ''connection refused'' \<or>
     str_contains e ''reset by peer''"
| "is_network_error (NetworkError _) \<longleftrightarrow> True"
| "is_network_error _ \<longleftrightarrow> False"

section \<open>The client\<close>

datatype commitment = Processed | Confirmed | Finalized

record solana_client =
  cl_url :: string
  cl_timeout :: nat
  cl_commitment :: commitment
  cl_rps :: nat

definition commitment_of :: "string \<Rightarrow> commitment" where
  "commitment_of level =
     (if level = ''processed'' then Processed
      else if level = ''confirmed'' then Confirmed
      else if level = ''finalized'' then Finalized
      else Confirmed)"

text \<open>\<open>NonZeroU32::new(rps).unwrap()\<close> panics for a limit of 0.\<close>

definition solana_client_new :: "config \<Rightarrow> ('e, solana_client) res" where
  "solana_client_new config =
     (let rps = (case rpc_rate_limit config of None \<Rightarrow> 5 | Some r \<Rightarrow> r)
      in if rps = 0 then Panic
         else Ok \<lparr>cl_url = solana_rpc_url config, cl_timeout = rpc_timeout_secs config,
                  cl_commitment = commitment_of (solana_commitment_level config), cl_rps = rps\<rparr>)"

record sig_info =
  si_signature :: string
  si_slot :: u64
  si_block_time :: "i64 option"

text \<open>The retry policy, with its delays in milliseconds; the jitter added to them is left to the loop.\<close>

record retry_policy =
  po_min_delay :: nat
  po_max_delay :: nat
  po_max_times :: nat

definition client_retry_policy :: retry_policy where
  "client_retry_policy = \<lparr>po_min_delay = 100, po_max_delay = 10000, po_max_times = 5\<rparr>"

type_synonym bytes = "8 word list"
type_synonym ('w, 'a) call = "('w, client_error, 'a) sm"

record ('w, 'pi) rpc =
  rp_check :: "'w \<Rightarrow> bool \<times> 'w"
  rp_wait :: "'w \<Rightarrow> 'w"
  rp_parse_signature :: "string \<Rightarrow> bytes option"
  rp_parse_pubkey :: "string \<Rightarrow> bytes option"
  rp_get_slot :: "commitment \<Rightarrow> ('w, string, u64) sm"
  rp_get_block_time :: "u64 \<Rightarrow> ('w, string, i64) sm"
  rp_get_transaction :: "bytes \<Rightarrow> commitment \<Rightarrow> ('w, string, 'pi tx_data) sm"
  rp_get_signatures :: "bytes \<Rightarrow> bytes option \<Rightarrow> bytes option \<Rightarrow> nat option \<Rightarrow> commitment \<Rightarrow>
    ('w, string, sig_info list) sm"
  rp_get_account :: "bytes \<Rightarrow> commitment \<Rightarrow> ('w, string, unit) sm"
  rp_pause :: "retry_policy \<Rightarrow> nat \<Rightarrow> 'w \<Rightarrow> 'w"
  rp_retry_slot :: "retry_policy \<Rightarrow> ('w, u64) call \<Rightarrow> ('w, u64) call"
  rp_retry_time :: "retry_policy \<Rightarrow> ('w, i64 option) call \<Rightarrow> ('w, i64 option) call"
  rp_retry_transaction :: "retry_policy \<Rightarrow> ('w, 'pi tx_data) call \<Rightarrow> ('w, 'pi tx_data) call"
  rp_retry_signatures :: "retry_policy \<Rightarrow> ('w, sig_info list) call \<Rightarrow> ('w, sig_info list) call"
  rp_retry_exists :: "retry_policy \<Rightarrow> ('w, bool) call \<Rightarrow> ('w, bool) call"

text \<open>After waiting, the operation runs without another check of the limiter.\<close>

definition rate_limited :: "('w, 'pi) rpc \<Rightarrow> ('w, 'a) call \<Rightarrow> ('w, 'a) call" where
  "rate_limited rp operation w =
     (case rp_check rp w of
        (True, w1) \<Rightarrow> operation w1
      | (False, w1) \<Rightarrow> operation (rp_wait rp w1))"

definition classify :: "string \<Rightarrow> client_error" where
  "classify e =
     (if str_contains e ''timed out'' \<or> str_contains e ''connection refused''
      then NetworkError e else RpcError e)"

text \<open>The outcome of a node call: its error either counts as the value \<open>v\<close> or is classified.\<close>

definition or_value :: "string \<Rightarrow> 'b \<Rightarrow> (string, 'b) res \<Rightarrow> (client_error, 'b) res" where
  "or_value marker v r =
     (case r of
        Ok x \<Rightarrow> Ok x
      | Err e \<Rightarrow> if str_contains e marker then Ok v else Err (classify e)
      | Panic \<Rightarrow> Panic)"

definition map_ok :: "('a \<Rightarrow> 'b) \<Rightarrow> ('e, 'a) res \<Rightarrow> ('e, 'b) res" where
  "map_ok f r = (case r of Ok x \<Rightarrow> Ok (f x) | Err e \<Rightarrow> Err e | Panic \<Rightarrow> Panic)"

definition get_slot :: "('w, 'pi) rpc \<Rightarrow> solana_client \<Rightarrow> ('w, u64) call" where
  "get_slot rp cl =
     rp_retry_slot rp client_retry_policy (rate_limited rp (map_err_st classify (rp_get_slot rp (cl_commitment cl))))"

definition get_block_time :: "('w, 'pi) rpc \<Rightarrow> solana_client \<Rightarrow> u64 \<Rightarrow> ('w, i64 option) call" where
  "get_block_time rp cl slot =
     rp_retry_time rp client_retry_policy (rate_limited rp (\<lambda>w.
       case rp_get_block_time rp slot w of
         (r, w1) \<Rightarrow> (or_value ''not available for slot'' None (map_ok Some r), w1)))"

definition get_transaction ::
  "('w, 'pi) rpc \<Rightarrow> solana_client \<Rightarrow> string \<Rightarrow> ('w, 'pi tx_data) call" where
  "get_transaction rp cl signature_str =
     (case rp_parse_signature rp signature_str of
        None \<Rightarrow> lift_st (Err (SignatureError signature_str))
      | Some signature \<Rightarrow>
          rp_retry_transaction rp client_retry_policy (rate_limited rp
            (map_err_st classify (rp_get_transaction rp signature (cl_commitment cl)))))"

definition parse_optional ::
  "('w, 'pi) rpc \<Rightarrow> string option \<Rightarrow> (client_error, bytes option) res" where
  "parse_optional rp s =
     (case s of
        None \<Rightarrow> Ok None
      | Some sig \<Rightarrow> map_ok Some (ok_or (SignatureError sig) (rp_parse_signature rp sig)))"

definition get_signatures_for_address ::
  "('w, 'pi) rpc \<Rightarrow> solana_client \<Rightarrow> string \<Rightarrow> string option \<Rightarrow> string option \<Rightarrow> nat option \<Rightarrow>
   ('w, sig_info list) call" where
  "get_signatures_for_address rp cl address before until limit =
     bind_st (lift_st (ok_or (PubkeyError address) (rp_parse_pubkey rp address))) (\<lambda>pubkey.
     bind_st (lift_st (parse_optional rp before)) (\<lambda>before_sig.
     bind_st (lift_st (parse_optional rp until)) (\<lambda>until_sig.
       rp_retry_signatures rp client_retry_policy (rate_limited rp
         (map_err_st classify
           (rp_get_signatures rp pubkey before_sig until_sig limit (cl_commitment cl)))))))"

definition address_exists :: "('w, 'pi) rpc \<Rightarrow> solana_client \<Rightarrow> string \<Rightarrow> ('w, bool) call" where
  "address_exists rp cl address =
     bind_st (lift_st (ok_or (PubkeyError address) (rp_parse_pubkey rp address))) (\<lambda>pubkey.
       rp_retry_exists rp client_retry_policy (rate_limited rp (\<lambda>w.
         case rp_get_account rp pubkey (cl_commitment cl) w of
           (r, w1) \<Rightarrow> (or_value ''account not found'' False (map_ok (\<lambda>_. True) r), w1))))"

section \<open>The retry loop\<close>

text \<open>
  Attempts that fail one after the other, from the \<open>k\<close>th on: each begins in the state in which the
  pause after the one before ended, the last pause ends in \<open>v\<close>.
\<close>

fun failing ::
  "(nat \<Rightarrow> 'w \<Rightarrow> 'w) \<Rightarrow> ('w, 'a) call \<Rightarrow> nat \<Rightarrow> 'w \<Rightarrow> client_error list \<Rightarrow> 'w \<Rightarrow> bool" where
  "failing pause m k w [] v \<longleftrightarrow> v = w"
| "failing pause m k w (e # es) v \<longleftrightarrow>
     (case m w of
        (Err f, w1) \<Rightarrow> f = e \<and> failing pause m (Suc k) (pause k w1) es v
      | _ \<Rightarrow> False)"

text \<open>
  What \<open>retry\<close> of \<open>backon\<close> promises for a policy with a maximal number of retries, without a
  \<open>when\<close> condition: attempts follow each other as long as they fail, with a pause before each retry;
  the outcome is that of the last attempt, and it is an error only if all retries were made.
\<close>

locale retrier =
  fixes rt :: "retry_policy \<Rightarrow> ('w, 'a) call \<Rightarrow> ('w, 'a) call"
    and pause :: "retry_policy \<Rightarrow> nat \<Rightarrow> 'w \<Rightarrow> 'w"
  assumes rt_attempts: "rt pol m w = (r, w') \<Longrightarrow>
    \<exists>es v. failing (pause pol) m 0 w es v \<and> m v = (r, w') \<and> length es \<le> po_max_times pol \<and>
      ((\<exists>e. r = Err e) \<longrightarrow> length es = po_max_times pol)"
begin

lemma rt_first:
  assumes "m w = (Ok x, w')"
  shows "rt pol m w = (Ok x, w')"
proof -
  obtain r w1 where r: "rt pol m w = (r, w1)" by fastforce
  obtain es v where f: "failing (pause pol) m 0 w es v" "m v = (r, w1)"
    using rt_attempts [OF r] by blast
  then have "es = []" using assms by (cases es) auto
  with f assms r show ?thesis by simp
qed

end

text \<open>
  The requests that fail at the node, from the \<open>k\<close>th attempt on, up to the state \<open>w'\<close> after the last:
  each waits for the limiter first, and a pause follows all but the last.
\<close>

definition past_limiter :: "('w, 'pi) rpc \<Rightarrow> 'w \<Rightarrow> 'w" where
  "past_limiter rp w = (case rp_check rp w of (True, w1) \<Rightarrow> w1 | (False, w1) \<Rightarrow> rp_wait rp w1)"

lemma rate_limited_past: "rate_limited rp m w = m (past_limiter rp w)"
  by (simp add: rate_limited_def past_limiter_def split: prod.split bool.split)

fun requests_fail ::
  "('w, 'pi) rpc \<Rightarrow> (nat \<Rightarrow> 'w \<Rightarrow> 'w) \<Rightarrow> ('w, string, 'a) sm \<Rightarrow> nat \<Rightarrow> 'w \<Rightarrow> string list \<Rightarrow> 'w \<Rightarrow> bool" where
  "requests_fail rp pause req k w [] w' \<longleftrightarrow> w' = w"
| "requests_fail rp pause req k w (e # es) w' \<longleftrightarrow>
     (case req (past_limiter rp w) of
        (Err f, w1) \<Rightarrow> f = e \<and>
          (if es = [] then w' = w1 else requests_fail rp pause req (Suc k) (pause k w1) es w')
      | _ \<Rightarrow> False)"

lemma failing_requests:
  "failing pause (rate_limited rp (map_err_st classify req)) k w es v \<Longrightarrow>
   rate_limited rp (map_err_st classify req) v = (Err err, w') \<Longrightarrow>
   \<exists>fs. length fs = Suc (length es) \<and> requests_fail rp pause req k w fs w' \<and> err = classify (last fs)"
proof (induction es arbitrary: k w)
  case Nil
  then obtain f where "req (past_limiter rp w) = (Err f, w')" "err = classify f"
    by (auto simp: rate_limited_past map_err_st_def res_iff split: prod.splits)
  then show ?case by (intro exI [of _ "[f]"]) simp
next
  case (Cons e es)
  obtain q w1 where q: "req (past_limiter rp w) = (q, w1)" by fastforce
  then have m: "rate_limited rp (map_err_st classify req) w = (map_err classify q, w1)"
    by (simp add: rate_limited_past map_err_st_def)
  then obtain f where f: "req (past_limiter rp w) = (Err f, w1)"
    and rest: "failing pause (rate_limited rp (map_err_st classify req)) (Suc k) (pause k w1) es v"
    using Cons.prems(1) q by (cases q) auto
  from Cons.IH [OF rest Cons.prems(2)] obtain fs where fs: "length fs = Suc (length es)"
    "requests_fail rp pause req (Suc k) (pause k w1) fs w'" "err = classify (last fs)"
    by blast
  then have "fs \<noteq> []" by auto
  with f fs show ?case by (intro exI [of _ "f # fs"]) simp
qed

context retrier
begin

text \<open>An error after the retries: as many failed requests as the policy allows, and the classified last
  error.\<close>

lemma rt_classified:
  assumes "rt pol (rate_limited rp (map_err_st classify req)) w = (Err err, w')"
  shows "\<exists>fs. length fs = Suc (po_max_times pol) \<and> requests_fail rp (pause pol) req 0 w fs w' \<and>
    err = classify (last fs)"
proof -
  obtain es v where es: "failing (pause pol) (rate_limited rp (map_err_st classify req)) 0 w es v"
    "rate_limited rp (map_err_st classify req) v = (Err err, w')" "length es = po_max_times pol"
    using rt_attempts [OF assms] by blast
  from failing_requests [OF es(1,2)] es(3) show ?thesis by simp
qed

end

text \<open>A retry loop of the kind: up to \<open>n\<close> further attempts, with a pause before each.\<close>

fun retry_n :: "nat \<Rightarrow> nat \<Rightarrow> (nat \<Rightarrow> 'w \<Rightarrow> 'w) \<Rightarrow> ('w, 'a) call \<Rightarrow> ('w, 'a) call" where
  "retry_n 0 k pause m w = m w"
| "retry_n (Suc n) k pause m w =
     (case m w of
        (Err e, w1) \<Rightarrow> retry_n n (Suc k) pause m (pause k w1)
      | out \<Rightarrow> out)"

lemma retry_n_attempts:
  "retry_n n k pause m w = (r, w') \<Longrightarrow>
   \<exists>es v. failing pause m k w es v \<and> m v = (r, w') \<and> length es \<le> n \<and>
     ((\<exists>e. r = Err e) \<longrightarrow> length es = n)"
proof (induction n arbitrary: k w)
  case 0
  then show ?case by (intro exI [of _ "[]"]) simp
next
  case (Suc n)
  obtain q w1 where q: "m w = (q, w1)" by fastforce
  show ?case
  proof (cases "\<exists>e. q = Err e")
    case True
    then obtain e where e: "q = Err e" ..
    with Suc.prems q have "retry_n n (Suc k) pause m (pause k w1) = (r, w')" by simp
    from Suc.IH [OF this] obtain es v where "failing pause m (Suc k) (pause k w1) es v"
      "m v = (r, w')" "length es \<le> n" "(\<exists>e. r = Err e) \<longrightarrow> length es = n"
      by blast
    with q e show ?thesis by (intro exI [of _ "e # es"] exI [of _ v]) simp
  next
    case False
    with Suc.prems q have "m w = (r, w') \<and> (\<forall>e. r \<noteq> Err e)" by (cases q) auto
    then show ?thesis by (intro exI [of _ "[]"]) simp
  qed
qed

definition retry_loop ::
  "(retry_policy \<Rightarrow> nat \<Rightarrow> 'w \<Rightarrow> 'w) \<Rightarrow> retry_policy \<Rightarrow> ('w, 'a) call \<Rightarrow> ('w, 'a) call" where
  "retry_loop pause pol = retry_n (po_max_times pol) 0 (pause pol)"

interpretation backoff: retrier "retry_loop pause" pause
  unfolding retry_loop_def by unfold_locales (rule retry_n_attempts)

lemma retry_loop_first: "m w = (Ok x, w') \<Longrightarrow> retry_loop pause pol m w = (Ok x, w')"
  by (rule backoff.rt_first)

section \<open>Behaviour\<close>

lemma is_network_error_classify:
  "is_network_error (classify e) \<longleftrightarrow>
     str_contains e ''timed out'' \<or> str_contains e ''connection refused'' \<or>
     str_contains e ''reset by peer''"
  by (simp add: classify_def)

lemma get_transaction_bad_signature:
  "rp_parse_signature rp s = None \<Longrightarrow> get_transaction rp cl s w = (Err (SignatureError s), w)"
  by (simp add: get_transaction_def lift_st_def)

lemma get_signatures_parsed:
  assumes "rp_parse_pubkey rp address = Some pubkey"
    and "parse_optional rp before = Ok b" and "parse_optional rp until = Ok u"
  shows "get_signatures_for_address rp cl address before until limit =
    rp_retry_signatures rp client_retry_policy (rate_limited rp
      (map_err_st classify (rp_get_signatures rp pubkey b u limit (cl_commitment cl))))"
  using assms by (simp add: get_signatures_for_address_def bind_st_def lift_st_def fun_eq_iff)

text \<open>C36. \<open>get_transaction\<close> fails in two ways only: a signature that does not parse, without a request; or
  six requests to the node in a row, the first at once, each through the rate limiter and each later one
  after the pause that follows the one before, all answered with an error, whatever the errors are
  (none of them ends the retries), up to the state in which the call returns. Then the error is the
  classified last one, a network error exactly when its text names a time-out, a refused or a reset
  connection.\<close>

theorem get_transaction_errors:
  assumes "retrier (rp_retry_transaction rp) (rp_pause rp)"
    and "get_transaction rp cl signature w = (Err err, w')"
  shows "(rp_parse_signature rp signature = None \<and> err = SignatureError signature \<and> w' = w) \<or>
    (\<exists>bs es. rp_parse_signature rp signature = Some bs \<and> length es = 6 \<and>
       requests_fail rp (rp_pause rp \<lparr>po_min_delay = 100, po_max_delay = 10000, po_max_times = 5\<rparr>)
         (rp_get_transaction rp bs (cl_commitment cl)) 0 w es w' \<and>
       err = classify (last es) \<and>
       (is_network_error err \<longleftrightarrow> str_contains (last es) ''timed out'' \<or>
          str_contains (last es) ''connection refused'' \<or> str_contains (last es) ''reset by peer''))"
proof (cases "rp_parse_signature rp signature")
  case None
  with assms(2) show ?thesis by (simp add: get_transaction_bad_signature)
next
  case (Some bs)
  with assms(2) have "rp_retry_transaction rp client_retry_policy (rate_limited rp
      (map_err_st classify (rp_get_transaction rp bs (cl_commitment cl)))) w = (Err err, w')"
    by (simp add: get_transaction_def)
  from retrier.rt_classified [OF assms(1) this] obtain es where "length es = 6"
    "requests_fail rp (rp_pause rp client_retry_policy) (rp_get_transaction rp bs (cl_commitment cl)) 0 w es w'"
    "err = classify (last es)"
    by (auto simp: client_retry_policy_def)
  with Some show ?thesis by (auto simp: is_network_error_classify client_retry_policy_def)
qed

text \<open>A node that is down, for the witnesses.\<close>

definition down_rpc :: "(nat, json) rpc" where
  "down_rpc =
     \<lparr>rp_check = (\<lambda>w. (True, w)), rp_wait = (\<lambda>w. w),
      rp_parse_signature = (\<lambda>s. Some []), rp_parse_pubkey = (\<lambda>s. Some []),
      rp_get_slot = (\<lambda>_ w. (Err ''connection refused'', Suc w)),
      rp_get_block_time = (\<lambda>_ w. (Err ''connection refused'', Suc w)),
      rp_get_transaction = (\<lambda>_ _ w. (Err ''connection refused'', Suc w)),
      rp_get_signatures = (\<lambda>_ _ _ _ _ w. (Err ''connection refused'', Suc w)),
      rp_get_account = (\<lambda>_ _ w. (Err ''connection refused'', Suc w)),
      rp_pause = (\<lambda>_ _ w. w + 10),
      rp_retry_slot = retry_loop (\<lambda>_ _ w. w + 10), rp_retry_time = retry_loop (\<lambda>_ _ w. w + 10),
      rp_retry_transaction = retry_loop (\<lambda>_ _ w. w + 10),
      rp_retry_signatures = retry_loop (\<lambda>_ _ w. w + 10),
      rp_retry_exists = retry_loop (\<lambda>_ _ w. w + 10)\<rparr>"

definition sample_client :: solana_client where
  "sample_client = \<lparr>cl_url = [], cl_timeout = 30, cl_commitment = Confirmed, cl_rps = 5\<rparr>"

theorem get_transaction_errors_witness:
  "get_transaction down_rpc sample_client ''sig'' 0 = (Err (NetworkError ''connection refused''), 56) \<and>
   (\<exists>es. length es = 6 \<and> requests_fail down_rpc (\<lambda>_ w. w + 10)
      (rp_get_transaction down_rpc [] Confirmed) 0 0 es 56)"
proof -
  have run: "get_transaction down_rpc sample_client ''sig'' 0 = (Err (NetworkError ''connection refused''), 56)"
    by code_simp
  have "retrier (rp_retry_transaction down_rpc) (rp_pause down_rpc)"
    using backoff.retrier_axioms by (simp add: down_rpc_def)
  from get_transaction_errors [OF this run]
  have "\<exists>es. length es = 6 \<and> requests_fail down_rpc (\<lambda>_ w. w + 10)
      (rp_get_transaction down_rpc [] Confirmed) 0 0 es 56"
    by (auto simp: down_rpc_def sample_client_def)
  with run show ?thesis ..
qed

text \<open>A client is built from every configuration except one with a rate limit of 0, where
  construction panics; the limit is 5 requests per second where the configuration sets none, and an
  unknown commitment level means confirmed.\<close>

theorem solana_client_new_total:
  "case rpc_rate_limit c of
     Some 0 \<Rightarrow> solana_client_new c = (Panic :: (unit, solana_client) res)
   | lm \<Rightarrow> \<exists>cl. solana_client_new c = (Ok cl :: (unit, solana_client) res) \<and>
       cl_rps cl = (case lm of None \<Rightarrow> 5 | Some r \<Rightarrow> r) \<and> 0 < cl_rps cl \<and>
       (cl_commitment cl = Processed \<longleftrightarrow> solana_commitment_level c = ''processed'') \<and>
       (cl_commitment cl = Finalized \<longleftrightarrow> solana_commitment_level c = ''finalized'')"
  by (auto simp: solana_client_new_def commitment_of_def Let_def split: option.split nat.split)

end
