(* ===== verification/Processor.thy ===== *)
theory Processor
  imports Client Db_Transaction
begin

text \<open>
  The batch processor, \<^verbatim>\<open>src/blockchain/processor.rs\<close>. Its state is the database and the state \<open>'w\<close>
  of the node. \<open>ord\<close> is the iteration order of the \<open>HashSet\<close> of addresses, \<open>clock a\<close> the wall clock
  when address \<open>a\<close> is registered. The pauses between requests have no effect on the state.
\<close>

section \<open>The operations\<close>

definition is_transaction_relevant :: "transaction \<Rightarrow> string set \<Rightarrow> bool" where
  "is_transaction_relevant t tracked_addresses =
     (if tx_source t \<in> tracked_addresses then True
      else case tx_destination t of
        None \<Rightarrow> False
      | Some dest \<Rightarrow> dest \<in> tracked_addresses)"

text \<open>The inner loop: fetch, extract and filter the signatures of one chunk.\<close>

fun collect_chunk ::
  "('w, 'pi) rpc \<Rightarrow> solana_client \<Rightarrow> 'pi programs \<Rightarrow> string set \<Rightarrow> string list \<Rightarrow>
   ('w, transaction list) call" where
  "collect_chunk rp cl pg tracked [] w = (Ok [], w)"
| "collect_chunk rp cl pg tracked (sig # sigs) w =
     (case get_transaction rp cl sig w of
        (Panic, w1) \<Rightarrow> (Panic, w1)
      | (Err e, w1) \<Rightarrow> collect_chunk rp cl pg tracked sigs w1
      | (Ok tx, w1) \<Rightarrow>
          (case extract_transaction pg sig tx of
             Ok (Some t) \<Rightarrow>
               (case collect_chunk rp cl pg tracked sigs w1 of
                  (Ok ts, w2) \<Rightarrow> (Ok (if is_transaction_relevant t tracked then t # ts else ts), w2)
                | out \<Rightarrow> out)
           | Ok None \<Rightarrow> collect_chunk rp cl pg tracked sigs w1
           | _ \<Rightarrow> (Panic, w1)))"

text \<open>The outer loop over the chunks of ten.\<close>

fun collect_chunks ::
  "('w, 'pi) rpc \<Rightarrow> solana_client \<Rightarrow> 'pi programs \<Rightarrow> string set \<Rightarrow> string list list \<Rightarrow>
   ('w, transaction list) call" where
  "collect_chunks rp cl pg tracked [] w = (Ok [], w)"
| "collect_chunks rp cl pg tracked (c # cs) w =
     bind_st (collect_chunk rp cl pg tracked c) (\<lambda>chunk_transactions.
       bind_st (collect_chunks rp cl pg tracked cs) (\<lambda>rest. ret_st (chunk_transactions @ rest))) w"

text \<open>The registration loop: an error is logged, a panic is not caught.\<close>

fun register_all ::
  "b58 \<Rightarrow> (string \<Rightarrow> u64 option) \<Rightarrow> string list \<Rightarrow> (db, client_error, unit) sm" where
  "register_all b58 clock [] d = (Ok (), d)"
| "register_all b58 clock (a # as) d =
     (case add_address b58 (clock a) a d of
        (Panic, d1) \<Rightarrow> (Panic, d1)
      | (_, d1) \<Rightarrow> register_all b58 clock as d1)"

definition addresses_to_register :: "transaction list \<Rightarrow> string list" where
  "addresses_to_register ts = remdups (concat (map tx_addresses ts))"

definition store_transactions :: "transaction list \<Rightarrow> (db, client_error, nat) sm" where
  "store_transactions transactions d =
     (case add_transactions transactions d of
        (Ok _, d1) \<Rightarrow> (Ok (length transactions), d1)
      | (Err e, d1) \<Rightarrow> (Ok 0, d1)
      | (Panic, d1) \<Rightarrow> (Panic, d1))"

definition process_transaction_batch ::
  "('w, 'pi) rpc \<Rightarrow> solana_client \<Rightarrow> 'pi programs \<Rightarrow> b58 \<Rightarrow> (string \<Rightarrow> u64 option) \<Rightarrow>
   (string list \<Rightarrow> string list) \<Rightarrow> string list \<Rightarrow> string set \<Rightarrow> (db \<times> 'w, client_error, nat) sm" where
  "process_transaction_batch rp cl pg b58 clock ord signatures tracked_addresses s =
     (if signatures = [] then (Ok 0, s)
      else case collect_chunks rp cl pg tracked_addresses (chunks 10 signatures) (snd s) of
        (Panic, w1) \<Rightarrow> (Panic, (fst s, w1))
      | (Err e, w1) \<Rightarrow> (Err e, (fst s, w1))
      | (Ok transactions, w1) \<Rightarrow>
          if transactions = [] then (Ok 0, (fst s, w1))
          else
            (case bind_st (register_all b58 clock (ord (addresses_to_register transactions)))
                    (\<lambda>_. store_transactions transactions) (fst s) of
               (r, d1) \<Rightarrow> (r, (d1, w1))))"

text \<open>\<open>chunks\<close> panics for a chunk size of 0.\<close>

definition batch_transactions ::
  "transaction list \<Rightarrow> nat \<Rightarrow> (unit, transaction list list) res" where
  "batch_transactions transactions batch_size =
     (if batch_size = 0 then Panic else Ok (chunks batch_size transactions))"

section \<open>Fetching\<close>

lemma is_transaction_relevant_iff:
  "is_transaction_relevant t tracked \<longleftrightarrow> set (tx_addresses t) \<inter> tracked \<noteq> {}"
  by (auto simp: is_transaction_relevant_def tx_addresses_def split: option.splits)

text \<open>Chunking does not change what is fetched.\<close>

lemma collect_chunk_append:
  "collect_chunk rp cl pg tracked (xs @ ys) w =
     bind_st (collect_chunk rp cl pg tracked xs) (\<lambda>ts.
       bind_st (collect_chunk rp cl pg tracked ys) (\<lambda>us. ret_st (ts @ us))) w"
  by (induction xs arbitrary: w)
    (auto simp: bind_st_def ret_st_def split: prod.splits res.splits option.splits)

lemma collect_chunks_concat:
  "collect_chunks rp cl pg tracked cs w = collect_chunk rp cl pg tracked (concat cs) w"
proof (induction cs arbitrary: w)
  case (Cons c cs)
  then have "collect_chunks rp cl pg tracked cs = collect_chunk rp cl pg tracked (concat cs)"
    by (simp add: fun_eq_iff)
  then show ?case by (simp add: collect_chunk_append)
qed simp

lemma collect_chunk_no_Err: "collect_chunk rp cl pg tracked sigs w \<noteq> (Err e, w')"
  by (induction sigs arbitrary: w) (auto split: prod.splits res.splits option.splits)

lemma collect_chunk_relevant:
  "collect_chunk rp cl pg tracked sigs w = (Ok ts, w') \<Longrightarrow> t \<in> set ts \<Longrightarrow>
   is_transaction_relevant t tracked \<and> tx_signature t \<in> set sigs"
  by (induction sigs arbitrary: w ts)
    (fastforce split: prod.splits res.splits option.splits if_splits dest: extracted_signature)+

text \<open>The answers of the node to one request per signature, in order, and what a fetched answer adds.\<close>

fun node_answers ::
  "('w, 'pi) rpc \<Rightarrow> solana_client \<Rightarrow> string list \<Rightarrow> 'w \<Rightarrow> (client_error, 'pi tx_data) res list \<times> 'w" where
  "node_answers rp cl [] w = ([], w)"
| "node_answers rp cl (sig # sigs) w =
     (case get_transaction rp cl sig w of
        (q, w1) \<Rightarrow> (case node_answers rp cl sigs w1 of (qs, w2) \<Rightarrow> (q # qs, w2)))"

definition relevant_answer ::
  "'pi programs \<Rightarrow> string set \<Rightarrow> string \<Rightarrow> (client_error, 'pi tx_data) res \<Rightarrow> transaction list" where
  "relevant_answer pg tracked sig q =
     (case q of
        Ok tx \<Rightarrow> filter (\<lambda>t. set (tx_addresses t) \<inter> tracked \<noteq> {})
          (case extracted pg sig tx of None \<Rightarrow> [] | Some t \<Rightarrow> [t])
      | _ \<Rightarrow> [])"

text \<open>The loop collects exactly these, in order, unless a call panics.\<close>

lemma collect_chunk_answers:
  "node_answers rp cl sigs w = (qs, w') \<Longrightarrow>
   if Panic \<in> set qs then fst (collect_chunk rp cl pg tracked sigs w) = Panic
   else collect_chunk rp cl pg tracked sigs w =
     (Ok (concat (map2 (relevant_answer pg tracked) sigs qs)), w')"
proof (induction sigs arbitrary: w qs)
  case (Cons sig sigs)
  obtain q w1 where q: "get_transaction rp cl sig w = (q, w1)" by fastforce
  obtain qs1 w2 where rest: "node_answers rp cl sigs w1 = (qs1, w2)" by fastforce
  have qs: "qs = q # qs1" "w' = w2" using Cons.prems q rest by simp_all
  obtain c w3 where c: "collect_chunk rp cl pg tracked sigs w1 = (c, w3)" by fastforce
  from Cons.IH [OF rest [folded qs(2)]] show ?case
    by (cases q; cases c)
      (auto simp: q qs c relevant_answer_def is_transaction_relevant_iff split: option.splits if_splits)
qed simp

section \<open>Registering\<close>

text \<open>One step of the loop: whatever \<open>add_address\<close> returns short of a panic, the loop goes on.\<close>

lemma register_all_Cons:
  assumes "register_all b58 clock (a # as) d = (r, d')"
  obtains (panic) "r = Panic" "add_address b58 (clock a) a d = (Panic, d')"
  | (ahead) q d1 where "add_address b58 (clock a) a d = (q, d1)" "q \<noteq> Panic"
      "register_all b58 clock as d1 = (r, d')"
proof (cases "add_address b58 (clock a) a d")
  case (Pair q d1)
  with assms that show ?thesis by (cases q) auto
qed

lemma register_all_tables_ok:
  "register_all b58 clock as d = (r, d') \<Longrightarrow> tables_ok (db_tables d) \<Longrightarrow> tables_ok (db_tables d')"
proof (induction as arbitrary: d)
  case (Cons a as)
  from Cons.prems(1) show ?case
  proof (cases rule: register_all_Cons)
    case panic
    with Cons.prems show ?thesis by (auto dest: add_address_tables_ok)
  next
    case (ahead q d1)
    with Cons add_address_tables_ok show ?thesis by blast
  qed
qed simp

lemma register_all_txs:
  "register_all b58 clock as d = (r, d') \<Longrightarrow> t_txs (db_tables d') = t_txs (db_tables d)"
proof (induction as arbitrary: d)
  case (Cons a as)
  from Cons.prems(1) show ?case
  proof (cases rule: register_all_Cons)
    case panic
    then show ?thesis by (auto dest: add_address_effect)
  next
    case (ahead q d1)
    with Cons.IH add_address_effect(1) show ?thesis by metis
  qed
qed simp

lemma register_all_mono:
  "register_all b58 clock as d = (r, d') \<Longrightarrow> has_address b (db_tables d) \<Longrightarrow>
   has_address b (db_tables d')"
proof (induction as arbitrary: d)
  case (Cons a as)
  from Cons.prems(1) show ?case
  proof (cases rule: register_all_Cons)
    case panic
    with Cons.prems show ?thesis by (auto dest: add_address_effect(2))
  next
    case (ahead q d1)
    with Cons.IH Cons.prems(2) add_address_effect(2) show ?thesis by metis
  qed
qed simp

lemma register_all_only:
  "register_all b58 clock as d = (r, d') \<Longrightarrow> has_address b (db_tables d') \<Longrightarrow>
   has_address b (db_tables d) \<or> (b \<in> set as \<and> valid_address b58 b)"
proof (induction as arbitrary: d)
  case (Cons a as)
  have new: "has_address b (db_tables d1) \<Longrightarrow> has_address b (db_tables d) \<or> (b = a \<and> valid_address b58 b)"
    if "add_address b58 (clock a) a d = (q, d1)" for q d1
    using add_address_effect(2) [OF that, of b] that by (auto elim!: add_address_Ok)
  from Cons.prems(1) show ?case
  proof (cases rule: register_all_Cons)
    case panic
    with Cons.prems(2) new show ?thesis by auto
  next
    case (ahead q d1)
    with Cons.IH [of d1] Cons.prems(2) new show ?thesis by auto
  qed
qed simp

lemma register_all_Ok:
  "register_all b58 clock as d = (r, d') \<Longrightarrow> \<forall>a \<in> set as. clock a \<noteq> None \<Longrightarrow> r = Ok ()"
proof (induction as arbitrary: d)
  case (Cons a as)
  then obtain secs where "clock a = Some secs" by auto
  with Cons.prems(1) show ?case
    using Cons.IH Cons.prems(2) add_address_no_Panic by (elim register_all_Cons) auto
qed simp

text \<open>Without faults, the loop registers exactly the valid addresses.\<close>

lemma register_all_no_faults:
  "db_faults d = [] \<Longrightarrow> \<forall>a \<in> set as. clock a \<noteq> None \<Longrightarrow>
   \<exists>d'. register_all b58 clock as d = (Ok (), d') \<and> db_faults d' = [] \<and>
     (\<forall>b. has_address b (db_tables d') \<longleftrightarrow>
        has_address b (db_tables d) \<or> (b \<in> set as \<and> valid_address b58 b))"
proof (induction as arbitrary: d)
  case (Cons a as)
  then obtain secs where secs: "clock a = Some secs" by auto
  obtain q d1 where q: "add_address b58 (Some secs) a d = (q, d1)" by fastforce
  note f = add_address_no_faults [OF q Cons.prems(1)]
  from Cons.IH [OF f(1)] Cons.prems(2) obtain d' where
    d': "register_all b58 clock as d1 = (Ok (), d')" "db_faults d' = []"
    "\<forall>b. has_address b (db_tables d') \<longleftrightarrow>
        has_address b (db_tables d1) \<or> (b \<in> set as \<and> valid_address b58 b)"
    by auto
  have "q \<noteq> Panic" using q add_address_no_Panic by blast
  then have "register_all b58 clock (a # as) d = (Ok (), d')"
    using q d'(1) secs by (cases q) auto
  with d' add_address_effect(2) [OF q] f(2) show ?case by auto
qed simp

section \<open>The batch\<close>

lemma store_transactions_cases:
  assumes "store_transactions ts d = (r, d')"
  obtains (stored) "r = Ok (length ts)"
      "db_tables d' = (db_tables d)\<lparr>t_txs := merge_rows (t_txs (db_tables d)) ts\<rparr>"
  | (dropped) "r = Ok 0" "db_tables d' = db_tables d"
proof (cases "add_transactions ts d")
  case (Pair q d1)
  note at = add_transactions_Ok [of ts d _ d1]
  show ?thesis
  proof (cases q)
    case (Ok u)
    with assms Pair at show ?thesis by (intro stored) (auto simp: store_transactions_def)
  next
    case (Err e)
    have "db_tables d1 = db_tables d"
      using in_transaction_not_Ok [where m = "insert_all ts" and d = d and r = "Err e" and d' = d1]
        Pair Err by (simp add: add_transactions_def)
    with assms Pair Err show ?thesis by (intro dropped) (auto simp: store_transactions_def)
  next
    case Panic
    with Pair add_transactions_no_Panic show ?thesis by blast
  qed
qed

text \<open>The three courses of a batch whose clock readings succeed.\<close>

lemma batch_cases:
  assumes "process_transaction_batch rp cl pg b58 clock ord signatures tracked (d, w) = (r, (d', w'))"
    and "\<forall>a. clock a \<noteq> None"
  obtains (nothing) "collect_chunk rp cl pg tracked signatures w = (Ok [], w')" "r = Ok 0" "d' = d"
  | (fetch_panic) "collect_chunk rp cl pg tracked signatures w = (Panic, w')" "r = Panic" "d' = d"
  | (batch) ts d1 where "collect_chunk rp cl pg tracked signatures w = (Ok ts, w')" "ts \<noteq> []"
      "register_all b58 clock (ord (addresses_to_register ts)) d = (Ok (), d1)"
      "store_transactions ts d1 = (r, d')"
proof (cases "signatures = []")
  case True
  with assms(1) have "collect_chunk rp cl pg tracked signatures w = (Ok [], w')" "r = Ok 0" "d' = d"
    by (auto simp: process_transaction_batch_def)
  then show ?thesis by (rule nothing)
next
  case False
  obtain q w1 where c: "collect_chunk rp cl pg tracked signatures w = (q, w1)" by fastforce
  show ?thesis
  proof (cases q)
    case (Err e)
    with c have False by (simp add: collect_chunk_no_Err)
    then show ?thesis ..
  next
    case Panic
    with c False assms(1) have "collect_chunk rp cl pg tracked signatures w = (Panic, w')"
      "r = Panic" "d' = d"
      by (auto simp: process_transaction_batch_def collect_chunks_concat)
    then show ?thesis by (rule fetch_panic)
  next
    case (Ok ts)
    show ?thesis
    proof (cases "ts = []")
      case True
      with c Ok False assms(1) have "collect_chunk rp cl pg tracked signatures w = (Ok [], w')"
        "r = Ok 0" "d' = d"
        by (auto simp: process_transaction_batch_def collect_chunks_concat)
      then show ?thesis by (rule nothing)
    next
      case ne: False
      obtain q2 d1 where g: "register_all b58 clock (ord (addresses_to_register ts)) d = (q2, d1)"
        by fastforce
      have "q2 = Ok ()" by (rule register_all_Ok [OF g]) (use assms(2) in blast)
      with g c Ok False ne assms(1) batch show ?thesis
        by (simp add: process_transaction_batch_def collect_chunks_concat st_simps split: prod.splits)
    qed
  qed
qed

lemma set_addresses_to_register:
  "iteration_order ord \<Longrightarrow> set (ord (addresses_to_register ts)) = \<Union> (set ` tx_addresses ` set ts)"
  by (simp add: iteration_order.ord_set addresses_to_register_def)

lemma batch_runs:
  assumes "collect_chunk rp cl pg tracked signatures w = (Ok ts, w')" and "ts \<noteq> []"
    and "register_all b58 clock (ord (addresses_to_register ts)) d = (Ok (), d1)"
  shows "process_transaction_batch rp cl pg b58 clock ord signatures tracked (d, w) =
    (case store_transactions ts d1 of (r, d') \<Rightarrow> (r, (d', w')))"
proof -
  have "signatures \<noteq> []" using assms(1,2) by auto
  with assms show ?thesis
    by (simp add: process_transaction_batch_def collect_chunks_concat st_simps split: prod.split)
qed

lemma batch_tables_ok:
  assumes "process_transaction_batch rp cl pg b58 clock ord signatures tracked (d, w) = (r, (d', w'))"
    and "\<forall>a. clock a \<noteq> None" and "tables_ok (db_tables d)"
  shows "tables_ok (db_tables d')"
  using assms(1,2)
proof (cases rule: batch_cases)
  case (batch ts d1)
  have "tables_ok (db_tables d1)" by (rule register_all_tables_ok [OF batch(3) assms(3)])
  moreover have "db_tables d' = db_tables (snd (add_transactions ts d1))"
    using batch(4) by (auto simp: store_transactions_def split: prod.splits res.splits)
  ultimately show ?thesis using add_transactions_tables_ok by (metis prod.collapse)
qed (use assms(3) in auto)

lemma batch_outcome:
  assumes "process_transaction_batch rp cl pg b58 clock ord signatures tracked (d, w) = (r, (d', w'))"
    and "\<forall>a. clock a \<noteq> None"
  shows "collect_chunk rp cl pg tracked signatures w = (Panic, w') \<and> r = Panic \<and> d' = d \<or>
    (\<exists>ts. collect_chunk rp cl pg tracked signatures w = (Ok ts, w') \<and>
       (\<forall>t \<in> set ts. is_transaction_relevant t tracked \<and> tx_signature t \<in> set signatures) \<and>
       (r = Ok (length ts) \<and> t_txs (db_tables d') = merge_rows (t_txs (db_tables d)) ts \<or>
        r = Ok 0 \<and> t_txs (db_tables d') = t_txs (db_tables d)))"
  using assms
proof (cases rule: batch_cases)
  case (batch ts d1)
  have "\<forall>t \<in> set ts. is_transaction_relevant t tracked \<and> tx_signature t \<in> set signatures"
    using collect_chunk_relevant [OF batch(1)] by blast
  with batch(4) show ?thesis
    using batch(1) register_all_txs [OF batch(3)]
    by (cases rule: store_transactions_cases) auto
qed auto

section \<open>Properties\<close>

text \<open>C5. A batch never reports an error and is all or nothing: it fetches the relevant transactions among
  the signatures, and either stores every one with a new signature and counts all of them, or stores
  none and counts 0; if fetching panics it panics and changes nothing. It keeps the invariant of the
  tables, faults or not.\<close>

theorem batch_all_or_nothing:
  assumes "process_transaction_batch rp cl pg b58 clock ord signatures tracked (d, w) = (r, (d', w'))"
    and "\<forall>a. clock a \<noteq> None" and "tables_ok (db_tables d)"
  shows "tables_ok (db_tables d') \<and>
    (if fst (collect_chunk rp cl pg tracked signatures w) = Panic then r = Panic \<and> d' = d
     else \<exists>ts. collect_chunk rp cl pg tracked signatures w = (Ok ts, w') \<and>
       (\<forall>t \<in> set ts. is_transaction_relevant t tracked \<and> tx_signature t \<in> set signatures) \<and>
       (r = Ok (length ts) \<and> t_txs (db_tables d') = merge_rows (t_txs (db_tables d)) ts \<or>
        r = Ok 0 \<and> t_txs (db_tables d') = t_txs (db_tables d)))"
  using batch_tables_ok [OF assms] batch_outcome [OF assms(1,2)] by (auto simp del: split_paired_Ex)

text \<open>C22. Without database faults and with valid addresses, every transaction fetched is stored, and its
  source and destination become tracked addresses, whether or not anyone asked to track them; nothing
  else becomes tracked.\<close>

theorem batch_tracks_counterparties:
  assumes "iteration_order ord" and "db_faults d = []" and "\<forall>a. clock a \<noteq> None"
    and "collect_chunk rp cl pg tracked signatures w = (Ok ts, w')"
    and "\<forall>t \<in> set ts. \<forall>a \<in> set (tx_addresses t). valid_address b58 a"
  shows "\<exists>d'. process_transaction_batch rp cl pg b58 clock ord signatures tracked (d, w) =
      (Ok (length ts), (d', w')) \<and>
    t_txs (db_tables d') = merge_rows (t_txs (db_tables d)) ts \<and>
    (\<forall>a. has_address a (db_tables d') \<longleftrightarrow>
       has_address a (db_tables d) \<or> (\<exists>t \<in> set ts. a \<in> set (tx_addresses t)))"
proof (cases "ts = []")
  case True
  with assms(4) show ?thesis
    by (auto simp: process_transaction_batch_def collect_chunks_concat)
next
  case False
  obtain d1 where d1: "register_all b58 clock (ord (addresses_to_register ts)) d = (Ok (), d1)"
    "db_faults d1 = []"
    "\<forall>b. has_address b (db_tables d1) \<longleftrightarrow> has_address b (db_tables d) \<or>
       (b \<in> set (ord (addresses_to_register ts)) \<and> valid_address b58 b)"
    using register_all_no_faults [OF assms(2)] assms(3) by blast
  have tracked1: "has_address b (db_tables d1) \<longleftrightarrow>
      has_address b (db_tables d) \<or> (\<exists>t \<in> set ts. b \<in> set (tx_addresses t))" for b
    using d1(3) assms(5) by (auto simp: set_addresses_to_register [OF assms(1)])
  have "\<forall>t \<in> set ts. fk_ok (db_tables d1) (row_of_tx t)"
    by (auto simp: fk_ok_def tracked1 tx_addresses_iff split: option.split)
  then obtain d2 where d2: "add_transactions ts d1 = (Ok (), d2)"
    using add_transactions_succeeds [OF d1(2)] by blast
  have "process_transaction_batch rp cl pg b58 clock ord signatures tracked (d, w) =
      (Ok (length ts), (d2, w'))"
    using batch_runs [where ord = ord and clock = clock and ts = ts, OF assms(4) False d1(1)] d2 by (simp add: store_transactions_def)
  moreover have "db_tables d2 = (db_tables d1)\<lparr>t_txs := merge_rows (t_txs (db_tables d)) ts\<rparr>"
    using add_transactions_Ok [OF d2] register_all_txs [OF d1(1)] by simp
  ultimately show ?thesis using tracked1 by auto
qed

text \<open>C23. One transaction with an address that cannot be registered drops the whole batch: if a fetched
  transaction, the only one of a signature not yet stored, names an address that is neither valid nor
  tracked, the batch stores nothing and counts 0, however many other transactions it fetched.\<close>

theorem bad_address_drops_batch:
  assumes "iteration_order ord" and "tables_ok (db_tables d)" and "\<forall>a. clock a \<noteq> None"
    and "collect_chunk rp cl pg tracked signatures w = (Ok ts, w')"
    and "t \<in> set ts" and "tx_signature t \<notin> r_signature ` set (t_txs (db_tables d))"
    and "\<forall>u \<in> set ts. tx_signature u = tx_signature t \<longrightarrow> u = t"
    and "a \<in> set (tx_addresses t)" and "\<not> valid_address b58 a" and "\<not> has_address a (db_tables d)"
  shows "\<exists>d'. process_transaction_batch rp cl pg b58 clock ord signatures tracked (d, w) =
      (Ok 0, (d', w')) \<and> t_txs (db_tables d') = t_txs (db_tables d)"
proof -
  obtain q d1 where g: "register_all b58 clock (ord (addresses_to_register ts)) d = (q, d1)" by fastforce
  have q: "q = Ok ()" by (rule register_all_Ok [OF g]) (use assms(3) in blast)
  note g = g [unfolded q]
  have txs: "t_txs (db_tables d1) = t_txs (db_tables d)" by (rule register_all_txs [OF g])
  have no: "\<not> has_address a (db_tables d1)" using register_all_only [OF g] assms(9,10) by blast
  have ok: "tables_ok (db_tables d1)" by (rule register_all_tables_ok [OF g assms(2)])
  have new: "row_of_tx t \<in> set (merge_rows (t_txs (db_tables d1)) ts)"
    using merge_rows_new [OF assms(5)] assms(6,7) txs by metis
  have bad: "\<not> fk_ok (db_tables d1) (row_of_tx t)"
    using no assms(8) by (auto simp: fk_ok_def tx_addresses_iff)
  obtain r d2 where s: "store_transactions ts d1 = (r, d2)" by fastforce
  obtain r2 d3 where at: "add_transactions ts d1 = (r2, d3)" by fastforce
  have "\<exists>e. r2 = Err e"
  proof (cases r2)
    case (Ok u)
    from add_transactions_tables_ok [OF at ok] add_transactions_Ok [OF at [unfolded Ok]]
    have "tables_ok ((db_tables d1)\<lparr>t_txs := merge_rows (t_txs (db_tables d1)) ts\<rparr>)" by simp
    then have "fk_ok (db_tables d1) (row_of_tx t)"
      using new unfolding tables_ok_def fk_ok_txs by simp
    with bad show ?thesis by blast
  next
    case (Err e)
    then show ?thesis by simp
  next
    case Panic
    with at add_transactions_no_Panic show ?thesis by blast
  qed
  then obtain e where e: "r2 = Err e" ..
  have "db_tables d3 = db_tables d1"
    using in_transaction_not_Ok [where m = "insert_all ts" and d = d1 and r = "Err e" and d' = d3]
      at e by (simp add: add_transactions_def)
  then have "store_transactions ts d1 = (Ok 0, d3) \<and> t_txs (db_tables d3) = t_txs (db_tables d)"
    using at e txs by (simp add: store_transactions_def)
  moreover have "ts \<noteq> []" using assms(5) by auto
  ultimately show ?thesis using batch_runs [where ord = ord and clock = clock and ts = ts, OF assms(4) _ g] by auto
qed

text \<open>\<open>batch_transactions\<close> splits a list into non-empty batches of at most the given size, as few as
  that allows, that are the list again when laid one after the other; a size of 0 panics.\<close>

theorem batch_transactions_partition:
  "case batch_transactions ts n of
     Ok bs \<Rightarrow> concat bs = ts \<and> (\<forall>b \<in> set bs. 0 < length b \<and> length b \<le> n) \<and>
       length bs = (length ts + n - 1) div n
   | Err _ \<Rightarrow> False
   | Panic \<Rightarrow> n = 0"
  by (auto simp: batch_transactions_def length_chunks dest: chunks_bounds)

section \<open>Witnesses\<close>

text \<open>A node that answers every request for a transaction with a transfer to the account \<open>bob\<close>, and
  a decoder that accepts every text.\<close>

definition bob :: string where "bob = ''bob''"

definition any_b58 :: b58 where "any_b58 s = Some (replicate 32 0)"

definition bob_instr :: json where
  "bob_instr = JObject [(''programId'', JString ones), (''parsed'', JObject
     [(''type'', JString ''transfer''), (''info'', JObject [(''destination'', JString bob)])])]"

definition bob_td :: "json tx_data" where
  "bob_td =
     \<lparr>td_slot = 9, td_block_time = Some 300,
      td_transaction = EncJson (MsgParsed
        \<lparr>um_account_keys = [ones], um_instructions = [UiParsed bob_instr]\<rparr>),
      td_meta = Some \<lparr>me_err = None, me_pre_balances = [], me_post_balances = []\<rparr>\<rparr>"

definition bob_rpc :: "(nat, json) rpc" where
  "bob_rpc = down_rpc\<lparr>rp_get_transaction := (\<lambda>_ _ w. (Ok bob_td, Suc w))\<rparr>"

definition bob_tx :: transaction where
  "bob_tx =
     \<lparr>tx_signature = ''s9'', tx_block_time = 300, tx_slot = 9, tx_source = ones,
      tx_destination = Some bob, tx_amount = None, tx_program_id = Some ones, tx_success = True\<rparr>"

lemma bob_get: "get_transaction bob_rpc cl sig w = (Ok bob_td, Suc w)"
  by (simp add: get_transaction_def bob_rpc_def down_rpc_def rate_limited_def map_err_st_def
      retry_loop_first numeral_eq_Suc)

lemma bob_details:
  "extract_transfer_details sample_pg
     \<lparr>um_account_keys = [ones], um_instructions = [UiParsed bob_instr]\<rparr>
     \<lparr>me_err = None, me_pre_balances = [], me_post_balances = []\<rparr> = Ok (Some bob, None, Some ones)"
  by (simp add: extract_transfer_details_def instruction_details_def parsed_details_def
      sample_pg_def bob_instr_def transfer_info_def infer_from_balances_def)

lemma bob_extracted: "extracted sample_pg sig bob_td = Some (bob_tx\<lparr>tx_signature := sig\<rparr>)"
proof -
  have "extract_transaction sample_pg sig bob_td = Ok (Some (bob_tx\<lparr>tx_signature := sig\<rparr>))"
    using extract_readable [of bob_td _ _ sample_pg, OF _ bob_details, of sig]
    by (simp add: bob_td_def bob_tx_def u64_as_i64_small del: extract_transaction_total)
  then show ?thesis by simp
qed

lemma bob_collect:
  "collect_chunk bob_rpc cl sample_pg {ones} [''s9''] 0 = (Ok [bob_tx], 1)"
  by (simp add: bob_get bob_extracted is_transaction_relevant_def) (simp add: bob_tx_def)

theorem batch_all_or_nothing_witness:
  "\<exists>r d'. process_transaction_batch bob_rpc sample_client sample_pg any_b58 (\<lambda>_. Some 9) (\<lambda>xs. xs)
      [''s9''] {ones} (sample_db, 0) = (r, (d', 1)) \<and> tables_ok (db_tables d') \<and>
    (r = Ok 1 \<and> t_txs (db_tables d') = [sample_row, row_of_tx bob_tx] \<or>
     r = Ok 0 \<and> t_txs (db_tables d') = [sample_row])"
proof -
  obtain r d' w' where p: "process_transaction_batch bob_rpc sample_client sample_pg any_b58
      (\<lambda>_. Some 9) (\<lambda>xs. xs) [''s9''] {ones} (sample_db, 0) = (r, (d', w'))"
    by (metis surj_pair)
  from batch_all_or_nothing [OF p] have "tables_ok (db_tables d')" and "w' = 1"
    and "r = Ok 1 \<and> t_txs (db_tables d') = merge_rows (t_txs (db_tables sample_db)) [bob_tx] \<or>
      r = Ok 0 \<and> t_txs (db_tables d') = t_txs (db_tables sample_db)"
    by (auto simp: bob_collect simp del: collect_chunk.simps merge_rows_simps)
  with p show ?thesis by (auto simp: sample_db_def sample_row_def bob_tx_def)
qed

theorem batch_tracks_counterparties_witness:
  "\<exists>d'. process_transaction_batch bob_rpc sample_client sample_pg any_b58 (\<lambda>_. Some 9) (\<lambda>xs. xs)
      [''s9''] {ones} (sample_db, 0) = (Ok 1, (d', 1)) \<and>
    has_address bob (db_tables d') \<and> \<not> has_address bob (db_tables sample_db)"
proof -
  have "\<forall>t \<in> set [bob_tx]. \<forall>a \<in> set (tx_addresses t). valid_address any_b58 a" by code_simp
  from batch_tracks_counterparties [OF list_order.iteration_order_axioms sample_no_faults _
      bob_collect this, of "\<lambda>_. Some 9"]
  obtain d' where d': "process_transaction_batch bob_rpc sample_client sample_pg any_b58 (\<lambda>_. Some 9)
      (\<lambda>xs. xs) [''s9''] {ones} (sample_db, 0) = (Ok 1, (d', 1))"
    and tr: "has_address bob (db_tables d')"
    by (auto simp: bob_tx_def tx_addresses_def)
  have "\<not> has_address bob (db_tables sample_db)" by code_simp
  with d' tr show ?thesis by blast
qed

theorem bad_address_drops_batch_witness:
  "\<exists>d'. process_transaction_batch bob_rpc sample_client sample_pg ones_b58 (\<lambda>_. Some 9) (\<lambda>xs. xs)
      [''s9''] {ones} (sample_db, 0) = (Ok 0, (d', 1)) \<and>
    t_txs (db_tables d') = t_txs (db_tables sample_db)"
proof (rule bad_address_drops_batch [OF list_order.iteration_order_axioms sample_tables_ok _ bob_collect])
  show "bob \<in> set (tx_addresses bob_tx)" by code_simp
  show "\<not> valid_address ones_b58 bob" by code_simp
  show "\<not> has_address bob (db_tables sample_db)" by code_simp
  show "tx_signature bob_tx \<notin> r_signature ` set (t_txs (db_tables sample_db))" by code_simp
qed simp_all

end
