(* ===== verification/Batch_Manager.thy ===== *)
theory Batch_Manager
  imports Models
begin

text \<open>
  The batch manager, \<^verbatim>\<open>src/blockchain/batch_manager.rs\<close>: a buffer of transactions per source address
  behind a lock, flushed to the channel of the worker pool when it is full or old. An operation is
  its locked part, which updates the buffer and takes the batch out, followed by the send. \<open>now\<close> and
  \<open>reset\<close> are the two readings of the monotonic clock an operation makes, in nanoseconds; \<open>ord\<close> is the
  iteration order of the hash map.
\<close>

section \<open>The buffer\<close>

record batch_config =
  bc_max_batch_size :: nat
  bc_flush_interval :: nat
  bc_worker_count :: nat

definition batch_config_default :: "nat \<Rightarrow> batch_config" where
  "batch_config_default cpus =
     \<lparr>bc_max_batch_size = 100, bc_flush_interval = 5000000000, bc_worker_count = cpus\<rparr>"

type_synonym pending = "(string \<times> transaction list) list"

record transaction_buffer =
  tb_pending :: pending
  tb_total_size :: nat
  tb_last_flush :: nat

text \<open>The sending end of the channel: the batches it took, and whether its receiver is gone.\<close>

record channel =
  ch_sent :: "transaction list list"
  ch_closed :: bool

record batch_manager =
  bm_buffer :: transaction_buffer
  bm_config :: batch_config
  bm_channel :: channel

definition batch_manager_new :: "nat \<Rightarrow> batch_config \<Rightarrow> channel \<Rightarrow> batch_manager" where
  "batch_manager_new now config worker_sender =
     \<lparr>bm_buffer = \<lparr>tb_pending = [], tb_total_size = 0, tb_last_flush = now\<rparr>,
      bm_config = config, bm_channel = worker_sender\<rparr>"

text \<open>\<open>entry(address).or_insert_with(Vec::new).push(transaction)\<close>\<close>

fun push_pending :: "string \<Rightarrow> transaction \<Rightarrow> pending \<Rightarrow> pending" where
  "push_pending a t [] = [(a, [t])]"
| "push_pending a t ((b, ts) # ps) =
     (if b = a then (b, ts @ [t]) # ps else (b, ts) # push_pending a t ps)"

type_synonym drain_order = "(string \<times> transaction list) list \<Rightarrow> (string \<times> transaction list) list"

definition collect_transactions_for_flush ::
  "drain_order \<Rightarrow> nat \<Rightarrow> transaction_buffer \<Rightarrow> transaction list \<times> transaction_buffer" where
  "collect_transactions_for_flush ord reset buffer =
     (concat (map snd (ord (tb_pending buffer))),
      buffer\<lparr>tb_pending := [], tb_total_size := 0, tb_last_flush := reset\<rparr>)"

text \<open>\<open>elapsed()\<close> is 0 for an instant in the future.\<close>

definition should_flush :: "batch_config \<Rightarrow> nat \<Rightarrow> transaction_buffer \<Rightarrow> bool" where
  "should_flush config now buffer \<longleftrightarrow>
     bc_max_batch_size config \<le> tb_total_size buffer \<or>
     bc_flush_interval config \<le> now - tb_last_flush buffer"

section \<open>The locked parts\<close>

definition add_locked ::
  "batch_config \<Rightarrow> drain_order \<Rightarrow> nat \<Rightarrow> nat \<Rightarrow> transaction \<Rightarrow> transaction_buffer \<Rightarrow>
   transaction list \<times> transaction_buffer" where
  "add_locked config ord now reset t buffer =
     (let address = tx_source t;
          buffer1 = buffer\<lparr>tb_pending := push_pending address t (tb_pending buffer),
                           tb_total_size := tb_total_size buffer + 1\<rparr>
      in if should_flush config now buffer1
         then collect_transactions_for_flush ord reset buffer1
         else ([], buffer1))"

definition check_locked ::
  "batch_config \<Rightarrow> drain_order \<Rightarrow> nat \<Rightarrow> nat \<Rightarrow> transaction_buffer \<Rightarrow>
   transaction list \<times> transaction_buffer" where
  "check_locked config ord now reset buffer =
     (if tb_total_size buffer = 0 then ([], buffer)
      else if should_flush config now buffer then collect_transactions_for_flush ord reset buffer
      else ([], buffer))"

section \<open>The operations\<close>

text \<open>\<open>send\<close> on a channel whose receiver is gone fails: the batch is logged and lost.\<close>

definition send_transactions_to_worker ::
  "transaction list \<Rightarrow> batch_manager \<Rightarrow> batch_manager" where
  "send_transactions_to_worker transactions m =
     (if transactions = [] then m
      else if ch_closed (bm_channel m) then m
      else m\<lparr>bm_channel := (bm_channel m)\<lparr>ch_sent := ch_sent (bm_channel m) @ [transactions]\<rparr>\<rparr>)"

definition with_buffer ::
  "(transaction_buffer \<Rightarrow> transaction list \<times> transaction_buffer) \<Rightarrow> batch_manager \<Rightarrow> batch_manager" where
  "with_buffer locked m =
     (case locked (bm_buffer m) of
        (transactions_to_flush, buffer) \<Rightarrow>
          if transactions_to_flush \<noteq> []
          then send_transactions_to_worker transactions_to_flush (m\<lparr>bm_buffer := buffer\<rparr>)
          else m\<lparr>bm_buffer := buffer\<rparr>)"

definition add_transaction ::
  "drain_order \<Rightarrow> nat \<Rightarrow> nat \<Rightarrow> transaction \<Rightarrow> batch_manager \<Rightarrow> batch_manager" where
  "add_transaction ord now reset t m = with_buffer (add_locked (bm_config m) ord now reset t) m"

definition perform_flush_check ::
  "drain_order \<Rightarrow> nat \<Rightarrow> nat \<Rightarrow> batch_manager \<Rightarrow> batch_manager" where
  "perform_flush_check ord now reset m = with_buffer (check_locked (bm_config m) ord now reset) m"

definition force_flush :: "drain_order \<Rightarrow> nat \<Rightarrow> batch_manager \<Rightarrow> batch_manager" where
  "force_flush ord reset m = with_buffer (collect_transactions_for_flush ord reset) m"

text \<open>
  \<open>start\<close>: a check, then one at every timer tick, and one at the shutdown. The ticks, each with its
  clock readings and the transactions other tasks added before it, are an argument.
\<close>

datatype bm_event = Add transaction nat nat | Check nat nat | Force nat

fun bm_apply :: "drain_order \<Rightarrow> bm_event \<Rightarrow> batch_manager \<Rightarrow> batch_manager" where
  "bm_apply ord (Add t now reset) m = add_transaction ord now reset t m"
| "bm_apply ord (Check now reset) m = perform_flush_check ord now reset m"
| "bm_apply ord (Force reset) m = force_flush ord reset m"

definition bm_start ::
  "drain_order \<Rightarrow> nat \<times> nat \<Rightarrow> bm_event list \<Rightarrow> nat \<times> nat \<Rightarrow> batch_manager \<Rightarrow> batch_manager" where
  "bm_start ord startup ticks shutdown m =
     (let m1 = perform_flush_check ord (fst startup) (snd startup) m;
          m2 = fold (bm_apply ord) ticks m1
      in perform_flush_check ord (fst shutdown) (snd shutdown) m2)"

section \<open>The buffer is a bag with an order per source\<close>

definition buffered :: "transaction_buffer \<Rightarrow> transaction list" where
  "buffered buffer = concat (map snd (tb_pending buffer))"

definition buffer_ok :: "transaction_buffer \<Rightarrow> bool" where
  "buffer_ok buffer \<longleftrightarrow>
     distinct (map fst (tb_pending buffer)) \<and>
     (\<forall>(a, ts) \<in> set (tb_pending buffer). ts \<noteq> [] \<and> (\<forall>t \<in> set ts. tx_source t = a)) \<and>
     tb_total_size buffer = length (buffered buffer)"

lemma mset_push_pending:
  "mset (concat (map snd (push_pending a t ps))) = add_mset t (mset (concat (map snd ps)))"
  by (induction a t ps rule: push_pending.induct) auto

lemma fst_push_pending:
  "map fst (push_pending a t ps) = map fst ps @ (if a \<in> fst ` set ps then [] else [a])"
  by (induction a t ps rule: push_pending.induct) auto

lemma push_pending_wf:
  assumes "\<forall>(a, ts) \<in> set ps. ts \<noteq> [] \<and> (\<forall>t \<in> set ts. tx_source t = a)"
  shows "\<forall>(a, ts) \<in> set (push_pending (tx_source t) t ps). ts \<noteq> [] \<and> (\<forall>t \<in> set ts. tx_source t = a)"
  using assms by (induction "tx_source t" t ps rule: push_pending.induct) auto

text \<open>The transactions of one source are kept in the order they were added.\<close>

lemma push_pending_source:
  assumes "\<forall>(a, ts) \<in> set ps. \<forall>t \<in> set ts. tx_source t = a" and "distinct (map fst ps)"
  shows "filter (\<lambda>u. tx_source u = s) (concat (map snd (push_pending (tx_source t) t ps))) =
    filter (\<lambda>u. tx_source u = s) (concat (map snd ps)) @ (if tx_source t = s then [t] else [])"
  using assms
proof (induction "tx_source t" t ps rule: push_pending.induct)
  case (2 t b ts ps)
  show ?case
  proof (cases "b = tx_source t")
    case True
    have "filter (\<lambda>u. tx_source u = b) (concat (map snd ps)) = []"
      using "2.prems" by (force simp: filter_empty_conv)
    with True show ?thesis by auto
  next
    case False
    with 2 show ?thesis by auto
  qed
qed simp

lemma buffer_ok_flush: "buffer_ok (buffer\<lparr>tb_pending := [], tb_total_size := 0, tb_last_flush := r\<rparr>)"
  by (simp add: buffer_ok_def buffered_def)

lemma buffer_ok_push:
  assumes "buffer_ok buffer"
  shows "buffer_ok (buffer\<lparr>tb_pending := push_pending (tx_source t) t (tb_pending buffer),
    tb_total_size := tb_total_size buffer + 1\<rparr>)"
proof -
  have "length (concat (map snd (push_pending (tx_source t) t (tb_pending buffer)))) =
      Suc (length (buffered buffer))"
    using arg_cong [OF mset_push_pending [of "tx_source t" t "tb_pending buffer"], of size]
    by (simp only: size_mset size_add_mset buffered_def)
  then show ?thesis
    using assms push_pending_wf [of "tb_pending buffer" t] unfolding buffer_ok_def
    by (auto simp: fst_push_pending buffered_def)
qed

section \<open>The interface of a batcher\<close>

text \<open>
  What the clients of a batcher rely on: an operation takes its inputs in and hands a list out; nothing
  is lost or duplicated, and inputs of the same key come out in the order they went in.
\<close>

fun batcher_run :: "('o \<Rightarrow> 'b \<Rightarrow> 'x list \<times> 'b) \<Rightarrow> 'o list \<Rightarrow> 'b \<Rightarrow> 'x list list \<times> 'b" where
  "batcher_run step [] b = ([], b)"
| "batcher_run step (e # es) b =
     (case step e b of (out, b1) \<Rightarrow> (case batcher_run step es b1 of (outs, b2) \<Rightarrow> (out # outs, b2)))"

locale batcher =
  fixes step :: "'o \<Rightarrow> 'b \<Rightarrow> 'x list \<times> 'b"
    and inputs :: "'o \<Rightarrow> 'x list"
    and contents :: "'b \<Rightarrow> 'x list"
    and ok :: "'b \<Rightarrow> bool"
  assumes step_ok: "ok b \<Longrightarrow> step e b = (out, b') \<Longrightarrow> ok b'"
    and step_mset: "ok b \<Longrightarrow> step e b = (out, b') \<Longrightarrow>
      mset out + mset (contents b') = mset (contents b) + mset (inputs e)"
begin

lemma run_ok: "ok b \<Longrightarrow> batcher_run step es b = (outs, b') \<Longrightarrow> ok b'"
  by (induction es arbitrary: b outs) (auto split: prod.splits dest: step_ok)

lemma run_mset:
  "ok b \<Longrightarrow> batcher_run step es b = (outs, b') \<Longrightarrow>
   mset (concat outs) + mset (contents b') = mset (contents b) + mset (concat (map inputs es))"
proof (induction es arbitrary: b outs)
  case (Cons e es)
  obtain out b1 where 1: "step e b = (out, b1)" by fastforce
  obtain outs1 where 2: "batcher_run step es b1 = (outs1, b')" "outs = out # outs1"
    using Cons.prems(2) 1 by (auto split: prod.splits)
  from Cons.IH [OF step_ok [OF Cons.prems(1) 1] 2(1)]
  have "mset (concat outs) + mset (contents b') =
      mset out + mset (contents b1) + mset (concat (map inputs es))"
    by (simp add: 2(2) ac_simps)
  with step_mset [OF Cons.prems(1) 1] show ?case by (simp add: ac_simps)
qed simp

end

locale fifo_batcher = batcher step inputs contents ok
  for step :: "'o \<Rightarrow> 'b \<Rightarrow> 'x list \<times> 'b" and inputs and contents and ok +
  fixes key :: "'x \<Rightarrow> 'k"
  assumes step_fifo: "ok b \<Longrightarrow> step e b = (out, b') \<Longrightarrow>
    filter (\<lambda>x. key x = k) (out @ contents b') = filter (\<lambda>x. key x = k) (contents b @ inputs e)"
begin

lemma run_fifo:
  "ok b \<Longrightarrow> batcher_run step es b = (outs, b') \<Longrightarrow>
   filter (\<lambda>x. key x = k) (concat outs @ contents b') =
   filter (\<lambda>x. key x = k) (contents b @ concat (map inputs es))"
proof (induction es arbitrary: b outs)
  case (Cons e es)
  obtain out b1 where 1: "step e b = (out, b1)" by fastforce
  obtain outs1 where 2: "batcher_run step es b1 = (outs1, b')" "outs = out # outs1"
    using Cons.prems(2) 1 by (auto split: prod.splits)
  from Cons.IH [OF step_ok [OF Cons.prems(1) 1] 2(1)] step_fifo [OF Cons.prems(1) 1, of k]
  show ?case by (simp add: 2(2))
qed simp

end

section \<open>The batch manager is one\<close>

fun bm_locked ::
  "batch_config \<Rightarrow> drain_order \<Rightarrow> bm_event \<Rightarrow> transaction_buffer \<Rightarrow>
   transaction list \<times> transaction_buffer" where
  "bm_locked config ord (Add t now reset) = add_locked config ord now reset t"
| "bm_locked config ord (Check now reset) = check_locked config ord now reset"
| "bm_locked config ord (Force reset) = collect_transactions_for_flush ord reset"

fun bm_inputs :: "bm_event \<Rightarrow> transaction list" where
  "bm_inputs (Add t _ _) = [t]"
| "bm_inputs _ = []"

lemma bm_apply_locked: "bm_apply ord e m = with_buffer (bm_locked (bm_config m) ord e) m"
  by (cases e) (simp_all add: add_transaction_def perform_flush_check_def force_flush_def)

text \<open>A flush hands out the buffered transactions, those of each source in order.\<close>

lemma filter_source:
  assumes "\<forall>(a, ts) \<in> set ps. \<forall>t \<in> set ts. tx_source t = a" and "distinct (map fst ps)"
  shows "filter (\<lambda>u. tx_source u = s) (concat (map snd ps)) =
    (case map_of ps s of None \<Rightarrow> [] | Some ts \<Rightarrow> ts)"
  using assms
proof (induction ps)
  case (Cons p ps)
  obtain a ts where p: "p = (a, ts)" by fastforce
  have ts: "filter (\<lambda>u. tx_source u = s) ts = (if a = s then ts else [])"
    using Cons.prems(1) by (auto simp: p filter_empty_conv intro: filter_True)
  have rest: "map_of ps a = None" using Cons.prems(2) by (auto simp: p map_of_eq_None_iff)
  from Cons show ?case by (auto simp: p ts rest)
qed simp

lemma collect_source:
  assumes "iteration_order ord" and "buffer_ok b" and "collect_transactions_for_flush ord r b = (out, b')"
  shows "filter (\<lambda>u. tx_source u = s) out = filter (\<lambda>u. tx_source u = s) (buffered b)"
proof -
  let ?ps = "tb_pending b"
  note o = iteration_order.ord_mset [OF assms(1), of ?ps] iteration_order.ord_set [OF assms(1), of ?ps]
  have wf: "\<forall>(a, ts) \<in> set ?ps. \<forall>t \<in> set ts. tx_source t = a" and d: "distinct (map fst ?ps)"
    using assms(2) by (auto simp: buffer_ok_def)
  have d': "distinct (map fst (ord ?ps))"
    using d mset_eq_imp_distinct_iff [of "map fst (ord ?ps)" "map fst ?ps"] o(1) by simp
  have "map_of (ord ?ps) = map_of ?ps" using map_of_inject_set [OF d' d] o(2) by simp
  then show ?thesis
    using assms(3) filter_source [OF wf d] filter_source [OF _ d', of s] wf o(2)
    by (auto simp: collect_transactions_for_flush_def buffered_def)
qed

lemma collect_mset:
  assumes "iteration_order ord" and "collect_transactions_for_flush ord r b = (out, b')"
  shows "mset out = mset (buffered b)" and "buffered b' = []" and "buffer_ok b'"
  using assms iteration_order.ord_concat_mset [OF assms(1), of snd "tb_pending b"]
  by (auto simp: collect_transactions_for_flush_def buffered_def buffer_ok_def)

text \<open>A locked part either keeps the buffer with its input, or flushes that.\<close>

fun absorb :: "bm_event \<Rightarrow> transaction_buffer \<Rightarrow> transaction_buffer" where
  "absorb (Add t _ _) b =
     b\<lparr>tb_pending := push_pending (tx_source t) t (tb_pending b), tb_total_size := tb_total_size b + 1\<rparr>"
| "absorb _ b = b"

lemma bm_locked_absorb:
  "bm_locked config ord e b =
     (if (case e of Add _ now _ \<Rightarrow> should_flush config now (absorb e b)
          | Check now _ \<Rightarrow> tb_total_size b \<noteq> 0 \<and> should_flush config now b
          | Force _ \<Rightarrow> True)
      then collect_transactions_for_flush ord
             (case e of Add _ _ reset \<Rightarrow> reset | Check _ reset \<Rightarrow> reset | Force reset \<Rightarrow> reset) (absorb e b)
      else ([], absorb e b))"
  by (cases e) (simp_all add: add_locked_def check_locked_def)

lemma bm_locked_cases:
  assumes "bm_locked config ord e b = (out, b')"
  obtains (keep) "out = []" "b' = absorb e b"
  | (flush) r where "collect_transactions_for_flush ord r (absorb e b) = (out, b')"
  using assms unfolding bm_locked_absorb by (metis Pair_inject)

lemma bm_fifo: "iteration_order ord \<Longrightarrow>
  fifo_batcher (bm_locked config ord) bm_inputs buffered buffer_ok tx_source"
proof
  assume ord: "iteration_order ord"
  fix b e out b' k
  assume ok: "buffer_ok b" and step: "bm_locked config ord e b = (out, b')"
  let ?b1 = "absorb e b"
  have ok1: "buffer_ok ?b1" using ok buffer_ok_push by (cases e) auto
  have m1: "mset (buffered ?b1) = mset (buffered b) + mset (bm_inputs e)"
    using mset_push_pending by (cases e) (auto simp: buffered_def simp del: mset_concat)
  have f1: "filter (\<lambda>x. tx_source x = k) (buffered ?b1) =
      filter (\<lambda>x. tx_source x = k) (buffered b @ bm_inputs e)"
  proof (cases e)
    case (Add t now r)
    have "filter (\<lambda>x. tx_source x = k) (concat (map snd (push_pending (tx_source t) t (tb_pending b)))) =
      filter (\<lambda>x. tx_source x = k) (concat (map snd (tb_pending b))) @ (if tx_source t = k then [t] else [])"
      by (rule push_pending_source) (use ok in \<open>auto simp: buffer_ok_def\<close>)
    then show ?thesis by (simp add: Add buffered_def)
  qed simp_all
  from step have "buffer_ok b' \<and> mset out + mset (buffered b') = mset (buffered ?b1) \<and>
    filter (\<lambda>x. tx_source x = k) (out @ buffered b') = filter (\<lambda>x. tx_source x = k) (buffered ?b1)"
  proof (cases rule: bm_locked_cases)
    case keep
    have "b' = ?b1" by (rule keep(2))
    with keep(1) ok1 show ?thesis by simp
  next
    case (flush r)
    note c = collect_mset [OF ord flush]
    show ?thesis using c collect_source [OF ord ok1 flush, of k] by simp
  qed
  with m1 f1 show "buffer_ok b'"
    and "mset out + mset (buffered b') = mset (buffered b) + mset (bm_inputs e)"
    and "filter (\<lambda>x. tx_source x = k) (out @ buffered b') =
      filter (\<lambda>x. tx_source x = k) (buffered b @ bm_inputs e)"
    by simp_all
qed

interpretation bm_list: fifo_batcher "bm_locked config (\<lambda>ps. ps)" bm_inputs buffered buffer_ok tx_source
  by (rule bm_fifo) (rule list_order.iteration_order_axioms)

section \<open>Runs of the manager\<close>

definition all_sent :: "batch_manager \<Rightarrow> transaction list" where
  "all_sent m = concat (ch_sent (bm_channel m))"

lemma with_buffer_open:
  assumes "\<not> ch_closed (bm_channel m)" and "locked (bm_buffer m) = (out, b)"
  shows "with_buffer locked m =
    m\<lparr>bm_buffer := b, bm_channel := (bm_channel m)\<lparr>ch_sent := ch_sent (bm_channel m) @ filter (\<lambda>x. x \<noteq> []) [out]\<rparr>\<rparr>"
  using assms by (simp add: with_buffer_def send_transactions_to_worker_def)

lemma fold_bm_apply:
  assumes "\<not> ch_closed (bm_channel m)"
    and "batcher_run (bm_locked (bm_config m) ord) es (bm_buffer m) = (outs, b)"
  shows "fold (bm_apply ord) es m = m\<lparr>bm_buffer := b,
    bm_channel := (bm_channel m)\<lparr>ch_sent := ch_sent (bm_channel m) @ filter (\<lambda>x. x \<noteq> []) outs\<rparr>\<rparr>"
  using assms
proof (induction es arbitrary: m outs)
  case (Cons e es)
  obtain out b1 where 1: "bm_locked (bm_config m) ord e (bm_buffer m) = (out, b1)" by fastforce
  obtain outs1 where 2: "batcher_run (bm_locked (bm_config m) ord) es b1 = (outs1, b)" "outs = out # outs1"
    using Cons.prems(2) 1 by (auto split: prod.splits)
  let ?m1 = "bm_apply ord e m"
  have m1: "?m1 = m\<lparr>bm_buffer := b1, bm_channel := (bm_channel m)
      \<lparr>ch_sent := ch_sent (bm_channel m) @ filter (\<lambda>x. x \<noteq> []) [out]\<rparr>\<rparr>"
    unfolding bm_apply_locked
    by (rule with_buffer_open [where locked = "bm_locked (bm_config m) ord e", OF Cons.prems(1) 1])
  have "fold (bm_apply ord) es ?m1 = ?m1\<lparr>bm_buffer := b, bm_channel := (bm_channel ?m1)
      \<lparr>ch_sent := ch_sent (bm_channel ?m1) @ filter (\<lambda>x. x \<noteq> []) outs1\<rparr>\<rparr>"
    by (rule Cons.IH) (use 2 Cons.prems(1) m1 in simp_all)
  then show ?case by (simp add: m1 2(2))
qed simp

lemma bm_start_fold:
  "bm_start ord (n1, r1) ticks (n2, r2) m =
     fold (bm_apply ord) (Check n1 r1 # ticks @ [Check n2 r2]) m"
  by (simp add: bm_start_def Let_def)

lemma concat_nonempty [simp]: "concat (filter (\<lambda>x. x \<noteq> []) outs) = concat outs"
  by (induction outs) auto

text \<open>The bound of the buffer and of the batches.\<close>

definition below_max :: "batch_config \<Rightarrow> transaction_buffer \<Rightarrow> bool" where
  "below_max config b \<longleftrightarrow> buffer_ok b \<and> tb_total_size b < bc_max_batch_size config"

lemma locked_bounded:
  assumes "iteration_order ord" and "below_max config b" and "bm_locked config ord e b = (out, b')"
  shows "below_max config b' \<and> length out \<le> bc_max_batch_size config"
proof -
  have pos: "0 < bc_max_batch_size config" using assms(2) by (simp add: below_max_def)
  have ok: "buffer_ok b" using assms(2) by (simp add: below_max_def)
  have b1: "buffer_ok (absorb e b) \<and> tb_total_size (absorb e b) \<le> bc_max_batch_size config"
    using assms(2) buffer_ok_push by (cases e) (auto simp: below_max_def)
  have ok': "buffer_ok b'"
    using batcher.step_ok [OF fifo_batcher.axioms(1) [OF bm_fifo [OF assms(1)]] ok assms(3)] .
  show ?thesis
  proof (cases "b' = absorb e b \<and> out = []")
    case True
    then have "tb_total_size b' < bc_max_batch_size config"
    proof (cases e)
      case (Add t now r)
      show ?thesis
      proof (rule ccontr)
        assume "\<not> ?thesis"
        then have "should_flush config now (absorb e b)" using True by (simp add: should_flush_def)
        then have "collect_transactions_for_flush ord r (absorb e b) = (out, b')"
          using assms(3) by (simp only: bm_locked_absorb Add bm_event.case if_True)
        then have "tb_total_size b' = 0" by (auto simp: collect_transactions_for_flush_def)
        with pos \<open>\<not> ?thesis\<close> show False by simp
      qed
    qed (use True assms(2) in \<open>simp_all add: below_max_def\<close>)
    with True ok' show ?thesis by (simp add: below_max_def)
  next
    case False
    with assms(3) obtain r where c: "collect_transactions_for_flush ord r (absorb e b) = (out, b')"
      by (cases rule: bm_locked_cases) auto
    have "length out = length (buffered (absorb e b))"
      using collect_mset(1) [OF assms(1) c] by (metis size_mset)
    moreover have "tb_total_size b' = 0" using c by (auto simp: collect_transactions_for_flush_def)
    ultimately show ?thesis using b1 ok' pos by (simp add: below_max_def buffer_ok_def)
  qed
qed

lemma run_bounded:
  assumes "iteration_order ord"
  shows "below_max config b \<Longrightarrow> batcher_run (bm_locked config ord) es b = (outs, b') \<Longrightarrow>
    below_max config b' \<and> (\<forall>out \<in> set outs. length out \<le> bc_max_batch_size config)"
proof (induction es arbitrary: b outs)
  case (Cons e es)
  obtain out b1 where 1: "bm_locked config ord e b = (out, b1)" by fastforce
  obtain outs1 where 2: "batcher_run (bm_locked config ord) es b1 = (outs1, b')" "outs = out # outs1"
    using Cons.prems(2) 1 by (auto split: prod.splits)
  from locked_bounded [OF assms Cons.prems(1) 1] Cons.IH [OF _ 2(1)] 2(2) show ?case by auto
qed simp

section \<open>Properties\<close>

text \<open>C7. While its channel is open, the batch manager neither loses, duplicates nor invents a
  transaction, whatever adds and timer ticks its life consists of: what it sent and what it still
  buffers is, as a bag, what it was given; and the transactions of any one source leave in the order
  in which they came.\<close>

theorem bm_start_conserves:
  assumes "iteration_order ord" and "buffer_ok (bm_buffer m)" and "\<not> ch_closed (bm_channel m)"
    and "m' = bm_start ord startup ticks shutdown m"
  shows "mset (all_sent m') + mset (buffered (bm_buffer m')) =
      mset (all_sent m) + mset (buffered (bm_buffer m)) + mset (concat (map bm_inputs ticks)) \<and>
    (\<forall>k. filter (\<lambda>t. tx_source t = k) (all_sent m' @ buffered (bm_buffer m')) =
       filter (\<lambda>t. tx_source t = k) (all_sent m @ buffered (bm_buffer m) @ concat (map bm_inputs ticks)))"
proof -
  obtain n1 r1 n2 r2 where p: "startup = (n1, r1)" "shutdown = (n2, r2)" by fastforce
  let ?es = "Check n1 r1 # ticks @ [Check n2 r2]"
  obtain outs b where run: "batcher_run (bm_locked (bm_config m) ord) ?es (bm_buffer m) = (outs, b)"
    by fastforce
  have m': "bm_buffer m' = b" "all_sent m' = all_sent m @ concat outs"
    using fold_bm_apply [OF assms(3) run] assms(4) by (simp_all add: p bm_start_fold all_sent_def)
  note fifo = bm_fifo [OF assms(1), of "bm_config m"]
  have inp: "concat (map bm_inputs ?es) = concat (map bm_inputs ticks)" by simp
  show ?thesis
    using batcher.run_mset [OF fifo_batcher.axioms(1) [OF fifo] assms(2) run]
      fifo_batcher.run_fifo [OF fifo assms(2) run]
    unfolding inp m' by (simp add: ac_simps)
qed

text \<open>C28. The buffer stays below the maximal batch size after every operation, and no batch that is sent
  is empty or larger than that size.\<close>

theorem bm_batches_bounded:
  assumes "iteration_order ord" and "below_max (bm_config m) (bm_buffer m)"
    and "\<not> ch_closed (bm_channel m)" and "m' = fold (bm_apply ord) events m"
  shows "tb_total_size (bm_buffer m') < bc_max_batch_size (bm_config m') \<and>
    (\<exists>new. ch_sent (bm_channel m') = ch_sent (bm_channel m) @ new \<and>
       (\<forall>batch \<in> set new. batch \<noteq> [] \<and> length batch \<le> bc_max_batch_size (bm_config m)))"
proof -
  obtain outs b where run: "batcher_run (bm_locked (bm_config m) ord) events (bm_buffer m) = (outs, b)"
    by fastforce
  from run_bounded [OF assms(1,2) run] fold_bm_apply [OF assms(3) run] assms(4)
  show ?thesis by (auto simp: below_max_def)
qed

text \<open>A timer tick sends everything when the buffer is full or the interval has passed since the last
  flush, as one batch, and leaves an empty buffer; otherwise it does nothing at all.\<close>

theorem flush_check_effect:
  assumes "iteration_order ord" and "buffer_ok (bm_buffer m)" and "\<not> ch_closed (bm_channel m)"
  shows "let m' = perform_flush_check ord now reset m; b = bm_buffer m in
    if buffered b \<noteq> [] \<and> (bc_max_batch_size (bm_config m) \<le> length (buffered b) \<or>
         bc_flush_interval (bm_config m) \<le> now - tb_last_flush b)
    then \<exists>batch. ch_sent (bm_channel m') = ch_sent (bm_channel m) @ [batch] \<and>
           mset batch = mset (buffered b) \<and> buffered (bm_buffer m') = [] \<and>
           tb_last_flush (bm_buffer m') = reset
    else m' = m"
proof -
  let ?b = "bm_buffer m"
  have total: "tb_total_size ?b = length (buffered ?b)" using assms(2) by (simp add: buffer_ok_def)
  obtain out b' where c: "collect_transactions_for_flush ord reset ?b = (out, b')" by fastforce
  have last: "tb_last_flush b' = reset" using c by (auto simp: collect_transactions_for_flush_def)
  have ne: "out \<noteq> []" if "buffered ?b \<noteq> []"
    using collect_mset(1) [OF assms(1) c] that by auto
  show ?thesis
  proof (cases "buffered ?b \<noteq> [] \<and> should_flush (bm_config m) now ?b")
    case True
    then have "check_locked (bm_config m) ord now reset ?b = (out, b')"
      using c total by (simp add: check_locked_def)
    from with_buffer_open [OF assms(3), where locked = "check_locked (bm_config m) ord now reset",
        OF this] True ne show ?thesis
      using collect_mset(1,2) [OF assms(1) c] last
      by (simp add: perform_flush_check_def should_flush_def total Let_def)
  next
    case False
    then have "check_locked (bm_config m) ord now reset ?b = ([], ?b)"
      using total by (auto simp: check_locked_def)
    then have "perform_flush_check ord now reset m = m"
      by (simp add: perform_flush_check_def with_buffer_def)
    with False show ?thesis by (simp add: should_flush_def total Let_def)
  qed
qed

text \<open>C29. The flush at shutdown is the ordinary check, not a forced one: if the buffer is not full and the
  interval has not passed since the last flush, the manager stops with its transactions still buffered
  and the channel as it was.\<close>

theorem shutdown_keeps_transactions:
  assumes "m1 = fold (bm_apply ord) ticks (perform_flush_check ord n1 r1 m)"
    and "tb_total_size (bm_buffer m1) < bc_max_batch_size (bm_config m1)"
    and "n2 - tb_last_flush (bm_buffer m1) < bc_flush_interval (bm_config m1)"
  shows "bm_start ord (n1, r1) ticks (n2, r2) m = m1"
proof -
  have "check_locked (bm_config m1) ord n2 r2 (bm_buffer m1) = ([], bm_buffer m1)"
    using assms(2,3) by (simp add: check_locked_def should_flush_def)
  then have "perform_flush_check ord n2 r2 m1 = m1"
    by (simp add: perform_flush_check_def with_buffer_def)
  then show ?thesis by (simp add: bm_start_def assms(1) Let_def)
qed

section \<open>Witnesses\<close>

definition bm_tx :: "string \<Rightarrow> string \<Rightarrow> transaction" where
  "bm_tx sig source =
     \<lparr>tx_signature = sig, tx_block_time = 0, tx_slot = 0, tx_source = source, tx_destination = None,
      tx_amount = None, tx_program_id = None, tx_success = True\<rparr>"

definition small_bm :: batch_manager where
  "small_bm =
     batch_manager_new 0 \<lparr>bc_max_batch_size = 2, bc_flush_interval = 5, bc_worker_count = 1\<rparr>
       \<lparr>ch_sent = [], ch_closed = False\<rparr>"

definition three_adds :: "bm_event list" where
  "three_adds = [Add (bm_tx ''1'' ''a'') 1 1, Add (bm_tx ''2'' ''b'') 2 2, Add (bm_tx ''3'' ''a'') 3 3]"

lemma small_bm_ok [simp]:
  "buffer_ok (bm_buffer small_bm)" "below_max (bm_config small_bm) (bm_buffer small_bm)"
  "\<not> ch_closed (bm_channel small_bm)"
  by (simp_all add: small_bm_def batch_manager_new_def buffer_ok_def buffered_def below_max_def)

theorem bm_start_conserves_witness:
  "mset (all_sent (bm_start rev (0, 0) three_adds (4, 4) small_bm)) +
     mset (buffered (bm_buffer (bm_start rev (0, 0) three_adds (4, 4) small_bm))) =
   {# bm_tx ''1'' ''a'', bm_tx ''2'' ''b'', bm_tx ''3'' ''a'' #}"
proof -
  have "all_sent small_bm = []" "buffered (bm_buffer small_bm) = []" by code_simp+
  then show ?thesis
    using bm_start_conserves [OF rev_order.iteration_order_axioms small_bm_ok(1,3) refl,
        of "(0, 0)" three_adds "(4, 4)"]
    by (simp add: three_adds_def)
qed

theorem bm_batches_bounded_witness:
  "tb_total_size (bm_buffer (fold (bm_apply rev) three_adds small_bm)) <
     bc_max_batch_size (bm_config (fold (bm_apply rev) three_adds small_bm))"
  using bm_batches_bounded [OF rev_order.iteration_order_axioms small_bm_ok(2,3) refl] by blast

theorem flush_check_effect_witness:
  "\<exists>batch. ch_sent (bm_channel (perform_flush_check rev 9 9 (fold (bm_apply rev) three_adds small_bm))) =
     ch_sent (bm_channel (fold (bm_apply rev) three_adds small_bm)) @ [batch] \<and>
     mset batch = {# bm_tx ''3'' ''a'' #}"
proof -
  let ?m = "fold (bm_apply rev) three_adds small_bm"
  have m: "buffered (bm_buffer ?m) = [bm_tx ''3'' ''a'']" "tb_last_flush (bm_buffer ?m) = 2"
    "bc_flush_interval (bm_config ?m) = 5" "ch_closed (bm_channel ?m) = False"
    "tb_total_size (bm_buffer ?m) = 1" "map fst (tb_pending (bm_buffer ?m)) = [''a'']"
    "tb_pending (bm_buffer ?m) = [(''a'', [bm_tx ''3'' ''a''])]"
    by code_simp+
  have "buffer_ok (bm_buffer ?m)" by (simp add: buffer_ok_def m bm_tx_def buffered_def)
  from flush_check_effect [OF rev_order.iteration_order_axioms this, of 9 9] m show ?thesis
    by (auto simp: Let_def)
qed

text \<open>The third transaction is still in the buffer when the manager has stopped.\<close>

theorem shutdown_keeps_transactions_witness:
  "buffered (bm_buffer (bm_start rev (0, 0) three_adds (4, 4) small_bm)) = [bm_tx ''3'' ''a'']"
proof -
  let ?m = "fold (bm_apply rev) three_adds (perform_flush_check rev 0 0 small_bm)"
  have "tb_total_size (bm_buffer ?m) = 1" "bc_max_batch_size (bm_config ?m) = 2"
    "tb_last_flush (bm_buffer ?m) = 2" "bc_flush_interval (bm_config ?m) = 5"
    and b: "buffered (bm_buffer ?m) = [bm_tx ''3'' ''a'']"
    by code_simp+
  then have "bm_start rev (0, 0) three_adds (4, 4) small_bm = ?m"
    by (intro shutdown_keeps_transactions) simp_all
  with b show ?thesis by simp
qed

end
