(* ===== verification/Worker_Pool.thy ===== *)
theory Worker_Pool
  imports Processor Batch_Manager
begin

text \<open>
  The worker pool, \<^verbatim>\<open>src/blockchain/worker_pool.rs\<close>: the bounded channel of batches, the workers that
  share its receiving end behind a lock, and what a worker does with a batch. The interleaving of
  senders and workers is a sequence of events.
\<close>

section \<open>Processing a batch\<close>

definition process_batch ::
  "('w, 'pi) rpc \<Rightarrow> 'pi programs \<Rightarrow> b58 \<Rightarrow> (string \<Rightarrow> u64 option) \<Rightarrow> (string list \<Rightarrow> string list) \<Rightarrow>
   config \<Rightarrow> transaction list \<Rightarrow> (db \<times> 'w, sqlx_error, unit) sm" where
  "process_batch rp pg b58 clock ord config transactions s =
     (if transactions = [] then (Ok (), s)
      else case get_all_tracked_addresses (fst s) of
        (Err e, d1) \<Rightarrow> (Ok (), (d1, snd s))
      | (Panic, d1) \<Rightarrow> (Panic, (d1, snd s))
      | (Ok addrs, d1) \<Rightarrow>
          (let tracked_addresses = set addrs
           in case (solana_client_new config :: (unit, solana_client) res) of
                Ok client \<Rightarrow>
                  (let signatures = map tx_signature transactions
                   in case process_transaction_batch rp client pg b58 clock ord signatures
                             tracked_addresses (d1, snd s) of
                        (Ok n, s1) \<Rightarrow> (Ok (), s1)
                      | (Err e, s1) \<Rightarrow> (Ok (), s1)
                      | (Panic, s1) \<Rightarrow> (Panic, s1))
              | _ \<Rightarrow> (Panic, (d1, snd s))))"

section \<open>The pool\<close>

text \<open>
  A worker waits for the receiver's lock, holds it while it waits for a batch, processes a batch
  without it, has left its loop because the channel was closed, or was ended by a panic.
\<close>

datatype worker_state =
    Waiting
  | Receiving
  | Busy "transaction list"
  | Stopped
  | Dead

text \<open>\<open>wp_sent\<close>, \<open>wp_taken\<close> and \<open>wp_done\<close> record the batches sent, received and finished, in order.\<close>

record worker_pool =
  wp_queue :: "transaction list list"
  wp_senders :: nat
  wp_workers :: "worker_state list"
  wp_sent :: "transaction list list"
  wp_taken :: "transaction list list"
  wp_done :: "transaction list list"

definition channel_capacity :: nat where
  "channel_capacity = 1000"

definition pool_of :: "nat \<Rightarrow> worker_pool" where
  "pool_of worker_count =
     \<lparr>wp_queue = [], wp_senders = 1, wp_workers = replicate worker_count Waiting,
      wp_sent = [], wp_taken = [], wp_done = []\<rparr>"

text \<open>\<open>Vec::with_capacity\<close> panics for a capacity of more than \<open>isize::MAX\<close> bytes; a handle has 16 bytes.\<close>

definition worker_limit :: nat where
  "worker_limit = (2 ^ 63 - 1) div 16"

definition worker_pool_new :: "nat \<Rightarrow> ('e, worker_pool) res" where
  "worker_pool_new worker_count =
     (if worker_limit < worker_count then Panic else Ok (pool_of worker_count))"

text \<open>The receiver lives as long as a worker holds a reference to it.\<close>

definition receiver_alive :: "worker_pool \<Rightarrow> bool" where
  "receiver_alive p \<longleftrightarrow> list_ex (\<lambda>s. s \<noteq> Stopped \<and> s \<noteq> Dead) (wp_workers p)"

definition receiver_free :: "worker_pool \<Rightarrow> bool" where
  "receiver_free p \<longleftrightarrow> Receiving \<notin> set (wp_workers p)"

datatype pool_event =
    GetSender
  | DropSender
  | Send "transaction list"
  | Lock nat
  | Recv nat
  | Finish nat
  | Crash nat

definition set_worker :: "nat \<Rightarrow> worker_state \<Rightarrow> worker_pool \<Rightarrow> worker_pool" where
  "set_worker i s p = p\<lparr>wp_workers := (wp_workers p)[i := s]\<rparr>"

definition worker_at :: "worker_pool \<Rightarrow> nat \<Rightarrow> worker_state" where
  "worker_at p i = (if i < length (wp_workers p) then wp_workers p ! i else Dead)"

text \<open>The effect of an event, or nothing where it cannot happen yet: a sender waits while the channel is
  full, a worker waits while another has the lock or there is no batch.\<close>

fun pool_next :: "pool_event \<Rightarrow> worker_pool \<Rightarrow> worker_pool option" where
  "pool_next GetSender p =
     (if 0 < wp_senders p then Some (p\<lparr>wp_senders := wp_senders p + 1\<rparr>) else None)"
| "pool_next DropSender p =
     (if 0 < wp_senders p then Some (p\<lparr>wp_senders := wp_senders p - 1\<rparr>) else None)"
| "pool_next (Send b) p =
     (if 0 < wp_senders p \<and> receiver_alive p \<and> length (wp_queue p) < channel_capacity
      then Some (p\<lparr>wp_queue := wp_queue p @ [b], wp_sent := wp_sent p @ [b]\<rparr>) else None)"
| "pool_next (Lock i) p =
     (if worker_at p i = Waiting \<and> receiver_free p then Some (set_worker i Receiving p) else None)"
| "pool_next (Recv i) p =
     (if worker_at p i = Receiving then
        (case wp_queue p of
           b # q \<Rightarrow> Some (set_worker i (Busy b) (p\<lparr>wp_queue := q, wp_taken := wp_taken p @ [b]\<rparr>))
         | [] \<Rightarrow> if wp_senders p = 0 then Some (set_worker i Stopped p) else None)
      else None)"
| "pool_next (Finish i) p =
     (case worker_at p i of
        Busy b \<Rightarrow> Some (set_worker i Waiting (p\<lparr>wp_done := wp_done p @ [b]\<rparr>))
      | _ \<Rightarrow> None)"
| "pool_next (Crash i) p =
     (case worker_at p i of
        Busy b \<Rightarrow> Some (set_worker i Dead (p\<lparr>wp_done := wp_done p @ [b]\<rparr>))
      | _ \<Rightarrow> None)"

inductive pool_step :: "worker_pool \<Rightarrow> pool_event \<Rightarrow> worker_pool \<Rightarrow> bool" where
  "pool_next e p = Some p' \<Longrightarrow> pool_step p e p'"

inductive_simps pool_step_iff: "pool_step p e p'"

inductive pool_reach :: "nat \<Rightarrow> worker_pool \<Rightarrow> bool" for worker_count where
  pool_init: "pool_reach worker_count (pool_of worker_count)"
| pool_more: "pool_reach worker_count p \<Longrightarrow> pool_step p e p' \<Longrightarrow> pool_reach worker_count p'"

section \<open>The invariant of the pool\<close>

fun busy_batch :: "worker_state \<Rightarrow> transaction list list" where
  "busy_batch (Busy b) = [b]"
| "busy_batch _ = []"

definition in_hand :: "worker_pool \<Rightarrow> transaction list multiset" where
  "in_hand p = (\<Sum>s \<in># mset (wp_workers p). mset (busy_batch s))"

definition pool_ok :: "nat \<Rightarrow> worker_pool \<Rightarrow> bool" where
  "pool_ok n p \<longleftrightarrow>
     length (wp_workers p) = n \<and>
     length (wp_queue p) \<le> channel_capacity \<and>
     count (mset (wp_workers p)) Receiving \<le> 1 \<and>
     wp_sent p = wp_taken p @ wp_queue p \<and>
     mset (wp_taken p) = in_hand p + mset (wp_done p) \<and>
     (Stopped \<in> set (wp_workers p) \<longrightarrow> wp_senders p = 0 \<and> wp_queue p = [])"

lemma worker_at_less: "worker_at p i \<noteq> Dead \<Longrightarrow> i < length (wp_workers p)"
  by (auto simp: worker_at_def split: if_splits)

lemma worker_at_nth: "i < length (wp_workers p) \<Longrightarrow> worker_at p i = wp_workers p ! i"
  by (simp add: worker_at_def)

text \<open>Replacing the state of one worker.\<close>

lemma mset_set_worker:
  assumes "i < length ws"
  shows "mset (ws[i := s]) = add_mset s (mset ws - {#ws ! i#})"
  using assms by (simp add: mset_update)

lemma in_hand_set_worker:
  assumes "i < length (wp_workers p)"
  shows "in_hand (set_worker i s p) + mset (busy_batch (wp_workers p ! i)) =
    in_hand p + mset (busy_batch s)"
proof -
  let ?w = "wp_workers p ! i" and ?M = "mset (wp_workers p)"
  have "?w \<in># ?M" using assms by simp
  then obtain N where N: "?M = add_mset ?w N" by (metis insert_DiffM)
  have "mset ((wp_workers p)[i := s]) = add_mset s N"
    using mset_set_worker [OF assms, of s] N by simp
  then show ?thesis unfolding in_hand_def set_worker_def by (simp add: N)
qed

lemma count_set_worker:
  assumes "i < length ws"
  shows "count (mset (ws[i := s])) x + (if ws ! i = x then 1 else 0) =
    count (mset ws) x + (if s = x then 1 else 0)"
proof -
  have "ws ! i \<in># mset ws" using assms by simp
  then obtain N where N: "mset ws = add_mset (ws ! i) N" by (metis insert_DiffM)
  then show ?thesis using mset_set_worker [OF assms, of s] by simp
qed

lemma set_worker_sel [simp]:
  "wp_queue (set_worker i s p) = wp_queue p" "wp_senders (set_worker i s p) = wp_senders p"
  "wp_sent (set_worker i s p) = wp_sent p" "wp_taken (set_worker i s p) = wp_taken p"
  "wp_done (set_worker i s p) = wp_done p"
  "wp_workers (set_worker i s p) = (wp_workers p)[i := s]"
  by (simp_all add: set_worker_def)

lemma in_hand_update [simp]:
  "in_hand (p\<lparr>wp_queue := q\<rparr>) = in_hand p" "in_hand (p\<lparr>wp_taken := q\<rparr>) = in_hand p"
  "in_hand (p\<lparr>wp_done := q\<rparr>) = in_hand p" "in_hand (p\<lparr>wp_sent := q\<rparr>) = in_hand p"
  "in_hand (p\<lparr>wp_senders := k\<rparr>) = in_hand p"
  by (simp_all add: in_hand_def)

lemma in_hand_change:
  assumes "i < length (wp_workers p)" and "busy_batch (wp_workers p ! i) = busy_batch s"
  shows "in_hand (set_worker i s p) = in_hand p"
  using in_hand_set_worker [OF assms(1), of s] assms(2) by simp

lemma pool_ok_new: "pool_ok n (pool_of n)"
proof -
  have "in_hand (pool_of n) = {#}"
    by (simp add: in_hand_def pool_of_def)
  then show ?thesis
    by (simp add: pool_ok_def pool_of_def channel_capacity_def)
qed

lemma receiver_free_count: "receiver_free p \<longleftrightarrow> count (mset (wp_workers p)) Receiving = 0"
  by (simp add: receiver_free_def count_eq_zero_iff)

lemma stopped_set_worker:
  "i < length ws \<Longrightarrow> s \<noteq> Stopped \<Longrightarrow> ws ! i \<noteq> Stopped \<Longrightarrow>
   Stopped \<in> set (ws[i := s]) \<longleftrightarrow> Stopped \<in> set ws"
  by (metis in_set_conv_nth length_list_update nth_list_update_eq nth_list_update_neq)

text \<open>A worker that changes to a state other than \<open>Receiving\<close> keeps the lock exclusive.\<close>

lemma receiving_set_worker:
  "i < length ws \<Longrightarrow> s \<noteq> Receiving \<Longrightarrow> count (mset ws) Receiving \<le> 1 \<Longrightarrow>
   count (mset (ws[i := s])) Receiving \<le> 1"
  using count_set_worker [of i ws s Receiving] by auto

lemma pool_ok_step:
  assumes ok: "pool_ok n p" and step: "pool_next e p = Some p'"
  shows "pool_ok n p'"
proof (cases e)
  case GetSender
  with assms show ?thesis by (auto simp: pool_ok_def split: if_splits)
next
  case DropSender
  with assms show ?thesis by (auto simp: pool_ok_def split: if_splits)
next
  case (Send b)
  with assms show ?thesis by (auto simp: pool_ok_def split: if_splits)
next
  case (Lock i)
  with step have w: "worker_at p i = Waiting" and free: "receiver_free p"
    and p': "p' = set_worker i Receiving p"
    by (auto split: if_splits)
  have i: "i < length (wp_workers p)" using w by (intro worker_at_less) simp
  have wi: "wp_workers p ! i = Waiting" using w worker_at_nth [OF i] by simp
  have "in_hand p' = in_hand p" unfolding p' by (rule in_hand_change [OF i]) (simp add: wi)
  moreover have "count (mset ((wp_workers p)[i := Receiving])) Receiving \<le> 1"
    using count_set_worker [OF i, of Receiving Receiving] free wi by (simp add: receiver_free_count)
  ultimately show ?thesis
    using ok i wi stopped_set_worker [OF i, of Receiving] by (simp add: pool_ok_def p')
next
  case (Recv i)
  with step have w: "worker_at p i = Receiving" by (auto split: if_splits)
  have i: "i < length (wp_workers p)" using w by (intro worker_at_less) simp
  have wi: "wp_workers p ! i = Receiving" using w worker_at_nth [OF i] by simp
  show ?thesis
  proof (cases "wp_queue p")
    case Nil
    with step Recv w have p': "p' = set_worker i Stopped p" "wp_senders p = 0"
      by (auto split: if_splits)
    have "in_hand p' = in_hand p" unfolding p' by (rule in_hand_change [OF i]) (simp add: wi)
    then show ?thesis
      using ok Nil receiving_set_worker [OF i, of Stopped] by (simp add: pool_ok_def p')
  next
    case (Cons b q)
    let ?p1 = "p\<lparr>wp_queue := q, wp_taken := wp_taken p @ [b]\<rparr>"
    have p': "p' = set_worker i (Busy b) ?p1" using step Recv w Cons by simp
    have i1: "i < length (wp_workers ?p1)" using i by simp
    have "in_hand p' = in_hand p + {#b#}"
      using in_hand_set_worker [OF i1, of "Busy b"] by (simp add: p' wi)
    moreover have "Stopped \<notin> set (wp_workers p)" using ok Cons by (auto simp: pool_ok_def)
    ultimately show ?thesis
      using ok Cons i wi receiving_set_worker [OF i, of "Busy b"] stopped_set_worker [OF i, of "Busy b"]
      by (simp add: pool_ok_def p')
  qed
next
  case (Finish i)
  with step obtain b where w: "worker_at p i = Busy b"
    and p': "p' = set_worker i Waiting (p\<lparr>wp_done := wp_done p @ [b]\<rparr>)"
    by (auto split: worker_state.splits)
  have i: "i < length (wp_workers p)" using w by (intro worker_at_less) simp
  have wi: "wp_workers p ! i = Busy b" using w worker_at_nth [OF i] by simp
  have "in_hand p' + {#b#} = in_hand p"
    using in_hand_set_worker [of i "p\<lparr>wp_done := wp_done p @ [b]\<rparr>" Waiting] i by (simp add: p' wi)
  then show ?thesis
    using ok i wi receiving_set_worker [OF i, of Waiting] stopped_set_worker [OF i, of Waiting]
    by (auto simp: pool_ok_def p')
next
  case (Crash i)
  with step obtain b where w: "worker_at p i = Busy b"
    and p': "p' = set_worker i Dead (p\<lparr>wp_done := wp_done p @ [b]\<rparr>)"
    by (auto split: worker_state.splits)
  have i: "i < length (wp_workers p)" using w by (intro worker_at_less) simp
  have wi: "wp_workers p ! i = Busy b" using w worker_at_nth [OF i] by simp
  have "in_hand p' + {#b#} = in_hand p"
    using in_hand_set_worker [of i "p\<lparr>wp_done := wp_done p @ [b]\<rparr>" Dead] i by (simp add: p' wi)
  then show ?thesis
    using ok i wi receiving_set_worker [OF i, of Dead] stopped_set_worker [OF i, of Dead]
    by (auto simp: pool_ok_def p')
qed

lemma pool_reach_ok: "pool_reach n p \<Longrightarrow> pool_ok n p"
  by (induction rule: pool_reach.induct) (auto simp: pool_step_iff intro: pool_ok_new pool_ok_step)

section \<open>Properties\<close>

text \<open>C8. In every reachable state of the pool the channel holds at most 1000 batches, at most one worker
  holds the receiver, the workers have received exactly a prefix of the sent batches, in order, and
  each of those once: every batch sent is queued, in the hands of one worker, or finished. A worker
  stops only when all senders are gone and the queue is drained.\<close>

theorem worker_pool_invariant:
  assumes "pool_reach n p"
  shows "length (wp_queue p) \<le> channel_capacity \<and>
    length (filter (\<lambda>s. s = Receiving) (wp_workers p)) \<le> 1 \<and>
    wp_sent p = wp_taken p @ wp_queue p \<and>
    mset (wp_sent p) = mset (wp_queue p) + in_hand p + mset (wp_done p) \<and>
    (Stopped \<in> set (wp_workers p) \<longrightarrow> wp_senders p = 0 \<and> wp_queue p = [])"
proof -
  have "length (filter (\<lambda>s. s = Receiving) (wp_workers p)) = count (mset (wp_workers p)) Receiving"
    by (simp add: count_mset count_list_eq_length_filter eq_commute [of _ Receiving])
  with pool_reach_ok [OF assms] show ?thesis by (simp add: pool_ok_def)
qed

text \<open>C27. The pool does not get stuck: while a batch is queued and a worker is left, some worker can take
  its next step (take the lock, receive a batch, or finish the one it has) without any new batch.\<close>

theorem worker_pool_progress:
  assumes "pool_reach n p" and "wp_queue p \<noteq> []" and "receiver_alive p"
  shows "\<exists>i p'. i < n \<and> (pool_step p (Lock i) p' \<or> pool_step p (Recv i) p' \<or> pool_step p (Finish i) p')"
proof -
  have ok: "pool_ok n p" by (rule pool_reach_ok [OF assms(1)])
  then have n: "length (wp_workers p) = n" by (simp add: pool_ok_def)
  obtain i where i: "i < n" and alive: "wp_workers p ! i \<noteq> Stopped" "wp_workers p ! i \<noteq> Dead"
    using assms(3) n by (auto simp: receiver_alive_def list_ex_iff in_set_conv_nth)
  have at: "worker_at p i = wp_workers p ! i" using i n by (simp add: worker_at_nth)
  show ?thesis
  proof (cases "wp_workers p ! i")
    case Waiting
    show ?thesis
    proof (cases "receiver_free p")
      case True
      with Waiting at i show ?thesis by (auto simp: pool_step_iff)
    next
      case False
      then obtain j where "j < n" "wp_workers p ! j = Receiving"
        using n by (auto simp: receiver_free_def in_set_conv_nth)
      then show ?thesis
        using assms(2) n by (auto simp: pool_step_iff worker_at_nth neq_Nil_conv intro!: exI [of _ j])
    qed
  next
    case Receiving
    with at i assms(2) show ?thesis by (auto simp: pool_step_iff neq_Nil_conv intro!: exI [of _ i])
  next
    case (Busy b)
    with at i show ?thesis by (auto simp: pool_step_iff intro!: exI [of _ i])
  qed (use alive in simp_all)
qed

text \<open>The courses a worker's handling of a batch can take.\<close>

lemma process_batch_cases:
  assumes "process_batch rp pg b58 clock ord config transactions (d, w) = (r, (d', w'))"
  obtains (idle) "transactions = []" "r = Ok ()" "db_tables d' = db_tables d" "w' = w"
  | (fault) "transactions \<noteq> []" "fails_at 0 d" "r = Ok ()" "db_tables d' = db_tables d" "w' = w"
  | (no_client) "rpc_rate_limit config = Some 0" "r = Panic" "db_tables d' = db_tables d" "w' = w"
      "transactions \<noteq> []" "\<not> fails_at 0 d"
  | (run) addrs d1 client q where "rpc_rate_limit config \<noteq> Some 0"
      "set addrs = {a. has_address a (db_tables d)}" "db_tables d1 = db_tables d"
      "process_transaction_batch rp client pg b58 clock ord (map tx_signature transactions) (set addrs)
         (d1, w) = (q, (d', w'))"
      "r = (if q = Panic then Panic else Ok ())" "transactions \<noteq> []" "\<not> fails_at 0 d"
      "solana_client_new config = (Ok client :: (unit, solana_client) res)"
proof (cases "transactions = []")
  case True
  with assms idle show ?thesis by (simp add: process_batch_def)
next
  case ne: False
  obtain q d1 where g: "get_all_tracked_addresses d = (q, d1)" by fastforce
  note g1 = get_all_tables [OF g]
  show ?thesis
  proof (cases q)
    case (Err e)
    have "fails_at 0 d" using get_all_fails [OF g] Err by simp
    moreover have "r = Ok ()" and "d' = d1" and "w' = w" using Err ne g assms by (simp_all add: process_batch_def)
    ultimately show ?thesis using fault ne g1 by blast
  next
    case Panic
    with g1 show ?thesis by simp
  next
    case (Ok addrs)
    note tracked = get_all_Ok [OF g [unfolded Ok]]
    have fine: "\<not> fails_at 0 d" using get_all_fails [OF g] Ok by simp
    show ?thesis
    proof (cases "solana_client_new config :: (unit, solana_client) res")
      case client: (Ok client)
      obtain q2 d2 w2 where b: "process_transaction_batch rp client pg b58 clock ord
          (map tx_signature transactions) (set addrs) (d1, w) = (q2, (d2, w2))"
        by (metis surj_pair)
      have "rpc_rate_limit config \<noteq> Some 0"
        using client by (auto simp: solana_client_new_def Let_def split: if_splits)
      moreover have "r = (if q2 = Panic then Panic else Ok ()) \<and> d' = d2 \<and> w' = w2"
        using assms ne g b client Ok by (cases q2) (auto simp: process_batch_def Let_def)
      ultimately show ?thesis using run tracked b ne fine client by blast
    next
      case client: Panic
      have "r = Panic" and "d' = d1" and "w' = w" using assms ne g client Ok by (simp_all add: process_batch_def Let_def)
      moreover have "rpc_rate_limit config = Some 0"
        using client by (auto simp: solana_client_new_def Let_def split: if_splits option.splits)
      ultimately show ?thesis using no_client tracked ne fine by blast
    next
      case (Err e)
      then show ?thesis by (auto simp: solana_client_new_def Let_def split: if_splits)
    qed
  qed
qed

lemma process_batch_stored:
  assumes "process_batch rp pg b58 clock ord config transactions (d, w) = (r, (d', w'))"
    and "\<forall>a. clock a \<noteq> None"
  shows "\<exists>ts. (\<forall>t \<in> set ts. tx_signature t \<in> tx_signature ` set transactions \<and>
      (\<exists>a \<in> set (tx_addresses t). has_address a (db_tables d))) \<and>
    t_txs (db_tables d') = merge_rows (t_txs (db_tables d)) ts"
  using assms(1)
proof (cases rule: process_batch_cases)
  case (run addrs d1 client q)
  have "\<exists>ts. (\<forall>t \<in> set ts. is_transaction_relevant t (set addrs) \<and>
        tx_signature t \<in> set (map tx_signature transactions)) \<and>
      t_txs (db_tables d') = merge_rows (t_txs (db_tables d)) ts"
    using batch_outcome [OF run(4) assms(2)] run(3) merge_rows_simps(1) [of "t_txs (db_tables d)"]
    by (metis (no_types, lifting) empty_iff list.set(1))
  then show ?thesis
    using run(2) by (force simp: is_transaction_relevant_iff)
qed (auto intro: exI [of _ "[]"])

lemma process_batch_tables_ok:
  assumes "process_batch rp pg b58 clock ord config transactions (d, w) = (r, (d', w'))"
    and "\<forall>a. clock a \<noteq> None" and "tables_ok (db_tables d)"
  shows "tables_ok (db_tables d')"
  using assms(1)
proof (cases rule: process_batch_cases)
  case (run addrs d1 client q)
  show ?thesis by (rule batch_tables_ok [OF run(4) assms(2)]) (simp add: run(3) assms(3))
qed (simp_all add: assms(3))

text \<open>C24. What a worker does with a batch. It leaves everything as it is for an empty batch or if the tracked
  addresses cannot be read, and panics for a rate limit of 0. Otherwise it asks the node once for every
  signature of the batch, in order: the transactions it was handed count for nothing but their
  signatures. If a call panics so does the worker, with the tables unchanged; else it ends without an
  error and has stored all transactions extracted from the answers that touch an address tracked when
  it began, as one batch, or none of them.\<close>

theorem worker_batch_effect:
  assumes "process_batch rp pg b58 clock ord config transactions (d, w) = (r, (d', w'))"
    and "\<forall>a. clock a \<noteq> None" and "tables_ok (db_tables d)"
  shows "tables_ok (db_tables d') \<and>
    (if transactions = [] \<or> fails_at 0 d then r = Ok () \<and> db_tables d' = db_tables d \<and> w' = w
     else if rpc_rate_limit config = Some 0 then r = Panic \<and> db_tables d' = db_tables d \<and> w' = w
     else \<exists>cl qs w1. solana_client_new config = (Ok cl :: (unit, solana_client) res) \<and>
       node_answers rp cl (map tx_signature transactions) w = (qs, w1) \<and>
       (if Panic \<in> set qs then r = Panic \<and> db_tables d' = db_tables d
        else r = Ok () \<and> w' = w1 \<and>
          t_txs (db_tables d') \<in> {t_txs (db_tables d), merge_rows (t_txs (db_tables d))
            (concat (map2 (relevant_answer pg {a. has_address a (db_tables d)})
               (map tx_signature transactions) qs))}))"
  using assms(1)
proof (cases rule: process_batch_cases)
  case (run addrs d1 client q)
  let ?sigs = "map tx_signature transactions"
  obtain qs w1 where qs: "node_answers rp client ?sigs w = (qs, w1)" by fastforce
  from collect_chunk_answers [OF qs, of pg "set addrs"] batch_outcome [OF run(4) assms(2)]
  have "if Panic \<in> set qs then r = Panic \<and> db_tables d' = db_tables d
    else r = Ok () \<and> w' = w1 \<and>
      t_txs (db_tables d') \<in> {t_txs (db_tables d), merge_rows (t_txs (db_tables d))
        (concat (map2 (relevant_answer pg {a. has_address a (db_tables d)}) ?sigs qs))}"
    unfolding run(2,3,5) by (auto simp: run(3) split: if_splits)
  with run(1,6,7,8) qs process_batch_tables_ok [OF assms] show ?thesis by auto
qed (use assms(3) in auto)

section \<open>Witnesses\<close>

text \<open>Two workers, the first busy with the first of two batches.\<close>

definition sample_pool :: worker_pool where
  "sample_pool =
     \<lparr>wp_queue = [[bm_tx ''2'' ''b'']], wp_senders = 1,
      wp_workers = [Busy [bm_tx ''1'' ''a''], Waiting],
      wp_sent = [[bm_tx ''1'' ''a''], [bm_tx ''2'' ''b'']], wp_taken = [[bm_tx ''1'' ''a'']], wp_done = []\<rparr>"

fun pool_run :: "pool_event list \<Rightarrow> worker_pool \<Rightarrow> worker_pool option" where
  "pool_run [] p = Some p"
| "pool_run (e # es) p = Option.bind (pool_next e p) (pool_run es)"

lemma pool_run_reach: "pool_reach n p \<Longrightarrow> pool_run es p = Some p' \<Longrightarrow> pool_reach n p'"
proof (induction es arbitrary: p)
  case (Cons e es)
  then obtain p1 where "pool_next e p = Some p1" "pool_run es p1 = Some p'"
    by (auto simp: Option.bind_eq_Some_conv)
  with Cons show ?case by (blast intro: pool_more pool_step.intros)
qed simp

lemma sample_pool_reach: "pool_reach 2 sample_pool"
proof (rule pool_run_reach [OF pool_init])
  show "pool_run [Send [bm_tx ''1'' ''a''], Lock 0, Send [bm_tx ''2'' ''b''], Recv 0]
      (pool_of 2) = Some sample_pool"
    by (simp add: pool_of_def sample_pool_def receiver_alive_def receiver_free_def
        channel_capacity_def worker_at_def set_worker_def numeral_2_eq_2)
qed

theorem worker_pool_invariant_witness:
  "mset (wp_sent sample_pool) = mset (wp_queue sample_pool) + in_hand sample_pool + mset (wp_done sample_pool)"
  using worker_pool_invariant [OF sample_pool_reach] by blast

theorem worker_pool_progress_witness:
  "\<exists>i p'. i < 2 \<and> (pool_step sample_pool (Lock i) p' \<or> pool_step sample_pool (Recv i) p' \<or>
     pool_step sample_pool (Finish i) p')"
  by (rule worker_pool_progress [OF sample_pool_reach])
    (simp_all add: sample_pool_def receiver_alive_def)

definition no_limit_config :: config where
  "no_limit_config = (from_env (\<lambda>_. None))\<lparr>rpc_rate_limit := Some 0\<rparr>"

text \<open>A worker that is handed a made-up transaction of signature \<open>s9\<close> stores the one the node knows, or
  nothing.\<close>

theorem worker_batch_effect_witness:
  "\<exists>r d' w'. process_batch bob_rpc sample_pg any_b58 (\<lambda>_. Some 9) (\<lambda>xs. xs) (from_env (\<lambda>_. None))
     [bm_tx ''s9'' ''x''] (sample_db, 0) = (r, (d', w')) \<and> r = Ok () \<and> w' = 1 \<and>
     t_txs (db_tables d') \<in> {[sample_row], [sample_row, row_of_tx bob_tx]}"
proof -
  let ?c = "from_env (\<lambda>_. None)"
  obtain r d' w' where b: "process_batch bob_rpc sample_pg any_b58 (\<lambda>_. Some 9) (\<lambda>xs. xs) ?c
      [bm_tx ''s9'' ''x''] (sample_db, 0) = (r, (d', w'))"
    by (metis surj_pair)
  have tracked: "{a. has_address a (db_tables sample_db)} = {ones}"
    by (auto simp: has_address_def sample_db_def)
  have bob: "relevant_answer sample_pg {ones} ''s9'' (Ok bob_td) = [bob_tx]"
    by (simp add: relevant_answer_def bob_extracted tx_addresses_def) (simp add: bob_tx_def)
  have sig: "tx_signature (bm_tx ''s9'' ''x'') = ''s9''" by (simp add: bm_tx_def)
  have new: "merge_rows [sample_row] [bob_tx] = [sample_row, row_of_tx bob_tx]"
    "t_txs (db_tables sample_db) = [sample_row]"
    by (simp_all add: sample_db_def sample_row_def bob_tx_def)
  have fine: "\<not> fails_at 0 sample_db" "rpc_rate_limit ?c \<noteq> Some 0" "[bm_tx ''s9'' ''x''] \<noteq> []"
    by (simp_all add: from_env_def Let_def)
  from worker_batch_effect [OF b _ sample_tables_ok] fine
  have "r = Ok () \<and> w' = 1 \<and> t_txs (db_tables d') \<in> {[sample_row], [sample_row, row_of_tx bob_tx]}"
    by (auto simp: sig tracked bob_get bob new simp del: merge_rows_simps)
  with b show ?thesis by blast
qed

end
