(* ===== verification/Polling.thy ===== *)
theory Polling
  imports Worker_Pool
begin

text \<open>
  Polling the chain, \<^verbatim>\<open>src/blockchain/polling.rs\<close>: handing fetched transactions to the batch manager,
  the walk through the history of an address, the scan of new slots, and the loop that tracks the
  current slot. \<open>tick\<close> waits for the lock of the batch manager and makes the two clock readings of an
  add; it may advance the state \<open>'w\<close> of the environment, as every call of the node may. It is \<open>None\<close>
  if the lock is never granted. So is every operation that waits for it, as one that never returns.
\<close>

type_synonym 'w clockwork = "'w \<Rightarrow> ((nat \<times> nat) \<times> 'w) option"
type_synonym ('w, 'a) poll =
  "batch_manager \<times> 'w \<Rightarrow> ((client_error, 'a) res \<times> batch_manager \<times> 'w) option"

section \<open>\<open>process_transaction_signatures\<close>\<close>

text \<open>The calls of \<open>join_all\<close>, their results in the order of the signatures, and the extraction.\<close>

fun fetch_chunk ::
  "('w, 'pi) rpc \<Rightarrow> solana_client \<Rightarrow> 'pi programs \<Rightarrow> string list \<Rightarrow> ('w, transaction list) call" where
  "fetch_chunk rp cl pg [] w = (Ok [], w)"
| "fetch_chunk rp cl pg (sig # sigs) w =
     (case get_transaction rp cl sig w of
        (Panic, w1) \<Rightarrow> (Panic, w1)
      | (Err e, w1) \<Rightarrow> fetch_chunk rp cl pg sigs w1
      | (Ok tx, w1) \<Rightarrow>
          (case extract_transaction pg sig tx of
             Ok (Some t) \<Rightarrow>
               (case fetch_chunk rp cl pg sigs w1 of
                  (Ok ts, w2) \<Rightarrow> (Ok (t # ts), w2)
                | out \<Rightarrow> out)
           | Ok None \<Rightarrow> fetch_chunk rp cl pg sigs w1
           | _ \<Rightarrow> (Panic, w1)))"

fun add_all ::
  "drain_order \<Rightarrow> 'w clockwork \<Rightarrow> transaction list \<Rightarrow> batch_manager \<times> 'w \<Rightarrow>
   (batch_manager \<times> 'w) option" where
  "add_all ord tick [] s = Some s"
| "add_all ord tick (t # ts) (m, w) =
     (case tick w of
        None \<Rightarrow> None
      | Some ((now, reset), w1) \<Rightarrow> add_all ord tick ts (add_transaction ord now reset t m, w1))"

fun process_chunks ::
  "('w, 'pi) rpc \<Rightarrow> solana_client \<Rightarrow> 'pi programs \<Rightarrow> drain_order \<Rightarrow> 'w clockwork \<Rightarrow> string list list \<Rightarrow>
   nat \<Rightarrow> ('w, nat) poll" where
  "process_chunks rp cl pg ord tick [] processed s = Some (Ok processed, s)"
| "process_chunks rp cl pg ord tick (c # cs) processed (m, w) =
     (case fetch_chunk rp cl pg c w of
        (Ok chunk_transactions, w1) \<Rightarrow>
          Option.bind (add_all ord tick chunk_transactions (m, w1))
            (process_chunks rp cl pg ord tick cs (processed + length chunk_transactions))
      | (Err e, w1) \<Rightarrow> Some (Err e, (m, w1))
      | (Panic, w1) \<Rightarrow> Some (Panic, (m, w1)))"

definition process_transaction_signatures ::
  "('w, 'pi) rpc \<Rightarrow> solana_client \<Rightarrow> 'pi programs \<Rightarrow> drain_order \<Rightarrow> 'w clockwork \<Rightarrow> string list \<Rightarrow>
   ('w, nat) poll" where
  "process_transaction_signatures rp cl pg ord tick signatures s =
     (if signatures = [] then Some (Ok 0, s)
      else process_chunks rp cl pg ord tick (chunks 10 signatures) 0 s)"

section \<open>The history of an address\<close>

definition history_limit :: nat where "history_limit = 50"
definition max_age_secs :: i64 where "max_age_secs = 60 * 60 * 24 * 90"

text \<open>The loop; a walk that never ends, in the loop or for the lock, is \<open>None\<close>.\<close>

partial_function (option) history_loop ::
  "('w, 'pi) rpc \<Rightarrow> solana_client \<Rightarrow> 'pi programs \<Rightarrow> drain_order \<Rightarrow> 'w clockwork \<Rightarrow> i64 \<Rightarrow> string \<Rightarrow>
   string option \<Rightarrow> nat \<Rightarrow> string set \<Rightarrow> batch_manager \<times> 'w \<Rightarrow>
   ((client_error, nat) res \<times> batch_manager \<times> 'w) option" where
  "history_loop rp cl pg ord tick now address before total_processed seen s =
     (case get_signatures_for_address rp cl address before None (Some history_limit) (snd s) of
        (Panic, w1) \<Rightarrow> Some (Panic, (fst s, w1))
      | (Err e, w1) \<Rightarrow> Some (Ok total_processed, (fst s, w1))
      | (Ok signatures, w1) \<Rightarrow>
          if signatures = [] then Some (Ok total_processed, (fst s, w1))
          else
            let before1 = Some (si_signature (last signatures));
                oldest_tx_time = (case si_block_time (last signatures) of None \<Rightarrow> 0 | Some t \<Rightarrow> t)
            in if max_age_secs < wrap_i64 (now - oldest_tx_time)
               then Some (Ok total_processed, (fst s, w1))
               else
                 let new_signatures = filter (\<lambda>sig. sig \<notin> seen) (map si_signature signatures)
                 in if new_signatures = [] then Some (Ok total_processed, (fst s, w1))
                    else case process_transaction_signatures rp cl pg ord tick new_signatures (fst s, w1) of
                      None \<Rightarrow> None
                    | Some (Panic, s2) \<Rightarrow> Some (Panic, s2)
                    | Some (Err e, s2) \<Rightarrow> Some (Err e, s2)
                    | Some (Ok batch_result, s2) \<Rightarrow>
                        if length signatures < history_limit
                        then Some (Ok (total_processed + batch_result), s2)
                        else history_loop rp cl pg ord tick now address before1
                               (total_processed + batch_result) (seen \<union> set new_signatures) s2)"

definition process_historical_address ::
  "('w, 'pi) rpc \<Rightarrow> solana_client \<Rightarrow> 'pi programs \<Rightarrow> drain_order \<Rightarrow> 'w clockwork \<Rightarrow> u64 option \<Rightarrow> string \<Rightarrow>
   batch_manager \<times> 'w \<Rightarrow> ((client_error, nat) res \<times> batch_manager \<times> 'w) option" where
  "process_historical_address rp cl pg ord tick clock address s =
     (let now = u64_as_i64 (case clock of None \<Rightarrow> 0 | Some secs \<Rightarrow> secs)
      in history_loop rp cl pg ord tick now address None 0 {} s)"

fun historical_addresses ::
  "('w, 'pi) rpc \<Rightarrow> solana_client \<Rightarrow> 'pi programs \<Rightarrow> drain_order \<Rightarrow> 'w clockwork \<Rightarrow> (string \<Rightarrow> u64 option) \<Rightarrow>
   string list \<Rightarrow> nat \<Rightarrow> batch_manager \<times> 'w \<Rightarrow>
   ((client_error, nat) res \<times> batch_manager \<times> 'w) option" where
  "historical_addresses rp cl pg ord tick clock [] total_processed s = Some (Ok total_processed, s)"
| "historical_addresses rp cl pg ord tick clock (addr # addrs) total_processed s =
     (case process_historical_address rp cl pg ord tick (clock addr) addr s of
        None \<Rightarrow> None
      | Some (Ok n, s1) \<Rightarrow> historical_addresses rp cl pg ord tick clock addrs (total_processed + n) s1
      | Some (Err e, s1) \<Rightarrow> historical_addresses rp cl pg ord tick clock addrs total_processed s1
      | Some (Panic, s1) \<Rightarrow> Some (Panic, s1))"

definition poll_historical_transactions ::
  "('w, 'pi) rpc \<Rightarrow> solana_client \<Rightarrow> 'pi programs \<Rightarrow> drain_order \<Rightarrow> 'w clockwork \<Rightarrow> (string \<Rightarrow> u64 option) \<Rightarrow>
   db \<times> batch_manager \<times> 'w \<Rightarrow> ((client_error, nat) res \<times> db \<times> batch_manager \<times> 'w) option" where
  "poll_historical_transactions rp cl pg ord tick clock s =
     (case get_all_tracked_addresses (fst s) of
        (Err e, d1) \<Rightarrow> Some (Ok 0, (d1, snd s))
      | (Panic, d1) \<Rightarrow> Some (Panic, (d1, snd s))
      | (Ok addrs, d1) \<Rightarrow>
          if addrs = [] then Some (Ok 0, (d1, snd s))
          else map_option (\<lambda>(r, s1). (r, (d1, s1)))
                 (historical_addresses rp cl pg ord tick clock addrs 0 (snd s)))"

text \<open>The task that polls the history: a turn per timer tick, whose result is only logged.\<close>

fun historical_turns ::
  "('w, 'pi) rpc \<Rightarrow> solana_client \<Rightarrow> 'pi programs \<Rightarrow> drain_order \<Rightarrow> 'w clockwork \<Rightarrow>
   (string \<Rightarrow> u64 option) list \<Rightarrow> db \<times> batch_manager \<times> 'w \<Rightarrow>
   ((client_error, unit) res \<times> db \<times> batch_manager \<times> 'w) option" where
  "historical_turns rp cl pg ord tick [] s = Some (Ok (), s)"
| "historical_turns rp cl pg ord tick (clock # clocks) s =
     (case poll_historical_transactions rp cl pg ord tick clock s of
        None \<Rightarrow> None
      | Some (Ok n, s1) \<Rightarrow> historical_turns rp cl pg ord tick clocks s1
      | Some (Err e, s1) \<Rightarrow> historical_turns rp cl pg ord tick clocks s1
      | Some (Panic, s1) \<Rightarrow> Some (Panic, s1))"

section \<open>New slots\<close>

text \<open>\<open>(start_slot..=end_slot).step_by(10)\<close>, and the end of each range; the addition wraps.\<close>

definition range_size :: nat where "range_size = 10"

definition batch_starts :: "u64 \<Rightarrow> u64 \<Rightarrow> u64 list" where
  "batch_starts start_slot end_slot =
     (if end_slot < start_slot then []
      else map (\<lambda>k. start_slot + word_of_nat (range_size * k))
             [0 ..< (unat end_slot - unat start_slot) div range_size + 1])"

definition batch_end :: "u64 \<Rightarrow> u64 \<Rightarrow> u64" where
  "batch_end batch_start end_slot = min (batch_start + word_of_nat range_size - 1) end_slot"

fun range_signatures ::
  "('w, 'pi) rpc \<Rightarrow> solana_client \<Rightarrow> u64 \<Rightarrow> u64 \<Rightarrow> string list \<Rightarrow> ('w, string list) call" where
  "range_signatures rp cl first final [] w = (Ok [], w)"
| "range_signatures rp cl first final (address # addresses) w =
     (case get_signatures_for_address rp cl address None None (Some 100) w of
        (Panic, w1) \<Rightarrow> (Panic, w1)
      | (Err e, w1) \<Rightarrow> range_signatures rp cl first final addresses w1
      | (Ok signatures, w1) \<Rightarrow>
          (let filtered_sigs = map si_signature
                 (filter (\<lambda>sig. first \<le> si_slot sig \<and> si_slot sig \<le> final) signatures)
           in case range_signatures rp cl first final addresses w1 of
                (Ok sigs, w2) \<Rightarrow> (Ok (filtered_sigs @ sigs), w2)
              | out \<Rightarrow> out))"

fun poll_ranges ::
  "('w, 'pi) rpc \<Rightarrow> solana_client \<Rightarrow> 'pi programs \<Rightarrow> drain_order \<Rightarrow> 'w clockwork \<Rightarrow> string list \<Rightarrow> u64 \<Rightarrow>
   u64 list \<Rightarrow> nat \<Rightarrow> ('w, nat) poll" where
  "poll_ranges rp cl pg ord tick tracked end_slot [] total_processed s = Some (Ok total_processed, s)"
| "poll_ranges rp cl pg ord tick tracked end_slot (b # bs) total_processed (m, w) =
     (case range_signatures rp cl b (batch_end b end_slot) tracked w of
        (Panic, w1) \<Rightarrow> Some (Panic, (m, w1))
      | (Err e, w1) \<Rightarrow> Some (Err e, (m, w1))
      | (Ok sigs, w1) \<Rightarrow>
          (let all_signatures = remdups_adj (sort sigs)
           in if all_signatures = []
              then poll_ranges rp cl pg ord tick tracked end_slot bs total_processed (m, w1)
              else case process_transaction_signatures rp cl pg ord tick all_signatures (m, w1) of
                None \<Rightarrow> None
              | Some (Ok n, s2) \<Rightarrow>
                  poll_ranges rp cl pg ord tick tracked end_slot bs (total_processed + n) s2
              | Some (Err e, s2) \<Rightarrow> poll_ranges rp cl pg ord tick tracked end_slot bs total_processed s2
              | Some (Panic, s2) \<Rightarrow> Some (Panic, s2)))"

text \<open>\<open>sord\<close> is the iteration order of the set of tracked addresses.\<close>

definition poll_new_transactions ::
  "('w, 'pi) rpc \<Rightarrow> solana_client \<Rightarrow> 'pi programs \<Rightarrow> drain_order \<Rightarrow> (string list \<Rightarrow> string list) \<Rightarrow>
   'w clockwork \<Rightarrow> u64 \<Rightarrow> u64 \<Rightarrow> db \<times> batch_manager \<times> 'w \<Rightarrow>
   ((client_error, nat) res \<times> db \<times> batch_manager \<times> 'w) option" where
  "poll_new_transactions rp cl pg ord sord tick start_slot end_slot s =
     (case get_all_tracked_addresses (fst s) of
        (Err e, d1) \<Rightarrow> Some (Ok 0, (d1, snd s))
      | (Panic, d1) \<Rightarrow> Some (Panic, (d1, snd s))
      | (Ok addresses, d1) \<Rightarrow>
          if addresses = [] then Some (Ok 0, (d1, snd s))
          else
            (let tracked_addresses = sord (remdups addresses)
             in map_option (\<lambda>(r, s1). (r, (d1, s1)))
                  (poll_ranges rp cl pg ord tick tracked_addresses end_slot
                     (batch_starts start_slot end_slot) 0 (snd s))))"

section \<open>The polling loop\<close>

text \<open>The initial slot, one turn of the loop at a timer tick, and the turns up to the shutdown.\<close>

definition initial_slot :: "('w, 'pi) rpc \<Rightarrow> solana_client \<Rightarrow> ('w, u64) call" where
  "initial_slot rp cl w =
     (case get_slot rp cl w of
        (Ok slot, w1) \<Rightarrow> (Ok slot, w1)
      | (Err e, w1) \<Rightarrow> (Ok 100000, w1)
      | (Panic, w1) \<Rightarrow> (Panic, w1))"

definition poll_turn ::
  "('w, 'pi) rpc \<Rightarrow> solana_client \<Rightarrow> 'pi programs \<Rightarrow> drain_order \<Rightarrow> (string list \<Rightarrow> string list) \<Rightarrow>
   'w clockwork \<Rightarrow> u64 \<Rightarrow> db \<times> batch_manager \<times> 'w \<Rightarrow>
   ((client_error, u64) res \<times> db \<times> batch_manager \<times> 'w) option" where
  "poll_turn rp cl pg ord sord tick current_slot s =
     (case s of (d, m, w) \<Rightarrow>
        (case get_slot rp cl w of
           (Panic, w1) \<Rightarrow> Some (Panic, (d, m, w1))
         | (Err e, w1) \<Rightarrow> Some (Ok current_slot, (d, m, w1))
         | (Ok latest_slot, w1) \<Rightarrow>
             if latest_slot \<le> current_slot then Some (Ok current_slot, (d, m, w1))
             else case poll_new_transactions rp cl pg ord sord tick current_slot latest_slot (d, m, w1) of
               None \<Rightarrow> None
             | Some (Ok n, s2) \<Rightarrow> Some (Ok latest_slot, s2)
             | Some (Err e, s2) \<Rightarrow> Some (Ok current_slot, s2)
             | Some (Panic, s2) \<Rightarrow> Some (Panic, s2)))"

fun poll_turns ::
  "('w, 'pi) rpc \<Rightarrow> solana_client \<Rightarrow> 'pi programs \<Rightarrow> drain_order \<Rightarrow> (string list \<Rightarrow> string list) \<Rightarrow>
   'w clockwork \<Rightarrow> nat \<Rightarrow> u64 \<Rightarrow> db \<times> batch_manager \<times> 'w \<Rightarrow>
   ((client_error, u64) res \<times> db \<times> batch_manager \<times> 'w) option" where
  "poll_turns rp cl pg ord sord tick 0 current_slot s = Some (Ok current_slot, s)"
| "poll_turns rp cl pg ord sord tick (Suc n) current_slot s =
     (case poll_turn rp cl pg ord sord tick current_slot s of
        None \<Rightarrow> None
      | Some (Ok slot, s1) \<Rightarrow> poll_turns rp cl pg ord sord tick n slot s1
      | Some (Err e, s1) \<Rightarrow> Some (Err e, s1)
      | Some (Panic, s1) \<Rightarrow> Some (Panic, s1))"

section \<open>What the batch manager took\<close>

definition manager_ok :: "batch_manager \<Rightarrow> bool" where
  "manager_ok m \<longleftrightarrow> buffer_ok (bm_buffer m) \<and> \<not> ch_closed (bm_channel m)"

definition held :: "batch_manager \<Rightarrow> transaction list" where
  "held m = all_sent m @ buffered (bm_buffer m)"

text \<open>From \<open>m\<close> to \<open>m'\<close> the manager took in the transactions \<open>ts\<close>, those of each source in their order.\<close>

definition took :: "batch_manager \<Rightarrow> transaction list \<Rightarrow> batch_manager \<Rightarrow> bool" where
  "took m ts m' \<longleftrightarrow>
     manager_ok m' \<and> mset (held m') = mset (held m) + mset ts \<and>
     (\<forall>k. filter (\<lambda>t. tx_source t = k) (held m') = filter (\<lambda>t. tx_source t = k) (held m @ ts))"

lemma took_refl [simp]: "manager_ok m \<Longrightarrow> took m [] m"
  by (simp add: took_def)

lemma took_trans: "took m ts m1 \<Longrightarrow> took m1 us m2 \<Longrightarrow> took m (ts @ us) m2"
  by (auto simp: took_def)

lemma took_ok: "took m ts m' \<Longrightarrow> manager_ok m'"
  by (simp add: took_def)

lemma bm_apply_took:
  assumes "iteration_order ord" and "manager_ok m"
  shows "took m (bm_inputs e) (bm_apply ord e m)"
proof -
  obtain out b where step: "bm_locked (bm_config m) ord e (bm_buffer m) = (out, b)"
    by fastforce
  have ok: "buffer_ok (bm_buffer m)" and op: "\<not> ch_closed (bm_channel m)"
    using assms(2) by (simp_all add: manager_ok_def)
  have run: "batcher_run (bm_locked (bm_config m) ord) [e] (bm_buffer m) = ([out], b)"
    by (simp add: step)
  have m': "bm_apply ord e m = m\<lparr>bm_buffer := b,
      bm_channel := (bm_channel m)\<lparr>ch_sent := ch_sent (bm_channel m) @ filter (\<lambda>x. x \<noteq> []) [out]\<rparr>\<rparr>"
    using fold_bm_apply [OF op run] by simp
  have h: "held (bm_apply ord e m) = all_sent m @ out @ buffered b"
    unfolding m' by (simp add: held_def all_sent_def)
  note fifo = bm_fifo [OF assms(1), of "bm_config m"]
  note b = fifo_batcher.axioms(1) [OF fifo]
  show ?thesis
    unfolding took_def h
    using batcher.step_ok [OF b ok step] batcher.step_mset [OF b ok step]
      fifo_batcher.step_fifo [OF fifo ok step] op
    by (simp add: manager_ok_def m' held_def ac_simps)
qed

lemmas add_transaction_took = bm_apply_took [of _ _ "Add t now reset" for t now reset, simplified]
lemmas perform_flush_check_took = bm_apply_took [of _ _ "Check now reset" for now reset, simplified]

lemma add_all_took:
  assumes "iteration_order ord"
  shows "manager_ok m \<Longrightarrow> add_all ord tick ts (m, w) = Some (m', w') \<Longrightarrow> took m ts m'"
proof (induction ts arbitrary: m w)
  case (Cons t ts)
  obtain now reset w1 where c: "tick w = Some ((now, reset), w1)"
    using Cons.prems(2) by (auto split: option.splits)
  let ?m1 = "add_transaction ord now reset t m"
  have 1: "took m [t] ?m1" by (rule add_transaction_took [OF assms Cons.prems(1)])
  have "took ?m1 ts m'" by (rule Cons.IH [OF took_ok [OF 1]]) (use Cons.prems(2) c in simp)
  from took_trans [OF 1 this] show ?case by simp
qed simp

lemma fetch_chunk_no_Err: "fetch_chunk rp cl pg sigs w \<noteq> (Err e, w')"
  by (induction sigs arbitrary: w) (auto split: prod.splits res.splits option.splits)

lemma fetch_chunk_subseq:
  "fetch_chunk rp cl pg sigs w = (Ok ts, w') \<Longrightarrow> subseq (map tx_signature ts) sigs"
proof (induction sigs arbitrary: w ts)
  case (Cons sig sigs)
  obtain r w1 where g: "get_transaction rp cl sig w = (r, w1)" by fastforce
  show ?case
  proof (cases r)
    case (Ok tx)
    show ?thesis
    proof (cases "extracted pg sig tx")
      case None
      with Cons g Ok show ?thesis by (auto intro: list_emb_Cons)
    next
      case (Some t)
      with Cons.prems g Ok obtain us where us: "fetch_chunk rp cl pg sigs w1 = (Ok us, w')" "ts = t # us"
        by (auto split: prod.splits res.splits)
      from Cons.IH [OF us(1)] extracted_signature [OF Some] us(2) show ?thesis by simp
    qed
  qed (use Cons g in \<open>auto intro: list_emb_Cons\<close>)
qed simp

lemma process_chunks_took:
  assumes "iteration_order ord"
  shows "manager_ok m \<Longrightarrow> process_chunks rp cl pg ord tick cs k (m, w) = Some (r, (m', w')) \<Longrightarrow>
    (\<forall>e. r \<noteq> Err e) \<and> (\<exists>ts. took m ts m' \<and> subseq (map tx_signature ts) (concat cs) \<and>
       (\<forall>n. r = Ok n \<longrightarrow> n = k + length ts))"
proof (induction cs arbitrary: m w k)
  case Nil
  then show ?case by (auto intro!: exI [of _ "[]"])
next
  case (Cons c cs)
  obtain q w1 where f: "fetch_chunk rp cl pg c w = (q, w1)" by fastforce
  show ?case
  proof (cases q)
    case (Ok ts)
    obtain m1 w2 where a: "add_all ord tick ts (m, w1) = Some (m1, w2)"
      using Cons.prems(2) f Ok by (auto simp: Option.bind_eq_Some_conv)
    have 1: "took m ts m1" by (rule add_all_took [OF assms Cons.prems(1) a])
    have "process_chunks rp cl pg ord tick cs (k + length ts) (m1, w2) = Some (r, (m', w'))"
      using Cons.prems(2) f Ok a by simp
    from Cons.IH [OF took_ok [OF 1] this] obtain us where
      us: "\<forall>e. r \<noteq> Err e" "took m1 us m'" "subseq (map tx_signature us) (concat cs)"
      "\<forall>n. r = Ok n \<longrightarrow> n = k + length ts + length us"
      by blast
    have "subseq (map tx_signature (ts @ us)) (concat (c # cs))"
      using fetch_chunk_subseq [OF f [unfolded Ok]] us(3) by (simp add: list_emb_append_mono)
    with us took_trans [OF 1 us(2)] show ?thesis by (auto intro!: exI [of _ "ts @ us"])
  next
    case (Err e)
    with f show ?thesis by (simp add: fetch_chunk_no_Err)
  next
    case Panic
    with f Cons.prems show ?thesis by (auto intro!: exI [of _ "[]"])
  qed
qed

lemma process_signatures_took:
  assumes "iteration_order ord" and "manager_ok m"
    and "process_transaction_signatures rp cl pg ord tick signatures (m, w) = Some (r, (m', w'))"
  obtains ts where "\<forall>e. r \<noteq> Err e" "took m ts m'" "subseq (map tx_signature ts) signatures"
    "\<forall>n. r = Ok n \<longrightarrow> n = length ts"
proof (cases "signatures = []")
  case True
  with assms(2,3) show ?thesis
    by (intro that [of "[]"]) (auto simp: process_transaction_signatures_def)
next
  case False
  then have "process_chunks rp cl pg ord tick (chunks 10 signatures) 0 (m, w) = Some (r, (m', w'))"
    using assms(3) by (simp add: process_transaction_signatures_def)
  from process_chunks_took [OF assms(1,2) this] show ?thesis by (auto intro: that)
qed

section \<open>Waiting for the lock\<close>

text \<open>\<open>granted tick\<close>: the lock is granted to everyone who waits for it; \<open>withheld tick\<close>: to nobody.\<close>

definition granted :: "'w clockwork \<Rightarrow> bool" where
  "granted tick \<longleftrightarrow> (\<forall>w. tick w \<noteq> None)"

definition withheld :: "'w clockwork \<Rightarrow> bool" where
  "withheld tick \<longleftrightarrow> (\<forall>w. tick w = None)"

lemma add_all_returns: "granted tick \<Longrightarrow> add_all ord tick ts s \<noteq> None"
proof (induction ts arbitrary: s)
  case (Cons t ts)
  then show ?case
    by (cases s) (auto simp: granted_def simp del: not_None_eq split: option.split)
qed simp

lemma process_chunks_returns: "granted tick \<Longrightarrow> process_chunks rp cl pg ord tick cs k s \<noteq> None"
proof (induction cs arbitrary: k s)
  case (Cons c cs)
  obtain m w where s: "s = (m, w)" by fastforce
  obtain q w1 where f: "fetch_chunk rp cl pg c w = (q, w1)" by fastforce
  from add_all_returns [OF Cons.prems] Cons show ?case
    by (cases q) (auto simp: s f bind_eq_None_conv)
qed simp

lemma process_signatures_returns:
  "granted tick \<Longrightarrow> process_transaction_signatures rp cl pg ord tick sigs s \<noteq> None"
  by (simp add: process_transaction_signatures_def process_chunks_returns del: not_None_eq)

text \<open>What returns without the lock has added nothing.\<close>

lemma add_all_withheld: "withheld tick \<Longrightarrow> add_all ord tick ts s = Some s' \<Longrightarrow> s' = s"
  by (cases ts; cases s) (auto simp: withheld_def)

lemma process_chunks_withheld:
  "withheld tick \<Longrightarrow> process_chunks rp cl pg ord tick cs k s = Some (r, s') \<Longrightarrow> fst s' = fst s"
proof (induction cs arbitrary: k s)
  case (Cons c cs)
  obtain m w where s: "s = (m, w)" by fastforce
  obtain q w1 where f: "fetch_chunk rp cl pg c w = (q, w1)" by fastforce
  from Cons show ?case
    by (cases q) (auto simp: s f Option.bind_eq_Some_conv dest!: add_all_withheld [OF Cons.prems(1)])
qed simp

lemma process_signatures_withheld:
  "withheld tick \<Longrightarrow> process_transaction_signatures rp cl pg ord tick sigs s = Some (r, s') \<Longrightarrow>
   fst s' = fst s"
  by (auto simp: process_transaction_signatures_def dest: process_chunks_withheld split: if_splits)

section \<open>The walk through the history\<close>

text \<open>The signatures the node can report for an address, in any of its states.\<close>

definition pages_ok :: "('w, 'pi) rpc \<Rightarrow> solana_client \<Rightarrow> string \<Rightarrow> (string list \<Rightarrow> bool) \<Rightarrow> bool" where
  "pages_ok rp cl address P \<longleftrightarrow>
     (\<forall>before w sigs w'. get_signatures_for_address rp cl address before None (Some history_limit) w =
        (Ok sigs, w') \<longrightarrow> P (map si_signature sigs))"

lemma pages_okD:
  "pages_ok rp cl address P \<Longrightarrow>
   get_signatures_for_address rp cl address before None (Some history_limit) w = (Ok sigs, w') \<Longrightarrow>
   P (map si_signature sigs)"
  unfolding pages_ok_def by blast

text \<open>Every turn that goes on sees a new signature, so the loop ends if there are finitely many.\<close>

lemma history_loop_returns:
  assumes "finite U" and "pages_ok rp cl address (\<lambda>sigs. set sigs \<subseteq> U)" and "granted tick"
  shows "\<exists>out. history_loop rp cl pg ord tick now address before total_processed seen s = Some out"
proof (induction "card (U - seen)" arbitrary: before total_processed seen s rule: less_induct)
  case less
  obtain r w1 where g: "get_signatures_for_address rp cl address before None (Some history_limit) (snd s) =
      (r, w1)" by fastforce
  show ?case
  proof (cases r)
    case (Ok signatures)
    let ?new = "filter (\<lambda>sig. sig \<notin> seen) (map si_signature signatures)"
    show ?thesis
    proof (cases "?new = []")
      case True
      then show ?thesis by (subst history_loop.simps) (simp add: g Ok Let_def)
    next
      case False
      have sub: "set ?new \<subseteq> U - seen" using pages_okD [OF assms(2) g [unfolded Ok]] by auto
      have "U - (seen \<union> set ?new) \<subset> U - seen"
        using False sub by (auto simp: filter_empty_conv)
      then have "card (U - (seen \<union> set ?new)) < card (U - seen)"
        by (rule psubset_card_mono [rotated]) (use assms(1) in simp)
      note IH = less [OF this]
      obtain r2 s2 where p: "process_transaction_signatures rp cl pg ord tick ?new (fst s, w1) = Some (r2, s2)"
        using process_signatures_returns [OF assms(3)] by fastforce
      show ?thesis
        using IH by (subst history_loop.simps) (cases r2; simp add: g Ok Let_def p)
    qed
  qed (subst history_loop.simps, simp add: g)+
qed

lemma subseq_members:
  assumes "subseq xs ys"
  shows "set xs \<subseteq> set ys" and "distinct ys \<Longrightarrow> distinct xs"
proof -
  obtain I where "xs = nths ys I" using assms by (auto simp: subseq_conv_nths)
  then show "set xs \<subseteq> set ys" and "distinct ys \<Longrightarrow> distinct xs"
    by (auto simp: set_nths_subset)
qed

text \<open>What the walk adds: each signature at most once, none of the seen ones.\<close>

definition walked ::
  "batch_manager \<Rightarrow> nat \<Rightarrow> string set \<Rightarrow> (client_error, nat) res \<Rightarrow> batch_manager \<Rightarrow> bool" where
  "walked m k seen r m' \<longleftrightarrow>
     (\<forall>e. r \<noteq> Err e) \<and> (\<exists>ts. took m ts m' \<and> distinct (map tx_signature ts) \<and>
       tx_signature ` set ts \<inter> seen = {} \<and> (\<forall>n. r = Ok n \<longrightarrow> n = k + length ts))"

lemma walked_stop: "manager_ok m \<Longrightarrow> r = Ok k \<or> r = Panic \<Longrightarrow> walked m k seen r m"
  by (auto simp: walked_def intro!: exI [of _ "[]"])

lemma walked_page:
  assumes "took m ts m1" and "subseq (map tx_signature ts) new" and "distinct new" "set new \<inter> seen = {}"
    and "r = Ok (k + length ts) \<or> r = Panic"
  shows "walked m k seen r m1"
proof -
  have "set (map tx_signature ts) \<subseteq> set new" and "distinct (map tx_signature ts)"
    using subseq_members [OF assms(2)] assms(3) by blast+
  with assms(1,4,5) show ?thesis by (auto simp: walked_def intro!: exI [of _ ts])
qed

lemma walked_more:
  assumes "took m ts m1" and "subseq (map tx_signature ts) new" and "distinct new" "set new \<inter> seen = {}"
    and "walked m1 (k + length ts) (seen \<union> set new) r m'"
  shows "walked m k seen r m'"
proof -
  have sub: "set (map tx_signature ts) \<subseteq> set new" and d: "distinct (map tx_signature ts)"
    using subseq_members [OF assms(2)] assms(3) by blast+
  obtain us where us: "took m1 us m'" "distinct (map tx_signature us)"
    "tx_signature ` set us \<inter> (seen \<union> set new) = {}" "\<forall>n. r = Ok n \<longrightarrow> n = k + length ts + length us"
    "\<forall>e. r \<noteq> Err e"
    using assms(5) by (auto simp: walked_def)
  have "distinct (map tx_signature (ts @ us))" "tx_signature ` set (ts @ us) \<inter> seen = {}"
    using d us(2,3) sub assms(4) by auto
  moreover have "\<forall>n. r = Ok n \<longrightarrow> n = k + length (ts @ us)" using us(4) by (simp add: add.assoc)
  ultimately show ?thesis
    unfolding walked_def using us(5) took_trans [OF assms(1) us(1)] by blast
qed

lemma history_loop_walked_aux:
  "history_loop rp cl pg ord tick now address before total_processed seen s = Some out \<Longrightarrow>
   iteration_order ord \<longrightarrow> pages_ok rp cl address distinct \<longrightarrow> manager_ok (fst s) \<longrightarrow>
   walked (fst s) total_processed seen (fst out) (fst (snd out))"
proof (induction rule: history_loop.raw_induct [rotated, consumes 1, case_names step])
  case (step loop rp cl pg ord tick now address before total_processed seen s out)
  show ?case
  proof (intro impI)
    assume ord: "iteration_order ord" and pages: "pages_ok rp cl address distinct"
      and ok: "manager_ok (fst s)"
    obtain r w1 where g: "get_signatures_for_address rp cl address before None (Some history_limit) (snd s) =
        (r, w1)" by fastforce
    show "walked (fst s) total_processed seen (fst out) (fst (snd out))"
    proof (cases r)
      case (Ok signatures)
      let ?new = "filter (\<lambda>sig. sig \<notin> seen) (map si_signature signatures)"
      have d: "distinct ?new" and n: "set ?new \<inter> seen = {}"
        using pages_okD [OF pages g [unfolded Ok]] by auto
      show ?thesis
      proof (cases "out = (Ok total_processed, (fst s, w1))")
        case True
        then show ?thesis using ok by (simp add: walked_stop)
      next
        case False
        obtain r2 m2 w2 where p: "process_transaction_signatures rp cl pg ord tick ?new (fst s, w1) =
            Some (r2, (m2, w2))"
          using step(2) False by (auto simp: g Ok Let_def split: if_splits option.splits)
        obtain ts where ts: "\<forall>e. r2 \<noteq> Err e" "took (fst s) ts m2" "subseq (map tx_signature ts) ?new"
          "\<forall>n. r2 = Ok n \<longrightarrow> n = length ts"
          by (rule process_signatures_took [OF ord ok p])
        note page = walked_page [OF ts(2,3) d n]
        show ?thesis
        proof (cases r2)
          case r2: (Ok k)
          with ts(4) have k: "k = length ts" by simp
          let ?rest = "loop rp cl pg ord tick now address (Some (si_signature (last signatures)))
                 (total_processed + k) (seen \<union> set ?new) (m2, w2)"
          have "(if length signatures < history_limit
              then Some (Ok (total_processed + k), (m2, w2)) else ?rest) = Some out"
            using step(2) False unfolding g Ok p r2 Let_def prod.case res.case option.case
            by (simp only: split: if_split_asm) simp_all
          then consider "out = (Ok (total_processed + k), (m2, w2))" | "?rest = Some out"
            by (cases "length signatures < history_limit") simp_all
          then show ?thesis
          proof cases
            case 1
            then show ?thesis using page k by simp
          next
            case 2
            have "manager_ok (fst (m2, w2))" using took_ok [OF ts(2)] by simp
            note IH = step(1) [OF 2, THEN mp, OF ord, THEN mp, OF pages, THEN mp, OF this]
            from IH have "walked m2 (total_processed + length ts) (seen \<union> set ?new) (fst out) (fst (snd out))"
              by (simp only: k fst_conv)
            from walked_more [OF ts(2,3) d n this] show ?thesis .
          qed
        next
          case Panic
          with step(2) False have "out = (Panic, (m2, w2))"
            by (auto simp: g Ok p Let_def split: if_splits)
          then show ?thesis using page by simp
        qed (use ts(1) in blast)
      qed
    qed (use step(2) ok walked_stop in \<open>auto simp: g\<close>)
  qed
qed

lemma history_loop_walked:
  assumes "history_loop rp cl pg ord tick now address before total_processed seen (m, w) = Some (r, (m', w'))"
    and "iteration_order ord" and "pages_ok rp cl address distinct" and "manager_ok m"
  shows "walked m total_processed seen r m'"
  using history_loop_walked_aux [OF assms(1)] assms(2-4) by simp

text \<open>A walk that returns without the lock has handed nothing on.\<close>

lemma history_loop_withheld:
  "history_loop rp cl pg ord tick now address before total_processed seen s = Some out \<Longrightarrow>
   withheld tick \<longrightarrow> fst (snd out) = fst s"
proof (induction rule: history_loop.raw_induct [rotated, consumes 1, case_names step])
  case (step loop rp cl pg ord tick now address before total_processed seen s out)
  show ?case
  proof (intro impI)
    assume lock: "withheld tick"
    obtain r w1 where g: "get_signatures_for_address rp cl address before None (Some history_limit) (snd s) =
        (r, w1)" by fastforce
    show "fst (snd out) = fst s"
    proof (cases r)
      case (Ok signatures)
      let ?new = "filter (\<lambda>sig. sig \<notin> seen) (map si_signature signatures)"
      show ?thesis
      proof (cases "out = (Ok total_processed, (fst s, w1))")
        case False
        obtain r2 s2 where p: "process_transaction_signatures rp cl pg ord tick ?new (fst s, w1) = Some (r2, s2)"
          using step(2) False by (auto simp: g Ok Let_def split: if_splits option.splits)
        have s2: "fst s2 = fst s" using process_signatures_withheld [OF lock p] by simp
        show ?thesis
        proof (cases "\<exists>k. r2 = Ok k \<and> \<not> length signatures < history_limit")
          case True
          then obtain k where k: "r2 = Ok k" "\<not> length signatures < history_limit" by blast
          have "loop rp cl pg ord tick now address (Some (si_signature (last signatures)))
              (total_processed + k) (seen \<union> set ?new) s2 = Some out"
            using step(2) False k(2) unfolding g Ok p k(1) Let_def prod.case res.case option.case
            by (simp only: split: if_split_asm) simp_all
          from step(1) [OF this] lock s2 show ?thesis by simp
        next
          case False
          then have "snd out = s2"
            using step(2) \<open>out \<noteq> _\<close> unfolding g Ok p Let_def prod.case res.case option.case
            by (cases r2) (auto split: if_splits)
          with s2 show ?thesis by simp
        qed
      qed simp
    qed (use step(2) in \<open>auto simp: g\<close>)
  qed
qed

section \<open>New slots\<close>

text \<open>Under the bound below, the ends of the ranges do not wrap.\<close>

lemma batch_starts_set:
  assumes "lo \<le> hi"
  shows "set (batch_starts lo hi) =
    (\<lambda>k. lo + word_of_nat (10 * k)) ` {0 ..< (unat hi - unat lo) div 10 + 1}"
proof -
  have "\<not> hi < lo" using assms by simp
  then show ?thesis by (simp only: batch_starts_def if_False range_size_def set_map set_upt)
qed

lemma batch_start_unat:
  assumes "lo \<le> hi" and "k \<le> (unat hi - unat lo) div 10"
  shows "unat (lo + word_of_nat (10 * k) :: u64) = unat lo + 10 * k" and "unat lo + 10 * k \<le> unat hi"
proof -
  have "k * 10 \<le> unat hi - unat lo" using assms(2) by (simp add: less_eq_div_iff_mult_less_eq)
  then show le: "unat lo + 10 * k \<le> unat hi" using assms(1) by (simp add: word_le_nat_alt)
  have "unat hi < 2 ^ 64" using unsigned_less [of hi] by simp
  with le show "unat (lo + word_of_nat (10 * k) :: u64) = unat lo + 10 * k"
    by (simp add: unat_word_ariths unat_of_nat mod_add_right_eq)
qed

lemma unat_min: "unat (min x y) = min (unat x) (unat (y :: u64))"
  by (simp add: min_def word_le_nat_alt)

lemma batch_end_unat:
  assumes "unat b \<le> unat hi" and "unat hi < 2 ^ 64 - 10"
  shows "unat (batch_end b hi) = min (unat b + 9) (unat hi)"
proof -
  have "b + word_of_nat range_size - 1 = b + 9" by (simp add: range_size_def)
  moreover have "unat (b + 9) = unat b + 9"
    using assms by (simp add: unat_word_ariths)
  ultimately show ?thesis by (simp only: batch_end_def unat_min)
qed

lemma tens_iff: "a + 10 * k \<le> s \<and> s \<le> a + 10 * k + 9 \<longleftrightarrow> a \<le> s \<and> (s - a) div 10 = (k :: nat)"
proof (cases "a \<le> s")
  case True
  then obtain d where d: "s = a + d" by (auto simp: le_iff_add)
  have "10 * (d div 10) \<le> d" and "d < 10 + 10 * (d div 10)"
    using dividend_less_times_div [of 10 d] by simp_all
  moreover have "d div 10 = k" if "10 * k \<le> d" "d \<le> 10 * k + 9"
    using that by (intro div_nat_eqI) simp_all
  ultimately have "d div 10 = k \<longleftrightarrow> 10 * k \<le> d \<and> d \<le> 10 * k + 9" by linarith
  then show ?thesis by (auto simp: d)
qed simp

text \<open>The range of a slot, by its number.\<close>

lemma in_range_iff:
  assumes "lo \<le> hi" and "unat hi < 2 ^ 64 - 10" and "k \<le> (unat hi - unat lo) div 10"
    and "b = lo + word_of_nat (10 * k)"
  shows "b \<le> slot \<and> slot \<le> batch_end b hi \<longleftrightarrow>
    lo \<le> slot \<and> slot \<le> hi \<and> (unat slot - unat lo) div 10 = k"
proof -
  note b = batch_start_unat [OF assms(1,3), folded assms(4)]
  have "b \<le> slot \<and> slot \<le> batch_end b hi \<longleftrightarrow>
      unat lo + 10 * k \<le> unat slot \<and> unat slot \<le> unat lo + 10 * k + 9 \<and> unat slot \<le> unat hi"
    using batch_end_unat [of b hi] b assms(2) by (auto simp: word_le_nat_alt)
  also have "\<dots> \<longleftrightarrow> unat lo \<le> unat slot \<and> unat slot \<le> unat hi \<and> (unat slot - unat lo) div 10 = k"
    using tens_iff [of "unat lo" k "unat slot"] by blast
  finally show ?thesis by (simp add: word_le_nat_alt)
qed

text \<open>C19. The ranges of a poll tile the slots from the first to the last: for a last slot more than 10
  below 2^64, a slot between the two lies in exactly one range, any other slot in none, and there
  are as many ranges as there are tens of slots, begun ones included.\<close>

theorem poll_ranges_tile:
  assumes "start_slot \<le> end_slot" and "unat end_slot < 2 ^ 64 - 10"
  shows "(if start_slot \<le> slot \<and> slot \<le> end_slot
      then \<exists>!b. b \<in> set (batch_starts start_slot end_slot) \<and> b \<le> slot \<and> slot \<le> batch_end b end_slot
      else \<not> (\<exists>b \<in> set (batch_starts start_slot end_slot). b \<le> slot \<and> slot \<le> batch_end b end_slot)) \<and>
    length (batch_starts start_slot end_slot) = (unat end_slot - unat start_slot) div 10 + 1"
proof -
  let ?b = "\<lambda>k. start_slot + word_of_nat (10 * k) :: u64"
  let ?n = "(unat end_slot - unat start_slot) div 10"
  have set: "set (batch_starts start_slot end_slot) = ?b ` {..?n}"
    by (simp add: batch_starts_set [OF assms(1)] atLeast0LessThan lessThan_Suc_atMost)
  have iff: "?b k \<le> slot \<and> slot \<le> batch_end (?b k) end_slot \<longleftrightarrow>
      start_slot \<le> slot \<and> slot \<le> end_slot \<and> (unat slot - unat start_slot) div 10 = k" if "k \<le> ?n" for k
    by (rule in_range_iff [OF assms that refl])
  have len: "length (batch_starts start_slot end_slot) = ?n + 1"
    using assms(1) by (simp add: batch_starts_def range_size_def not_less)
  show ?thesis
  proof (cases "start_slot \<le> slot \<and> slot \<le> end_slot")
    case True
    let ?k = "(unat slot - unat start_slot) div 10"
    have k: "?k \<le> ?n" using True by (intro div_le_mono) (simp add: word_le_nat_alt diff_le_mono)
    have "\<exists>!b. b \<in> ?b ` {..?n} \<and> b \<le> slot \<and> slot \<le> batch_end b end_slot"
    proof (rule ex1I [of _ "?b ?k"])
      show "?b ?k \<in> ?b ` {..?n} \<and> ?b ?k \<le> slot \<and> slot \<le> batch_end (?b ?k) end_slot"
        using k iff [OF k] True by simp
      show "b = ?b ?k" if "b \<in> ?b ` {..?n} \<and> b \<le> slot \<and> slot \<le> batch_end b end_slot" for b
        using that iff by auto
    qed
    with True len show ?thesis by (simp add: set)
  next
    case False
    with iff len show ?thesis by (auto simp: set)
  qed
qed

theorem poll_ranges_tile_witness:
  "\<exists>!b. b \<in> set (batch_starts 5 42) \<and> b \<le> 30 \<and> 30 \<le> batch_end b 42"
  using poll_ranges_tile [of 5 42 30] by simp

text \<open>A signature that the node reported, in some state, for one of the addresses in a slot from \<open>lo\<close> to
  \<open>hi\<close>.\<close>

definition reported ::
  "('w, 'pi) rpc \<Rightarrow> solana_client \<Rightarrow> string set \<Rightarrow> u64 \<Rightarrow> u64 \<Rightarrow> string \<Rightarrow> bool" where
  "reported rp cl addresses lo hi sig \<longleftrightarrow>
     (\<exists>a \<in> addresses. \<exists>w w' infos info.
        get_signatures_for_address rp cl a None None (Some 100) w = (Ok infos, w') \<and>
        info \<in> set infos \<and> si_signature info = sig \<and> lo \<le> si_slot info \<and> si_slot info \<le> hi)"

lemma reported_mono:
  "reported rp cl A lo hi sig \<Longrightarrow> A \<subseteq> B \<Longrightarrow> lo' \<le> lo \<Longrightarrow> hi \<le> hi' \<Longrightarrow> reported rp cl B lo' hi' sig"
  unfolding reported_def by (meson order_trans subsetD)

lemma range_signatures_reported:
  "range_signatures rp cl lo hi as w = (Ok sigs, w') \<Longrightarrow> sig \<in> set sigs \<Longrightarrow>
   reported rp cl (set as) lo hi sig"
proof (induction as arbitrary: w sigs)
  case (Cons a as)
  obtain q w1 where g: "get_signatures_for_address rp cl a None None (Some 100) w = (q, w1)" by fastforce
  have more: "reported rp cl (set as) lo hi sig \<Longrightarrow> ?case" by (erule reported_mono) auto
  show ?case
  proof (cases q)
    case (Ok infos)
    let ?here = "map si_signature (filter (\<lambda>i. lo \<le> si_slot i \<and> si_slot i \<le> hi) infos)"
    obtain rest where r: "range_signatures rp cl lo hi as w1 = (Ok rest, w')" "sigs = ?here @ rest"
      using Cons.prems(1) g Ok by (auto simp: Let_def split: prod.splits res.splits)
    consider "sig \<in> set ?here" | "sig \<in> set rest" using Cons.prems(2) r(2) by auto
    then show ?thesis
    proof cases
      case 1
      then show ?thesis using g Ok unfolding reported_def by fastforce
    next
      case 2
      from more [OF Cons.IH [OF r(1) 2]] show ?thesis .
    qed
  qed (use Cons g more in auto)
qed simp

lemma range_signatures_no_Err: "range_signatures rp cl lo hi as w \<noteq> (Err e, w')"
  by (induction as arbitrary: w) (auto simp: Let_def split: prod.splits res.splits)

lemma poll_ranges_took:
  assumes "iteration_order ord"
  shows "manager_ok m \<Longrightarrow>
    poll_ranges rp cl pg ord tick tracked end_slot bs k (m, w) = Some (r, (m', w')) \<Longrightarrow>
    (\<forall>e. r \<noteq> Err e) \<and> (\<exists>ts. took m ts m' \<and> (\<forall>n. r = Ok n \<longrightarrow> n = k + length ts) \<and>
      (\<forall>t \<in> set ts. \<exists>b \<in> set bs.
         reported rp cl (set tracked) b (batch_end b end_slot) (tx_signature t)))"
proof (induction bs arbitrary: m w k)
  case Nil
  then show ?case by (auto intro!: exI [of _ "[]"])
next
  case (Cons b bs)
  obtain q w1 where g: "range_signatures rp cl b (batch_end b end_slot) tracked w = (q, w1)" by fastforce
  show ?case
  proof (cases q)
    case (Err e)
    with g show ?thesis by (simp add: range_signatures_no_Err)
  next
    case Panic
    with g Cons.prems show ?thesis by (auto intro!: exI [of _ "[]"])
  next
    case (Ok sigs)
    let ?all = "remdups_adj (sort sigs)"
    show ?thesis
    proof (cases "?all = []")
      case True
      have "poll_ranges rp cl pg ord tick tracked end_slot bs k (m, w1) = Some (r, (m', w'))"
        using Cons.prems(2) g Ok True by (simp add: Let_def)
      from Cons.IH [OF Cons.prems(1) this] show ?thesis by fastforce
    next
      case False
      obtain r2 m2 w2 where p: "process_transaction_signatures rp cl pg ord tick ?all (m, w1) =
          Some (r2, (m2, w2))"
        using Cons.prems(2) g Ok False by (auto simp: Let_def split: option.splits)
      obtain ts where ts: "\<forall>e. r2 \<noteq> Err e" "took m ts m2" "subseq (map tx_signature ts) ?all"
        "\<forall>n. r2 = Ok n \<longrightarrow> n = length ts"
        by (rule process_signatures_took [OF assms Cons.prems(1) p])
      have here: "\<forall>t \<in> set ts. reported rp cl (set tracked) b (batch_end b end_slot) (tx_signature t)"
        using range_signatures_reported [OF g [unfolded Ok]] subseq_members(1) [OF ts(3)] by auto
      show ?thesis
      proof (cases r2)
        case r2: (Ok n)
        have "poll_ranges rp cl pg ord tick tracked end_slot bs (k + n) (m2, w2) = Some (r, (m', w'))"
          using Cons.prems(2) g Ok False p r2 by (simp add: Let_def)
        from Cons.IH [OF took_ok [OF ts(2)] this] obtain us where
          us: "\<forall>e. r \<noteq> Err e" "took m2 us m'" "\<forall>j. r = Ok j \<longrightarrow> j = k + n + length us"
          "\<forall>t \<in> set us. \<exists>b \<in> set bs. reported rp cl (set tracked) b (batch_end b end_slot) (tx_signature t)"
          by blast
        from ts(4) r2 have n: "n = length ts" by simp
        from took_trans [OF ts(2) us(2)] us here n show ?thesis
          by (intro conjI exI [of _ "ts @ us"]) auto
      next
        case Panic
        then have "r = Panic \<and> m' = m2" using Cons.prems(2) g Ok False p by (simp add: Let_def)
        with ts(2) here show ?thesis by auto
      qed (use ts(1) in blast)
    qed
  qed
qed

section \<open>Properties of polling\<close>

lemma historical_address_returns:
  assumes "\<forall>a. \<exists>U. finite U \<and> pages_ok rp cl a (\<lambda>sigs. set sigs \<subseteq> U)" and "granted tick"
  shows "\<exists>out. process_historical_address rp cl pg ord tick clock address s = Some out"
  using history_loop_returns assms unfolding process_historical_address_def Let_def by metis

lemma historical_addresses_returns:
  assumes "\<forall>a. \<exists>U. finite U \<and> pages_ok rp cl a (\<lambda>sigs. set sigs \<subseteq> U)" and "granted tick"
  shows "\<exists>out. historical_addresses rp cl pg ord tick clock addrs k s = Some out"
proof (induction addrs arbitrary: k s)
  case (Cons a addrs)
  obtain r s1 where "process_historical_address rp cl pg ord tick (clock a) a s = Some (r, s1)"
    using historical_address_returns [OF assms] by (metis surj_pair)
  with Cons show ?case by (cases r) simp_all
qed simp

lemma poll_historical_returns:
  assumes "\<forall>a. \<exists>U. finite U \<and> pages_ok rp cl a (\<lambda>sigs. set sigs \<subseteq> U)" and "granted tick"
  shows "\<exists>out. poll_historical_transactions rp cl pg ord tick clock s = Some out"
proof -
  obtain q d1 where "get_all_tracked_addresses (fst s) = (q, d1)" by fastforce
  then show ?thesis
    using historical_addresses_returns [OF assms]
    by (cases q) (auto simp: poll_historical_transactions_def)
qed

lemma historical_turns_returns:
  assumes "\<forall>a. \<exists>U. finite U \<and> pages_ok rp cl a (\<lambda>sigs. set sigs \<subseteq> U)" and "granted tick"
  shows "\<exists>out. historical_turns rp cl pg ord tick clocks s = Some out"
proof (induction clocks arbitrary: s)
  case (Cons clock clocks)
  obtain r s1 where "poll_historical_transactions rp cl pg ord tick clock s = Some (r, s1)"
    using poll_historical_returns [OF assms] by (metis surj_pair)
  with Cons show ?case by (cases r) (simp_all del: split_paired_Ex)
qed (simp del: split_paired_Ex)

lemma historical_addresses_withheld:
  "withheld tick \<Longrightarrow> historical_addresses rp cl pg ord tick clock addrs k s = Some (r, s') \<Longrightarrow>
   fst s' = fst s"
proof (induction addrs arbitrary: k s)
  case (Cons a addrs)
  obtain q s1 where p: "process_historical_address rp cl pg ord tick (clock a) a s = Some (q, s1)"
    using Cons.prems(2) by (auto split: option.splits)
  have "fst s1 = fst s"
    using history_loop_withheld [OF p [unfolded process_historical_address_def Let_def]] Cons.prems(1)
    by simp
  with Cons p show ?case by (cases q) fastforce+
qed simp

lemma historical_turns_withheld:
  "withheld tick \<Longrightarrow> historical_turns rp cl pg ord tick clocks s = Some (r, s') \<Longrightarrow>
   fst (snd s') = fst (snd s)"
proof (induction clocks arbitrary: s)
  case (Cons clock clocks)
  obtain q s1 where p: "poll_historical_transactions rp cl pg ord tick clock s = Some (q, s1)"
    using Cons.prems(2) by (auto split: option.splits)
  then have "fst (snd s1) = fst (snd s)"
    by (auto simp: poll_historical_transactions_def split: prod.splits res.splits if_splits
        dest: historical_addresses_withheld [OF Cons.prems(1)])
  with Cons p show ?case by (cases q) fastforce+
qed simp

text \<open>C17. The task that polls the history, if the node can report only finitely many signatures for each
  address: where the lock of the batch manager is granted to it, it returns from every turn, whatever
  the pages are, however they repeat and whatever the database does; the walk itself never runs on.
  Where the lock is withheld, as the batch task withholds it until the shutdown (\<open>pollers_starve\<close>), it
  returns only from turns in which it found nothing to hand on: at its first transaction it waits.\<close>

theorem history_terminates:
  assumes "\<forall>a. \<exists>U. finite U \<and> pages_ok rp cl a (\<lambda>sigs. set sigs \<subseteq> U)"
  shows "(granted tick \<longrightarrow> (\<exists>out. historical_turns rp cl pg ord tick clocks s = Some out)) \<and>
    (withheld tick \<longrightarrow> (\<forall>r s'. historical_turns rp cl pg ord tick clocks s = Some (r, s') \<longrightarrow>
       fst (snd s') = fst (snd s)))"
  using historical_turns_returns [OF assms] historical_turns_withheld by blast

text \<open>C30. A walk that ends never reports an error, and hands the batch manager each transaction at most
  once, where no page names a signature twice: what the manager took in are transactions of distinct
  signatures, as many as the walk counts.\<close>

theorem history_no_duplicates:
  assumes "iteration_order ord" and "pages_ok rp cl address distinct" and "manager_ok m"
    and "process_historical_address rp cl pg ord tick clock address (m, w) = Some (r, (m', w'))"
  shows "(\<forall>e. r \<noteq> Err e) \<and> (\<exists>ts. took m ts m' \<and> distinct (map tx_signature ts) \<and>
    (\<forall>n. r = Ok n \<longrightarrow> n = length ts))"
  using history_loop_walked [OF assms(4) [unfolded process_historical_address_def Let_def] assms(1,2,3)]
  by (auto simp: walked_def)

text \<open>C31. The age limit discards whole pages: if the last entry of the first page has no block time, or one
  more than 90 days ago, the walk ends there and hands on nothing, however recent the other entries
  of the page are.\<close>

theorem age_limit_drops_page:
  assumes "get_signatures_for_address rp cl address None None (Some history_limit) w = (Ok sigs, w')"
    and "sigs \<noteq> []" and "uint now < 2 ^ 63"
    and "oldest = (case si_block_time (last sigs) of None \<Rightarrow> 0 | Some t \<Rightarrow> t)" and "0 \<le> oldest"
    and "oldest + 60 * 60 * 24 * 90 < uint now"
  shows "process_historical_address rp cl pg ord tick (Some now) address (m, w) = Some (Ok 0, (m, w'))"
proof -
  have "i64_ok (uint now - oldest)"
    using assms(3,5,6) unfolding i64_ok_def by simp
  then have "max_age_secs < wrap_i64 (u64_as_i64 now - oldest)"
    using assms(3,6) by (simp add: max_age_secs_def u64_as_i64_small)
  with assms(1,2,4) show ?thesis
    unfolding process_historical_address_def Let_def
    by (subst history_loop.simps) (simp add: Let_def)
qed

text \<open>C18. A poll of new slots never reports an error; every transaction it hands to the batch manager has
  a signature that the node reported for a tracked address in a slot of the polled interval, and it
  counts what it handed on.\<close>

theorem poll_new_sound:
  assumes "iteration_order ord" and "iteration_order sord" and "manager_ok m"
    and "poll_new_transactions rp cl pg ord sord tick start_slot end_slot (d, m, w) = Some (r, (d', m', w'))"
    and "unat end_slot < 2 ^ 64 - 10"
  shows "(\<forall>e. r \<noteq> Err e) \<and> db_tables d' = db_tables d \<and>
    (\<exists>ts. took m ts m' \<and> (\<forall>n. r = Ok n \<longrightarrow> n = length ts) \<and>
      (\<forall>t \<in> set ts. reported rp cl {a. has_address a (db_tables d)} start_slot end_slot (tx_signature t)))"
proof -
  obtain q d1 where g: "get_all_tracked_addresses d = (q, d1)" by fastforce
  note g1 = get_all_tables [OF g]
  show ?thesis
  proof (cases "\<exists>addrs. q = Ok addrs \<and> addrs \<noteq> []")
    case False
    with assms(4) g g1 have "r = Ok 0 \<and> m' = m \<and> d' = d1"
      by (cases q) (auto simp: poll_new_transactions_def)
    with g1 assms(3) show ?thesis by (auto intro!: exI [of _ "[]"])
  next
    case True
    then obtain addrs where q: "q = Ok addrs" "addrs \<noteq> []" by blast
    let ?tr = "sord (remdups addrs)" and ?bs = "batch_starts start_slot end_slot"
    have tr: "set ?tr = {a. has_address a (db_tables d)}"
      using get_all_Ok [OF g [unfolded q(1)]] by (simp add: iteration_order.ord_set [OF assms(2)])
    have p: "poll_ranges rp cl pg ord tick ?tr end_slot ?bs 0 (m, w) = Some (r, (m', w'))" and d': "d' = d1"
      using assms(4) g q by (auto simp: poll_new_transactions_def Let_def split: prod.splits)
    obtain ts where ts: "took m ts m'" "\<forall>n. r = Ok n \<longrightarrow> n = 0 + length ts" "\<forall>e. r \<noteq> Err e"
      "\<forall>t \<in> set ts. \<exists>b \<in> set ?bs. reported rp cl (set ?tr) b (batch_end b end_slot) (tx_signature t)"
      using poll_ranges_took [OF assms(1,3) p] by blast
    have "reported rp cl (set ?tr) start_slot end_slot (tx_signature t)" if t: "t \<in> set ts" for t
    proof -
      obtain b where b: "b \<in> set ?bs" "reported rp cl (set ?tr) b (batch_end b end_slot) (tx_signature t)"
        using bspec [OF ts(4) t] by blast
      have le: "start_slot \<le> end_slot" using b(1) by (auto simp: batch_starts_def split: if_splits)
      from b(1) obtain k where k: "b = start_slot + word_of_nat (10 * k)"
        "k \<in> {0 ..< (unat end_slot - unat start_slot) div 10 + 1}"
        unfolding batch_starts_set [OF le] by (rule imageE)
      then have "start_slot \<le> b" using batch_start_unat(1) [OF le, of k] by (simp add: word_le_nat_alt)
      moreover have "batch_end b end_slot \<le> end_slot" by (simp add: batch_end_def)
      ultimately show ?thesis using reported_mono [OF b(2)] by blast
    qed
    with ts g1 d' tr show ?thesis by auto
  qed
qed

text \<open>A poll of new slots returns where the lock is granted.\<close>

lemma poll_ranges_returns: "granted tick \<Longrightarrow> poll_ranges rp cl pg ord tick tracked hi bs k s \<noteq> None"
proof (induction bs arbitrary: k s)
  case (Cons b bs)
  obtain m w where s: "s = (m, w)" by fastforce
  obtain q w1 where g: "range_signatures rp cl b (batch_end b hi) tracked w = (q, w1)" by fastforce
  show ?case
  proof (cases q)
    case (Ok sigs)
    obtain r2 s2 where p: "process_transaction_signatures rp cl pg ord tick (remdups_adj (sort sigs)) (m, w1) =
        Some (r2, s2)"
      using process_signatures_returns [OF Cons.prems] by fastforce
    with Cons show ?thesis by (cases r2) (simp_all add: s g Ok Let_def)
  qed (simp_all add: s g)
qed simp

lemma poll_new_returns:
  assumes "granted tick"
  shows "poll_new_transactions rp cl pg ord sord tick start_slot end_slot s \<noteq> None"
proof (cases "get_all_tracked_addresses (fst s)")
  case (Pair r d1)
  have "poll_ranges rp cl pg ord tick tracked end_slot bs 0 (snd s) \<noteq> None" for tracked bs
    by (rule poll_ranges_returns [OF assms])
  then show ?thesis
    by (cases r) (auto simp: poll_new_transactions_def Pair Let_def simp del: not_None_eq)
qed

lemma poll_turn_returns: "granted tick \<Longrightarrow> poll_turn rp cl pg ord sord tick slot s \<noteq> None"
  by (auto simp: poll_turn_def poll_new_returns simp del: not_None_eq
      split: prod.split res.split option.split)

text \<open>The current slot of the polling loop never goes back.\<close>

theorem poll_slot_monotone:
  assumes "poll_turns rp cl pg ord sord tick n current_slot s = Some (Ok slot, s')"
  shows "current_slot \<le> slot"
proof -
  have turn: "slot1 \<le> slot2" if "poll_turn rp cl pg ord sord tick slot1 t = Some (Ok slot2, t')"
    for slot1 slot2 t t'
    using that by (auto simp: poll_turn_def not_le split: prod.splits res.splits if_splits option.splits)
  show ?thesis
    using assms
  proof (induction n arbitrary: current_slot s)
    case (Suc n)
    then obtain slot1 s1 where "poll_turn rp cl pg ord sord tick current_slot s = Some (Ok slot1, s1)"
      "poll_turns rp cl pg ord sord tick n slot1 s1 = Some (Ok slot, s')"
      by (auto split: option.splits res.splits)
    with Suc.IH turn show ?case by (meson order_trans)
  qed simp
qed

text \<open>C32. Slots are lost when the database fails: a turn that finds a later slot but cannot read the tracked
  addresses counts as a success with nothing found: the current slot moves on to the later one, the batch
  manager is handed nothing, and the slots in between are not polled.\<close>

theorem poll_skips_slots:
  assumes "get_slot rp cl w = (Ok latest, w')" and "current_slot < latest"
    and "get_all_tracked_addresses d = (Err e, d')"
  shows "poll_turn rp cl pg ord sord tick current_slot (d, m, w) = Some (Ok latest, (d', m, w'))"
  using assms by (simp add: poll_turn_def poll_new_transactions_def not_le [symmetric])

section \<open>Witnesses\<close>

text \<open>A node with one transaction, in slot 9 at time 300.\<close>

definition nine :: sig_info where
  "nine = \<lparr>si_signature = ''s9'', si_slot = 9, si_block_time = Some 300\<rparr>"

definition nine_rpc :: "(nat, json) rpc" where
  "nine_rpc = bob_rpc\<lparr>rp_get_signatures := (\<lambda>_ _ _ _ _ w. (Ok [nine], Suc w)),
     rp_get_slot := (\<lambda>_ w. (Ok 20, w))\<rparr>"

definition clockwork :: "nat clockwork" where
  "clockwork w = Some ((w, w), Suc w)"

lemma nine_signatures [simp]:
  "get_signatures_for_address nine_rpc cl a before None lmt w = (Ok [nine], Suc w)"
  by (cases before)
    (simp_all add: get_signatures_for_address_def parse_optional_def bind_st_def lift_st_def map_ok_def
      nine_rpc_def bob_rpc_def down_rpc_def rate_limited_def map_err_st_def retry_loop_first
      numeral_eq_Suc)

lemma nine_pages: "P [''s9''] \<Longrightarrow> pages_ok nine_rpc cl a P"
  by (auto simp: pages_ok_def nine_def)

lemma small_bm_manager_ok [simp]: "manager_ok small_bm"
  by (simp add: manager_ok_def)

lemma nine_finite: "\<forall>a. \<exists>U. finite U \<and> pages_ok nine_rpc cl a (\<lambda>sigs. set sigs \<subseteq> U)"
  by (intro allI exI [of _ "{''s9''}"]) (simp add: nine_pages)

lemma clockwork_granted [simp]: "granted clockwork"
  by (simp add: granted_def clockwork_def)

theorem history_terminates_witness:
  "\<exists>out. historical_turns nine_rpc sample_client sample_pg rev clockwork
     [\<lambda>_. Some 400, \<lambda>_. Some 430] (sample_db, small_bm, 0) = Some out"
  using history_terminates [OF nine_finite] clockwork_granted by blast

theorem history_no_duplicates_witness:
  "\<exists>r m' w'. process_historical_address nine_rpc sample_client sample_pg rev clockwork (Some 400) ones
      (small_bm, 0) = Some (r, (m', w')) \<and> (\<exists>ts. took small_bm ts m' \<and> distinct (map tx_signature ts))"
proof -
  obtain r m' w' where h: "process_historical_address nine_rpc sample_client sample_pg rev clockwork
      (Some 400) ones (small_bm, 0) = Some (r, (m', w'))"
    using history_loop_returns [of "{''s9''}", OF _ nine_pages clockwork_granted]
    by (simp add: process_historical_address_def Let_def) blast
  from history_no_duplicates [OF rev_order.iteration_order_axioms nine_pages small_bm_manager_ok h] h
  show ?thesis by auto
qed

theorem age_limit_drops_page_witness:
  "process_historical_address nine_rpc sample_client sample_pg rev clockwork (Some 1700000000) ones
     (small_bm, 0) = Some (Ok 0, (small_bm, 1))"
  by (rule age_limit_drops_page [where sigs = "[nine]" and oldest = 300]) (simp_all add: nine_def)

theorem poll_new_sound_witness:
  "\<exists>r d' m' w'. poll_new_transactions nine_rpc sample_client sample_pg rev (\<lambda>xs. xs) clockwork 5 20
      (sample_db, small_bm, 0) = Some (r, (d', m', w')) \<and> db_tables d' = db_tables sample_db"
proof -
  obtain r d' m' w' where p: "poll_new_transactions nine_rpc sample_client sample_pg rev (\<lambda>xs. xs)
      clockwork 5 20 (sample_db, small_bm, 0) = Some (r, (d', m', w'))"
    using poll_new_returns [OF clockwork_granted] by (metis option.exhaust surj_pair)
  from poll_new_sound [OF rev_order.iteration_order_axioms list_order.iteration_order_axioms
      small_bm_manager_ok p] p
  show ?thesis by auto
qed

definition broken_db :: db where
  "broken_db = sample_db\<lparr>db_faults := [Some (Database ''disk'')]\<rparr>"

lemma nine_slot: "get_slot nine_rpc cl w = (Ok 20, w)"
  by (simp add: get_slot_def nine_rpc_def bob_rpc_def down_rpc_def rate_limited_def map_err_st_def
      retry_loop_first numeral_eq_Suc)

theorem poll_slot_monotone_witness:
  "\<exists>s'. poll_turns nine_rpc sample_client sample_pg rev (\<lambda>xs. xs) clockwork 1 5 (broken_db, small_bm, 0) =
     Some (Ok 20, s') \<and> (5 :: u64) \<le> 20"
proof -
  have "\<exists>s'. poll_turns nine_rpc sample_client sample_pg rev (\<lambda>xs. xs) clockwork 1 5
      (broken_db, small_bm, 0) = Some (Ok 20, s')"
    by (simp add: poll_turn_def nine_slot poll_new_transactions_def get_all_tracked_addresses_def
        broken_db_def stmt_def bind_st_def)
  with poll_slot_monotone show ?thesis by blast
qed

theorem poll_skips_slots_witness:
  "\<exists>d'. poll_turn nine_rpc sample_client sample_pg rev (\<lambda>xs. xs) clockwork 5 (broken_db, small_bm, 0) =
     Some (Ok 20, (d', small_bm, 0))"
proof -
  have "get_all_tracked_addresses broken_db = (Err (Database ''disk''), sample_db)"
    by (simp add: get_all_tracked_addresses_def broken_db_def stmt_def bind_st_def sample_db_def)
  from poll_skips_slots [OF nine_slot _ this] show ?thesis by auto
qed

end
