(* ===== verification/Lifecycle.thy ===== *)
theory Lifecycle
  imports Polling Cache
begin

text \<open>
  How the process is put together, \<^verbatim>\<open>src/main.rs\<close> and \<open>start_polling\<close>: the start-up, the tasks that
  share the polling service's batch manager through a lock, the polling task, and the shutdown. The pool that \<open>start_polling\<close>
  makes for itself has as many workers as the machine has cores, far below the capacity of a vector.
\<close>

section \<open>Start-up\<close>

text \<open>\<open>WORKER_COUNT\<close>, or the number of cores where it is not set or does not parse.\<close>

definition worker_count :: "env \<Rightarrow> nat \<Rightarrow> nat" where
  "worker_count env cpus =
     (case env ''WORKER_COUNT'' of
        None \<Rightarrow> cpus
      | Some s \<Rightarrow> (case parse_unsigned u64_max s of None \<Rightarrow> cpus | Some n \<Rightarrow> n))"

record ('c, 'd) app =
  ap_config :: config
  ap_schema :: schema
  ap_cache :: "('c, 'd) app_cache"
  ap_pool :: worker_pool
  ap_manager :: batch_manager

text \<open>The caches, the pool and the batch manager that \<open>main\<close> makes, in this order; \<open>now\<close> is the clock when
  it starts the last. moka panics for too long a time to live, \<open>Vec::with_capacity\<close> for too many workers.\<close>

definition main_startup ::
  "('c, 'k, 'v) moka \<Rightarrow> ('d, string, bool) moka \<Rightarrow> sqlite \<Rightarrow> env \<Rightarrow> string option \<Rightarrow> nat \<Rightarrow> nat \<Rightarrow>
   (sqlx_error, ('c, 'd) app) res" where
  "main_startup MT MA sq env cwd cpus now =
     (let config = from_env env
      in bind_res (establish_connection sq env cwd) (\<lambda>db_pool.
         case run_migrations db_pool of
           (Err e, _) \<Rightarrow> Err e
         | (Panic, _) \<Rightarrow> Panic
         | (Ok _, db_pool1) \<Rightarrow>
             bind_res (init_cache MT MA config) (\<lambda>cache.
             bind_res (worker_pool_new (worker_count env cpus)) (\<lambda>worker_pool.
               Ok \<lparr>ap_config = config, ap_schema = db_pool1, ap_cache = cache, ap_pool = worker_pool,
                   ap_manager = batch_manager_new now (batch_config_default cpus)
                     \<lparr>ch_sent = [], ch_closed = False\<rparr>\<rparr>))))"

section \<open>The lock of the polling service's batch manager\<close>

text \<open>
  \<open>start_polling\<close> keeps its batch manager behind a mutex. One task locks it and calls \<open>start\<close> on
  what it locked; the polling tasks lock it for every transaction they add.
\<close>

datatype lock_holder = ByBatchTask | ByPoller nat
datatype batch_task = BtWaiting | BtRunning | BtDone

record service =
  sv_lock :: "lock_holder option"
  sv_batch :: batch_task
  sv_shutdown :: bool
  sv_manager :: batch_manager

definition polling_batch_config :: "nat \<Rightarrow> batch_config" where
  "polling_batch_config cpus =
     \<lparr>bc_max_batch_size = 100, bc_flush_interval = 5000000000, bc_worker_count = cpus\<rparr>"

definition service_new :: "nat \<Rightarrow> nat \<Rightarrow> service" where
  "service_new cpus now =
     \<lparr>sv_lock = None, sv_batch = BtWaiting, sv_shutdown = False,
      sv_manager = batch_manager_new now (polling_batch_config cpus) \<lparr>ch_sent = [], ch_closed = False\<rparr>\<rparr>"

datatype service_event =
    StartBatch nat nat
  | TickBatch nat nat
  | StopBatch nat nat
  | PollerLock nat
  | PollerAdd nat transaction nat nat
  | Cancel

fun service_next :: "drain_order \<Rightarrow> service_event \<Rightarrow> service \<Rightarrow> service option" where
  "service_next ord (StartBatch now reset) s =
     (if sv_batch s = BtWaiting \<and> sv_lock s = None
      then Some (s\<lparr>sv_lock := Some ByBatchTask, sv_batch := BtRunning,
                   sv_manager := perform_flush_check ord now reset (sv_manager s)\<rparr>)
      else None)"
| "service_next ord (TickBatch now reset) s =
     (if sv_batch s = BtRunning
      then Some (s\<lparr>sv_manager := perform_flush_check ord now reset (sv_manager s)\<rparr>) else None)"
| "service_next ord (StopBatch now reset) s =
     (if sv_batch s = BtRunning \<and> sv_shutdown s
      then Some (s\<lparr>sv_manager := perform_flush_check ord now reset (sv_manager s),
                   sv_batch := BtDone, sv_lock := None\<rparr>) else None)"
| "service_next ord (PollerLock i) s =
     (if sv_lock s = None then Some (s\<lparr>sv_lock := Some (ByPoller i)\<rparr>) else None)"
| "service_next ord (PollerAdd i t now reset) s =
     (if sv_lock s = Some (ByPoller i)
      then Some (s\<lparr>sv_manager := add_transaction ord now reset t (sv_manager s), sv_lock := None\<rparr>)
      else None)"
| "service_next ord Cancel s = Some (s\<lparr>sv_shutdown := True\<rparr>)"

fun service_steps :: "drain_order \<Rightarrow> service_event list \<Rightarrow> service \<Rightarrow> service option" where
  "service_steps ord [] s = Some s"
| "service_steps ord (e # es) s = Option.bind (service_next ord e s) (service_steps ord es)"

section \<open>The polling task\<close>

text \<open>\<open>tokio::time::interval\<close> panics for a period of 0.\<close>

definition interval_of :: "nat \<Rightarrow> ('e, nat) res" where
  "interval_of secs = (if secs = 0 then Panic else Ok secs)"

definition start_polling ::
  "('w, 'pi) rpc \<Rightarrow> 'pi programs \<Rightarrow> drain_order \<Rightarrow> (string list \<Rightarrow> string list) \<Rightarrow> 'w clockwork \<Rightarrow>
   config \<Rightarrow> nat \<Rightarrow> db \<times> batch_manager \<times> 'w \<Rightarrow>
   ((client_error, u64) res \<times> db \<times> batch_manager \<times> 'w) option" where
  "start_polling rp pg ord sord tick config turns s =
     (case solana_client_new config of
        Panic \<Rightarrow> Some (Panic, s)
      | Err e \<Rightarrow> Some (Err e, s)
      | Ok cl \<Rightarrow>
          (case s of (d, m, w) \<Rightarrow>
            (case initial_slot rp cl w of
               (Panic, w1) \<Rightarrow> Some (Panic, (d, m, w1))
             | (Err e, w1) \<Rightarrow> Some (Err e, (d, m, w1))
             | (Ok current_slot, w1) \<Rightarrow>
                 (case interval_of (polling_interval_secs config) of
                    Panic \<Rightarrow> Some (Panic, (d, m, w1))
                  | Err e \<Rightarrow> Some (Err e, (d, m, w1))
                  | Ok _ \<Rightarrow> poll_turns rp cl pg ord sord tick turns current_slot (d, m, w1)))))"

section \<open>Shutdown\<close>

text \<open>
  After the signal \<open>main\<close> waits for one task after the other, at most 10 seconds for each. The times
  are in seconds after the signal; a task that never ends has none. (For a task that ends at the
  deadline itself \<open>select!\<close> may take either branch.)
\<close>

definition shutdown_timeout :: nat where "shutdown_timeout = 10"

fun await_tasks :: "nat \<Rightarrow> nat option list \<Rightarrow> bool list \<times> nat" where
  "await_tasks now [] = ([], now)"
| "await_tasks now (c # cs) =
     (let deadline = now + shutdown_timeout;
          (ended, now1) =
            (case c of
               None \<Rightarrow> (False, deadline)
             | Some t \<Rightarrow> if t \<le> deadline then (True, max now t) else (False, deadline))
      in case await_tasks now1 cs of (es, final) \<Rightarrow> (ended # es, final))"

definition main_shutdown ::
  "nat option \<Rightarrow> nat option \<Rightarrow> nat option \<Rightarrow> nat option \<Rightarrow> bool list \<times> nat" where
  "main_shutdown batch_handle polling_handle server_handle worker_pool_handle =
     await_tasks 0 [batch_handle, polling_handle, server_handle, worker_pool_handle]"

section \<open>The main function\<close>

datatype main_error = StartupFailed sqlx_error | ListenFailed string

definition server_addr :: "config \<Rightarrow> string" where
  "server_addr config = server_host config @ '':'' @ show_nat (server_port config)"

text \<open>\<open>listen\<close> is the operating system's answer to binding the address, and the four times are those at
  which the tasks end. What \<open>main\<close> returns early drops the tasks it has spawned.\<close>

definition main_run ::
  "('c, 'k, 'v) moka \<Rightarrow> ('d, string, bool) moka \<Rightarrow> sqlite \<Rightarrow> (string \<Rightarrow> (string, unit) res) \<Rightarrow> env \<Rightarrow>
   string option \<Rightarrow> nat \<Rightarrow> nat \<Rightarrow> nat option \<Rightarrow> nat option \<Rightarrow> nat option \<Rightarrow> nat option \<Rightarrow>
   (main_error, ('c, 'd) app \<times> bool list \<times> nat) res" where
  "main_run MT MA sq listen env cwd cpus now batch_handle polling_handle server_handle worker_pool_handle =
     bind_res (map_err StartupFailed (main_startup MT MA sq env cwd cpus now)) (\<lambda>app.
     bind_res (map_err ListenFailed (listen (server_addr (ap_config app)))) (\<lambda>_.
       Ok (app, main_shutdown batch_handle polling_handle server_handle worker_pool_handle)))"

section \<open>Starvation\<close>

text \<open>The batch task holds the lock and no shutdown has been requested.\<close>

definition occupied :: "service \<Rightarrow> bool" where
  "occupied s \<longleftrightarrow> sv_lock s = Some ByBatchTask \<and> sv_batch s = BtRunning \<and> \<not> sv_shutdown s"

lemma occupied_step:
  assumes "iteration_order ord" and "occupied s" and "manager_ok (sv_manager s)"
    and "service_next ord e s = Some s'" and "e \<noteq> Cancel"
  shows "occupied s' \<and> took (sv_manager s) [] (sv_manager s') \<and>
    (\<forall>i. e \<noteq> PollerLock i) \<and> (\<forall>i t n r. e \<noteq> PollerAdd i t n r)"
  using assms perform_flush_check_took [OF assms(1,3)]
  by (cases e) (auto simp: occupied_def split: if_splits)


lemma occupied_steps:
  assumes "iteration_order ord"
  shows "occupied s \<Longrightarrow> manager_ok (sv_manager s) \<Longrightarrow> service_steps ord es s = Some s' \<Longrightarrow>
    Cancel \<notin> set es \<Longrightarrow>
    occupied s' \<and> took (sv_manager s) [] (sv_manager s') \<and>
    (\<forall>i t n r. PollerLock i \<notin> set es \<and> PollerAdd i t n r \<notin> set es)"
proof (induction es arbitrary: s)
  case (Cons e es)
  then obtain s1 where 1: "service_next ord e s = Some s1" and 2: "service_steps ord es s1 = Some s'"
    by (auto simp: Option.bind_eq_Some_conv)
  have e: "e \<noteq> Cancel" and es: "Cancel \<notin> set es" using Cons.prems(4) by auto
  note step = occupied_step [OF assms Cons.prems(1,2) 1 e]
  have t1: "took (sv_manager s) [] (sv_manager s1)" using step by blast
  have rest: "occupied s' \<and> took (sv_manager s1) [] (sv_manager s') \<and>
    (\<forall>i t n r. PollerLock i \<notin> set es \<and> PollerAdd i t n r \<notin> set es)"
    by (rule Cons.IH [OF _ took_ok [OF t1] 2 es]) (use step in blast)
  then have "took (sv_manager s) [] (sv_manager s')" using took_trans [OF t1] by fastforce
  with rest step show ?case by auto
qed (simp add: occupied_def)

lemma service_new_manager [simp]:
  "manager_ok (sv_manager (service_new cpus now))" "held (sv_manager (service_new cpus now)) = []"
  by (simp_all add: service_new_def batch_manager_new_def manager_ok_def buffer_ok_def buffered_def
      held_def all_sent_def)

lemma starved_run:
  assumes "iteration_order ord" and "Cancel \<notin> set events"
    and "service_steps ord (StartBatch now reset # events) (service_new cpus start) = Some s"
  shows "sv_lock s = Some ByBatchTask \<and> held (sv_manager s) = [] \<and>
    (\<forall>i t n r. PollerLock i \<notin> set events \<and> PollerAdd i t n r \<notin> set events) "
proof -
  let ?s0 = "service_new cpus start"
  obtain s1 where s1: "service_next ord (StartBatch now reset) ?s0 = Some s1"
    and run: "service_steps ord events s1 = Some s"
    using assms(3) by (auto simp: Option.bind_eq_Some_conv simp del: service_next.simps)
  have occ: "occupied s1" and m1: "sv_manager s1 = perform_flush_check ord now reset (sv_manager ?s0)"
    using s1 by (auto simp: occupied_def service_new_def split: if_splits)
  have t1: "took (sv_manager ?s0) [] (sv_manager s1)"
    unfolding m1 by (rule perform_flush_check_took [OF assms(1)]) simp
  note steps = occupied_steps [OF assms(1) occ took_ok [OF t1] run assms(2)]
  have "took (sv_manager ?s0) [] (sv_manager s)" using took_trans [OF t1] steps by fastforce
  then have "mset (held (sv_manager s)) = {#}" by (simp add: took_def)
  with steps show ?thesis by (simp add: occupied_def)
qed

section \<open>Properties\<close>

text \<open>The batch task keeps the polling service's batch manager locked for as long as the service runs:
  once it has taken the lock, no polling task can take it or add a transaction in any run without a
  shutdown, and the manager has sent and holds nothing at all.\<close>

theorem pollers_starve:
  assumes "iteration_order ord" and "Cancel \<notin> set events"
    and "service_steps ord (StartBatch now reset # events) (service_new cpus start) = Some s"
  shows "sv_lock s = Some ByBatchTask \<and> held (sv_manager s) = [] \<and>
    (\<forall>i t n r. PollerLock i \<notin> set events \<and> PollerAdd i t n r \<notin> set events) \<and>
    (\<forall>i. service_next ord (PollerLock i) s = None)"
  using starved_run [OF assms] by simp

text \<open>No call of the client panics.\<close>

definition node_total :: "('w, 'pi) rpc \<Rightarrow> solana_client \<Rightarrow> bool" where
  "node_total rp cl \<longleftrightarrow>
     (\<forall>w. fst (get_slot rp cl w) \<noteq> Panic) \<and> (\<forall>s w. fst (get_transaction rp cl s w) \<noteq> Panic) \<and>
     (\<forall>a b u l w. fst (get_signatures_for_address rp cl a b u l w) \<noteq> Panic)"

lemma fetch_chunk_total: "node_total rp cl \<Longrightarrow> fst (fetch_chunk rp cl pg sigs w) \<noteq> Panic"
proof (induction sigs arbitrary: w)
  case (Cons sig sigs)
  obtain q w1 where g: "get_transaction rp cl sig w = (q, w1)" by fastforce
  obtain q2 w2 where rest: "fetch_chunk rp cl pg sigs w1 = (q2, w2)" by fastforce
  have "q \<noteq> Panic" using Cons.prems g by (metis fst_conv node_total_def)
  moreover have "q2 \<noteq> Panic" using Cons.IH [OF Cons.prems, of w1] rest by simp
  ultimately show ?case
    by (cases q; cases q2) (auto simp: g rest split: option.split)
qed simp

lemma process_chunks_total:
  "node_total rp cl \<Longrightarrow> process_chunks rp cl pg ord tick cs k s \<noteq> Some (Panic, s')"
proof (induction cs arbitrary: k s)
  case (Cons c cs)
  obtain m w where s: "s = (m, w)" by fastforce
  obtain q w1 where f: "fetch_chunk rp cl pg c w = (q, w1)" by fastforce
  have "q \<noteq> Panic" using fetch_chunk_total [OF Cons.prems] f by (metis fst_conv)
  with Cons show ?case by (cases q) (auto simp: s f Option.bind_eq_Some_conv)
qed simp

lemma process_signatures_total:
  "node_total rp cl \<Longrightarrow> process_transaction_signatures rp cl pg ord tick sigs s \<noteq> Some (Panic, s')"
  by (simp add: process_transaction_signatures_def process_chunks_total)

lemma range_signatures_total:
  "node_total rp cl \<Longrightarrow> fst (range_signatures rp cl lo hi as w) \<noteq> Panic"
proof (induction as arbitrary: w)
  case (Cons a as)
  obtain q w1 where g: "get_signatures_for_address rp cl a None None (Some 100) w = (q, w1)" by fastforce
  obtain q2 w2 where rest: "range_signatures rp cl lo hi as w1 = (q2, w2)" by fastforce
  have "q \<noteq> Panic" using Cons.prems g by (metis fst_conv node_total_def)
  moreover have "q2 \<noteq> Panic" using Cons.IH [OF Cons.prems, of w1] rest by simp
  ultimately show ?case by (cases q; cases q2) (auto simp: g rest Let_def)
qed simp

lemma poll_ranges_total:
  "node_total rp cl \<Longrightarrow> poll_ranges rp cl pg ord tick tracked hi bs k s = Some (r, s') \<Longrightarrow> \<exists>n. r = Ok n"
proof (induction bs arbitrary: k s)
  case (Cons b bs)
  obtain m w where s: "s = (m, w)" by fastforce
  obtain q w1 where g: "range_signatures rp cl b (batch_end b hi) tracked w = (q, w1)" by fastforce
  have q: "q \<noteq> Panic" using range_signatures_total [OF Cons.prems(1)] g by (metis fst_conv)
  have e: "q \<noteq> Err e" for e using g range_signatures_no_Err by metis
  note IH = Cons.IH [OF Cons.prems(1)]
  show ?case
    using q e Cons.prems(2) process_signatures_total [OF Cons.prems(1)]
    by (cases q) (auto simp: s g Let_def intro: IH split: if_splits option.splits res.splits)
qed auto

lemma poll_turn_total:
  assumes "node_total rp cl" and "poll_turn rp cl pg ord sord tick current_slot s = Some (r, s')"
  shows "\<exists>slot. r = Ok slot"
proof -
  obtain d m w where s: "s = (d, m, w)" by (metis prod_cases3)
  obtain q w1 where g: "get_slot rp cl w = (q, w1)" by fastforce
  have q: "q \<noteq> Panic" using assms(1) g by (metis fst_conv node_total_def)
  have new: "r1 \<noteq> Panic"
    if "poll_new_transactions rp cl pg ord sord tick current_slot latest (d, m, w1) = Some (r1, s1)"
    for latest r1 s1
  proof -
    obtain q2 d2 where a: "get_all_tracked_addresses d = (q2, d2)" by fastforce
    have "q2 \<noteq> Panic" using get_all_tables [OF a] by simp
    with that a show ?thesis
      by (cases q2) (auto simp: poll_new_transactions_def Let_def split: if_splits
          dest!: poll_ranges_total [OF assms(1)])
  qed
  show ?thesis
    using assms(2) q
    by (cases q) (auto simp: poll_turn_def s g dest: new split: if_splits option.splits res.splits)
qed

lemma poll_turns_total:
  assumes "node_total rp cl"
  shows "poll_turns rp cl pg ord sord tick n current_slot s = Some (r, s') \<Longrightarrow> \<exists>slot. r = Ok slot"
proof (induction n arbitrary: current_slot s)
  case (Suc n)
  from Suc.prems show ?case
    by (auto intro: Suc.IH dest: poll_turn_total [OF assms] split: option.splits res.splits)
qed auto

lemma poll_turns_returns:
  "granted tick \<Longrightarrow> poll_turns rp cl pg ord sord tick n current_slot s \<noteq> None"
proof (induction n arbitrary: current_slot s)
  case (Suc n)
  then show ?case
    by (auto simp: poll_turn_returns simp del: not_None_eq split: option.split res.split)
qed simp

lemma solana_client_new_Ok:
  "rpc_rate_limit config \<noteq> Some 0 \<Longrightarrow>
   \<exists>cl. solana_client_new config = (Ok cl :: ('e, solana_client) res)"
  by (cases "rpc_rate_limit config") (simp_all add: solana_client_new_def Let_def)

text \<open>C25. The polling task panics exactly when the rate limit or the polling interval is 0, for a node whose
  client does not panic itself; it never returns an error; and with neither 0 it takes all its turns,
  unless it waits for a lock that is not granted.\<close>

theorem start_polling_panics_iff:
  assumes "\<forall>cl. solana_client_new config = (Ok cl :: (client_error, solana_client) res) \<longrightarrow> node_total rp cl"
  shows "case start_polling rp pg ord sord tick config turns s of
      None \<Rightarrow> rpc_rate_limit config \<noteq> Some 0 \<and> polling_interval_secs config \<noteq> 0 \<and> (\<exists>w. tick w = None)
    | Some (r, s') \<Rightarrow>
        (r = Panic \<longleftrightarrow> rpc_rate_limit config = Some 0 \<or> polling_interval_secs config = 0) \<and>
        (\<forall>e. r \<noteq> Err e)"
proof (cases "rpc_rate_limit config = Some 0")
  case True
  then have "solana_client_new config = (Panic :: (client_error, solana_client) res)"
    by (simp add: solana_client_new_def)
  with True show ?thesis by (simp add: start_polling_def)
next
  case False
  then obtain cl where cl: "solana_client_new config = (Ok cl :: (client_error, solana_client) res)"
    using solana_client_new_Ok by blast
  with assms have total: "node_total rp cl" by blast
  obtain d m w where s: "s = (d, m, w)" by (metis prod_cases3)
  obtain q w1 where g: "get_slot rp cl w = (q, w1)" by fastforce
  have "q \<noteq> Panic" using total g by (metis fst_conv node_total_def)
  then obtain slot where i: "initial_slot rp cl w = (Ok slot, w1)"
    using g by (cases q) (auto simp: initial_slot_def)
  have run: "start_polling rp pg ord sord tick config turns s =
      (if polling_interval_secs config = 0 then Some (Panic, (d, m, w1))
       else poll_turns rp cl pg ord sord tick turns slot (d, m, w1))"
    by (simp add: start_polling_def cl s i interval_of_def)
  show ?thesis
  proof (cases "poll_turns rp cl pg ord sord tick turns slot (d, m, w1)")
    case None
    then have "\<exists>w. tick w = None" by (metis granted_def poll_turns_returns)
    with False None show ?thesis by (simp add: run)
  next
    case (Some out)
    obtain r s' where out: "out = (r, s')" by (cases out) blast
    from poll_turns_total [OF total Some [unfolded out]] False Some out show ?thesis
      by (auto simp: run)
  qed
qed

lemma await_tasks_bounded:
  "snd (await_tasks now cs) \<le> now + 10 * length cs \<and>
    list_all2 (\<lambda>c e. case c of Some t \<Rightarrow> 10 \<le> t \<or> e | None \<Rightarrow> \<not> e) cs (fst (await_tasks now cs))"
proof (induction cs arbitrary: now)
  case (Cons c cs)
  show ?case
  proof (cases "\<exists>t. c = Some t \<and> t \<le> now + 10")
    case True
    then obtain t where t: "c = Some t" "t \<le> now + 10" by blast
    obtain es final where "await_tasks (max now t) cs = (es, final)" by fastforce
    moreover have "max now t \<le> now + 10" using t(2) by simp
    ultimately show ?thesis using Cons [of "max now t"] t
      by (auto simp: shutdown_timeout_def Let_def)
  next
    case False
    obtain es final where "await_tasks (now + 10) cs = (es, final)" by fastforce
    with Cons [of "now + 10"] False show ?thesis
      by (cases c) (simp_all add: shutdown_timeout_def Let_def)
  qed
qed simp

text \<open>C26. \<open>main\<close> fails exactly when its start-up does or the address cannot be bound; otherwise it ends at
  most 40 seconds after the signal, and reports as shut down every task that ends within 10 seconds of
  the signal and none that never ends.\<close>

theorem main_outcome:
  "case main_run MT MA sq listen env cwd cpus now b p h wp of
     Err e \<Rightarrow> (\<exists>d. main_startup MT MA sq env cwd cpus now = Err d \<and> e = StartupFailed d) \<or>
       (\<exists>app d. main_startup MT MA sq env cwd cpus now = Ok app \<and>
          listen (server_addr (ap_config app)) = Err d \<and> e = ListenFailed d)
   | Panic \<Rightarrow> main_startup MT MA sq env cwd cpus now = Panic \<or>
       (\<exists>app. main_startup MT MA sq env cwd cpus now = Ok app \<and>
          listen (server_addr (ap_config app)) = Panic)
   | Ok (app, ended, final) \<Rightarrow>
       main_startup MT MA sq env cwd cpus now = Ok app \<and> final \<le> 40 \<and>
       list_all2 (\<lambda>c e. case c of Some t \<Rightarrow> 10 \<le> t \<or> e | None \<Rightarrow> \<not> e) [b, p, h, wp] ended"
proof (cases "main_run MT MA sq listen env cwd cpus now b p h wp")
  case (Ok out)
  obtain app ended final where out: "out = (app, ended, final)" by (metis prod_cases3)
  have start: "main_startup MT MA sq env cwd cpus now = Ok app"
    and shut: "main_shutdown b p h wp = (ended, final)"
    using Ok by (auto simp: main_run_def res_iff out)
  from await_tasks_bounded [of 0 "[b, p, h, wp]"] shut
  have "final \<le> 40 \<and>
      list_all2 (\<lambda>c e. case c of Some t \<Rightarrow> 10 \<le> t \<or> e | None \<Rightarrow> \<not> e) [b, p, h, wp] ended"
    by (simp add: main_shutdown_def del: await_tasks.simps list_all2_Cons1)
  with start show ?thesis by (simp add: Ok out)
qed (auto simp: main_run_def res_iff)

lemma main_startup_outcome:
  assumes "moka_cache MT contents closures" and "moka_cache MA contents' closures'"
    and "establish_connection sq env cwd = Ok s"
    and "\<forall>opts s0. sq_connect sq opts = Ok s0 \<longrightarrow> sc_tables s0 = [] \<or> schema_supports s0"
  shows "if moka_max_ttl < cache_ttl (from_env env) \<or> worker_limit < worker_count env cpus
    then main_startup MT MA sq env cwd cpus now = Panic
    else \<exists>app. main_startup MT MA sq env cwd cpus now = Ok app \<and> schema_supports (ap_schema app) \<and>
      ap_config app = from_env env \<and> config_ok (ap_config app) \<and>
      init_cache MT MA (ap_config app) = (Ok (ap_cache app) :: (sqlx_error, _) res) \<and>
      tc_default_ttl (transaction_cache (ap_cache app)) = cache_ttl (ap_config app) \<and>
      contents (tc_cache (transaction_cache (ap_cache app))) = Map.empty \<and>
      contents' (ac_cache (address_cache (ap_cache app))) = Map.empty \<and>
      pool_ok (worker_count env cpus) (ap_pool app) \<and>
      (pool_next (Send b) (ap_pool app) = None \<longleftrightarrow> worker_count env cpus = 0)"
proof -
  obtain opts s0 where c: "sq_connect sq opts = Ok s0" and e: "exec_ddls init_schema s0 = (Ok (), s)"
    using establish_connection_Ok [OF assms(3)] by blast
  have "schema_supports s"
    using assms(4) c init_schema_fresh [OF _ e] exec_ddls_supports [OF e] by blast
  then obtain s' where m: "run_migrations s = (Ok (), s')" "schema_supports s'"
    using run_migrations_supported by blast
  have start: "main_startup MT MA sq env cwd cpus now =
      bind_res (init_cache MT MA (from_env env)) (\<lambda>cache.
      bind_res (worker_pool_new (worker_count env cpus)) (\<lambda>worker_pool.
        Ok \<lparr>ap_config = from_env env, ap_schema = s', ap_cache = cache, ap_pool = worker_pool,
          ap_manager = batch_manager_new now (batch_config_default cpus)
            \<lparr>ch_sent = [], ch_closed = False\<rparr>\<rparr>))"
    by (simp add: main_startup_def Let_def assms(3) m)
  have pool: "pool_next (Send b) (pool_of n) = None \<longleftrightarrow> n = 0" for n
    by (cases n) (simp_all add: receiver_alive_def pool_of_def channel_capacity_def)
  have cache: "if moka_max_ttl < cache_ttl (from_env env)
    then init_cache MT MA (from_env env) = (Panic :: (sqlx_error, _) res)
    else \<exists>c. init_cache MT MA (from_env env) = (Ok c :: (sqlx_error, _) res) \<and>
      tc_default_ttl (transaction_cache c) = cache_ttl (from_env env) \<and>
      contents (tc_cache (transaction_cache c)) = Map.empty \<and>
      contents' (ac_cache (address_cache c)) = Map.empty"
    by (rule init_cache_outcome [OF assms(1,2)])
  show ?thesis
  proof (cases "moka_max_ttl < cache_ttl (from_env env) \<or> worker_limit < worker_count env cpus")
    case True
    with cache have "main_startup MT MA sq env cwd cpus now = Panic"
      by (auto simp: start worker_pool_new_def split: if_splits)
    with True show ?thesis by simp
  next
    case False
    with cache obtain c where
      c: "init_cache MT MA (from_env env) = (Ok c :: (sqlx_error, _) res)"
        "tc_default_ttl (transaction_cache c) = cache_ttl (from_env env)"
        "contents (tc_cache (transaction_cache c)) = Map.empty"
        "contents' (ac_cache (address_cache c)) = Map.empty"
      by auto
    with False show ?thesis
      by (simp add: start worker_pool_new_def pool pool_ok_new m(2) from_env_ok del: pool_next.simps)
  qed
qed

text \<open>C38. On a file that is fresh or has the service's tables, once the connection is made, the start-up
  panics if \<open>CACHE_TTL\<close> is over 1000 years or \<open>WORKER_COUNT\<close> over the capacity of a vector, and in no
  other case: else it succeeds (memory exhaustion aside), the schema supports every statement, the
  configuration is the environment's and fits its types, the caches are built from it and empty, and the
  pool has as many waiting workers as \<open>WORKER_COUNT\<close> says; with 0 of them it refuses every batch.\<close>

theorem main_startup_ready:
  assumes "moka_cache MT contents closures" and "moka_cache MA contents' closures'"
    and "establish_connection sq env cwd = Ok s"
    and "\<forall>opts s0. sq_connect sq opts = Ok s0 \<longrightarrow> sc_tables s0 = [] \<or> schema_supports s0"
  shows "if moka_max_ttl < cache_ttl (from_env env) \<or> worker_limit < worker_count env cpus
    then main_startup MT MA sq env cwd cpus now = Panic
    else \<exists>app. main_startup MT MA sq env cwd cpus now = Ok app \<and> schema_supports (ap_schema app) \<and>
      ap_config app = from_env env \<and> config_ok (ap_config app) \<and>
      init_cache MT MA (ap_config app) = (Ok (ap_cache app) :: (sqlx_error, _) res) \<and>
      tc_default_ttl (transaction_cache (ap_cache app)) = cache_ttl (ap_config app) \<and>
      contents (tc_cache (transaction_cache (ap_cache app))) = Map.empty \<and>
      contents' (ac_cache (address_cache (ap_cache app))) = Map.empty \<and>
      pool_ok (worker_count env cpus) (ap_pool app) \<and>
      (pool_next (Send b) (ap_pool app) = None \<longleftrightarrow> worker_count env cpus = 0)"
  by (rule main_startup_outcome [OF assms])

section \<open>Witnesses\<close>

lemma fresh_tables:
  "\<forall>opts s0. sq_connect fresh_sqlite opts = Ok s0 \<longrightarrow> sc_tables s0 = [] \<or> schema_supports s0"
  by (simp add: fresh_sqlite_def empty_schema_def)

lemma fresh_connection:
  "env ''DATABASE_URL'' = None \<Longrightarrow> \<exists>s. establish_connection fresh_sqlite env (Some ''/srv'') = Ok s"
  by (simp add: establish_connection_def connection_url_def fresh_sqlite_def init_schema_def
      empty_schema_def bind_st_def table_columns_def table_defs column_defs)

lemma default_limits:
  "\<not> (moka_max_ttl < cache_ttl (from_env (\<lambda>_. None)) \<or> worker_limit < worker_count (\<lambda>_. None) 4)"
  by (simp add: moka_max_ttl_def from_env_def env_or_def parse_or_def parse_unsigned_def strip_plus_def
      parse_digits_def is_digit_def digit_val_def max_defs worker_limit_def worker_count_def)

definition long_ttl_env :: env where
  "long_ttl_env = [''CACHE_TTL'' \<mapsto> show_nat 40000000000]"

theorem main_startup_ready_witness:
  "main_startup lru_moka lru_moka fresh_sqlite long_ttl_env (Some ''/srv'') 4 0 =
     (Panic :: (sqlx_error, ((cache_key, page) lru, (string, bool) lru) app) res) \<and>
   (\<exists>app :: ((cache_key, page) lru, (string, bool) lru) app.
     main_startup lru_moka lru_moka fresh_sqlite (\<lambda>_. None) (Some ''/srv'') 4 0 = Ok app \<and>
     schema_supports (ap_schema app))"
proof
  obtain s where s: "establish_connection fresh_sqlite long_ttl_env (Some ''/srv'') = Ok s"
    using fresh_connection [of long_ttl_env] by (auto simp: long_ttl_env_def)
  have "moka_max_ttl < cache_ttl (from_env long_ttl_env)"
    by (simp add: moka_max_ttl_def from_env_def long_ttl_env_def env_or_def u64_max_def)
  with main_startup_ready [OF lru.moka_cache_axioms lru.moka_cache_axioms s fresh_tables]
  show "main_startup lru_moka lru_moka fresh_sqlite long_ttl_env (Some ''/srv'') 4 0 =
     (Panic :: (sqlx_error, ((cache_key, page) lru, (string, bool) lru) app) res)"
    by simp
next
  obtain s where s: "establish_connection fresh_sqlite (\<lambda>_. None) (Some ''/srv'') = Ok s"
    using fresh_connection [of "\<lambda>_. None"] by auto
  note ready = main_startup_ready [OF lru.moka_cache_axioms lru.moka_cache_axioms s fresh_tables,
      where cpus = 4 and now = 0, unfolded if_not_P [OF default_limits]]
  then show "\<exists>app :: ((cache_key, page) lru, (string, bool) lru) app.
     main_startup lru_moka lru_moka fresh_sqlite (\<lambda>_. None) (Some ''/srv'') 4 0 = Ok app \<and>
     schema_supports (ap_schema app)"
    by blast
qed

theorem pollers_starve_witness:
  "\<exists>s. service_steps rev [StartBatch 0 0, TickBatch 7 7, TickBatch 8 8] (service_new 4 0) = Some s \<and>
     held (sv_manager s) = [] \<and> service_next rev (PollerLock 0) s = None"
proof -
  have "\<exists>s. service_steps rev [StartBatch 0 0, TickBatch 7 7, TickBatch 8 8] (service_new 4 0) = Some s"
    by (simp add: service_new_def)
  then obtain s where s: "service_steps rev [StartBatch 0 0, TickBatch 7 7, TickBatch 8 8]
      (service_new 4 0) = Some s" ..
  have "Cancel \<notin> set [TickBatch 7 7, TickBatch 8 8]" by simp
  from pollers_starve [OF rev_order.iteration_order_axioms this s] s show ?thesis by blast
qed

lemma nine_total: "node_total nine_rpc cl"
  by (simp add: node_total_def nine_slot)
    (simp add: get_transaction_def nine_rpc_def bob_rpc_def down_rpc_def rate_limited_def map_err_st_def
      retry_loop_first numeral_eq_Suc get_signatures_for_address_def bind_st_def lift_st_def
      parse_optional_def map_ok_def split: option.split)

theorem start_polling_panics_iff_witness:
  "\<exists>s'. start_polling nine_rpc sample_pg rev (\<lambda>xs. xs) clockwork
     ((from_env (\<lambda>_. None))\<lparr>polling_interval_secs := 0\<rparr>) 3 (sample_db, small_bm, 0) = Some (Panic, s')"
  using start_polling_panics_iff [of "(from_env (\<lambda>_. None))\<lparr>polling_interval_secs := 0\<rparr>" nine_rpc
      clockwork sample_pg rev "\<lambda>xs. xs" 3 "(sample_db, small_bm, 0)"] nine_total
  by (auto split: option.splits)

definition sample_main ::
  "(string \<Rightarrow> (string, unit) res) \<Rightarrow>
   (main_error, ((cache_key, page) lru, (string, bool) lru) app \<times> bool list \<times> nat) res" where
  "sample_main listen =
     main_run (lru_moka :: ((cache_key, page) lru, cache_key, page) moka) lru_moka fresh_sqlite listen
       (\<lambda>_. None) (Some ''/srv'') 4 0 (Some 3) None (Some 12) (Some 30)"

theorem main_outcome_witness:
  "sample_main (\<lambda>_. Err ''address in use'') = Err (ListenFailed ''address in use'') \<and>
   (case sample_main (\<lambda>_. Ok ()) of Ok (app, ended, final) \<Rightarrow> final \<le> 40 | _ \<Rightarrow> False)"
proof -
  obtain s where s: "establish_connection fresh_sqlite (\<lambda>_. None) (Some ''/srv'') = Ok s"
    using fresh_connection [of "\<lambda>_. None"] by auto
  note ready = main_startup_outcome [OF lru.moka_cache_axioms lru.moka_cache_axioms s fresh_tables,
      where cpus = 4 and now = 0, unfolded if_not_P [OF default_limits]]
  then obtain app where app:
    "main_startup (lru_moka :: ((cache_key, page) lru, cache_key, page) moka)
       (lru_moka :: ((string, bool) lru, string, bool) moka) fresh_sqlite (\<lambda>_. None) (Some ''/srv'') 4 0 = Ok app"
    by blast
  obtain ended final where "sample_main (\<lambda>_. Ok ()) = Ok (app, ended, final)"
    by (simp add: sample_main_def main_run_def app) (metis surj_pair)
  moreover from main_outcome [of "lru_moka :: ((cache_key, page) lru, cache_key, page) moka"
      "lru_moka :: ((string, bool) lru, string, bool) moka" fresh_sqlite "\<lambda>_. None" "Some ''/srv''" 4 0
      "Some 3" None "Some 12" "Some 30" "\<lambda>_. Ok ()"] calculation
  have "final \<le> 40" by (simp add: sample_main_def)
  ultimately show ?thesis by (simp add: sample_main_def main_run_def app)
qed

end
