(* ===== verification/Ledger.thy ===== *)
theory Ledger
  imports Db_Transaction
begin

text \<open>
  What the database promises, without its tables: the set of tracked addresses and the stored
  transaction of every signature, with the three ways they change. The operations of
  \<^verbatim>\<open>src/db/address.rs\<close> and \<^verbatim>\<open>src/db/transaction.rs\<close> refine them.
\<close>

section \<open>The specification\<close>

datatype ledger = Ledger (lg_tracked: "string set") (lg_stored: "string \<rightharpoonup> transaction")

text \<open>A ledger is below another one if every transaction it stores is stored there unchanged.\<close>

instantiation ledger :: preorder
begin

definition less_eq_ledger :: "ledger \<Rightarrow> ledger \<Rightarrow> bool" where
  "less_eq_ledger l l' \<longleftrightarrow> lg_stored l \<subseteq>\<^sub>m lg_stored l'"

definition less_ledger :: "ledger \<Rightarrow> ledger \<Rightarrow> bool" where
  "less_ledger l l' \<longleftrightarrow> l \<le> l' \<and> \<not> l' \<le> l"

instance
  by standard (auto simp: less_eq_ledger_def less_ledger_def intro: map_le_trans)

end

definition track :: "string \<Rightarrow> ledger \<Rightarrow> ledger" where
  "track a l = Ledger (insert a (lg_tracked l)) (lg_stored l)"

definition mentioned :: "ledger \<Rightarrow> string set" where
  "mentioned l = (\<Union>t \<in> ran (lg_stored l). set (tx_addresses t))"

definition untrack :: "string \<Rightarrow> ledger \<Rightarrow> ledger" where
  "untrack a l = Ledger (lg_tracked l - {a}) (lg_stored l)"

text \<open>The database keeps the first transaction of a signature, and stores no NaN amount.\<close>

definition firsts :: "transaction list \<Rightarrow> string \<rightharpoonup> transaction" where
  "firsts ts = map_of (map (\<lambda>t. (tx_signature t, t)) ts)"

definition as_stored :: "transaction \<Rightarrow> transaction" where
  "as_stored t = t\<lparr>tx_amount := sql_real (tx_amount t)\<rparr>"

definition storable :: "transaction list \<Rightarrow> ledger \<Rightarrow> bool" where
  "storable ts l \<longleftrightarrow>
     (\<forall>sig t. firsts ts sig = Some t \<and> lg_stored l sig = None \<longrightarrow> set (tx_addresses t) \<subseteq> lg_tracked l)"

definition store :: "transaction list \<Rightarrow> ledger \<Rightarrow> ledger" where
  "store ts l = Ledger (lg_tracked l) ((map_option as_stored \<circ> firsts ts) ++ lg_stored l)"

inductive ledger_step :: "ledger \<Rightarrow> ledger \<Rightarrow> bool" where
  step_track: "ledger_step l (track a l)"
| step_untrack: "a \<notin> mentioned l \<Longrightarrow> ledger_step l (untrack a l)"
| step_store: "storable ts l \<Longrightarrow> ledger_step l (store ts l)"

inductive_cases ledger_stepE: "ledger_step l l'"

text \<open>A transaction is stored under its signature, and its addresses are tracked.\<close>

definition ledger_ok :: "ledger \<Rightarrow> bool" where
  "ledger_ok l \<longleftrightarrow>
     mentioned l \<subseteq> lg_tracked l \<and> (\<forall>sig t. lg_stored l sig = Some t \<longrightarrow> tx_signature t = sig)"

lemmas ledger_defs = track_def untrack_def store_def

section \<open>Laws of the specification\<close>

lemma firsts_simps [simp]:
  "firsts [] = Map.empty" "firsts (t # ts) = (firsts ts)(tx_signature t \<mapsto> t)"
  by (simp_all add: firsts_def)

lemma firsts_signature: "firsts ts sig = Some t \<Longrightarrow> tx_signature t = sig \<and> t \<in> set ts"
  by (induction ts) (auto split: if_splits)

lemma dom_firsts: "dom (firsts ts) = tx_signature ` set ts"
  by (simp add: firsts_def dom_map_of_conv_image_fst image_image)

lemma as_stored_simps [simp]:
  "tx_signature (as_stored t) = tx_signature t" "tx_addresses (as_stored t) = tx_addresses t"
  by (simp_all add: as_stored_def tx_addresses_def)

lemma as_stored_row: "tx_of_row (row_of_tx t) = as_stored t"
  by (simp add: tx_of_row_of_tx as_stored_def)

lemma lg_track [simp]: "lg_tracked (track a l) = insert a (lg_tracked l)" "lg_stored (track a l) = lg_stored l"
  by (simp_all add: track_def)

lemma lg_untrack [simp]: "lg_tracked (untrack a l) = lg_tracked l - {a}" "lg_stored (untrack a l) = lg_stored l"
  by (simp_all add: untrack_def)

lemma lg_store [simp]:
  "lg_tracked (store ts l) = lg_tracked l"
  "lg_stored (store ts l) sig =
     (case lg_stored l sig of None \<Rightarrow> map_option as_stored (firsts ts sig) | Some t \<Rightarrow> Some t)"
  by (simp_all add: store_def map_add_def split: option.split)

lemma store_Nil [simp]: "store [] l = l"
  by (rule ledger.expand) (simp add: store_def fun_eq_iff map_add_def split: option.split)

lemma store_Cons: "store (t # ts) l = store ts (store [t] l)"
  by (rule ledger.expand) (auto simp: fun_eq_iff split: option.split)

lemma storable_Nil [simp]: "storable [] l"
  by (simp add: storable_def)

lemma storable_Cons:
  "storable (t # ts) l \<longleftrightarrow>
     (lg_stored l (tx_signature t) = None \<longrightarrow> set (tx_addresses t) \<subseteq> lg_tracked l) \<and>
     storable ts (store [t] l)"
  by (auto simp: storable_def split: if_splits option.splits)

lemma ledger_step_le: "ledger_step l l' \<Longrightarrow> l \<le> l'"
  by (erule ledger_stepE) (auto simp: less_eq_ledger_def map_le_def)

lemma ledger_step_ok:
  assumes "ledger_step l l'" and "ledger_ok l"
  shows "ledger_ok l'"
  using assms
proof cases
  case (step_track a)
  with assms(2) show ?thesis by (auto simp: ledger_ok_def mentioned_def)
next
  case (step_untrack a)
  with assms(2) show ?thesis by (auto simp: ledger_ok_def mentioned_def)
next
  case (step_store ts)
  have new: "set (tx_addresses t) \<subseteq> lg_tracked l \<and> tx_signature t = sig"
    if "lg_stored l' sig = Some t" for sig t
  proof (cases "lg_stored l sig")
    case None
    then obtain u where "firsts ts sig = Some u" "t = as_stored u"
      using \<open>lg_stored l' sig = Some t\<close> step_store(1) by auto
    then show ?thesis
      using step_store(2) None firsts_signature unfolding storable_def by auto
  next
    case (Some u)
    then have "t = u" using \<open>lg_stored l' sig = Some t\<close> step_store(1) by simp
    then show ?thesis
      using assms(2) Some unfolding ledger_ok_def mentioned_def by (blast intro: ranI)
  qed
  have "lg_tracked l' = lg_tracked l" by (simp add: step_store(1))
  with new show ?thesis unfolding ledger_ok_def mentioned_def by (fastforce simp: ran_def)
qed

lemma ledger_steps:
  assumes "ledger_step\<^sup>*\<^sup>* l l'"
  shows "l \<le> l'" and "ledger_ok l \<Longrightarrow> ledger_ok l'"
  using assms
  by (induction rule: rtranclp_induct) (blast intro: order_trans ledger_step_le ledger_step_ok)+

section \<open>The tables of the database as a ledger\<close>

definition ledger_of :: "tables \<Rightarrow> ledger" where
  "ledger_of t =
     Ledger {a. has_address a t} (map_of (map (\<lambda>r. (r_signature r, tx_of_row r)) (t_txs t)))"

lemma tracked_ledger_of [simp]: "lg_tracked (ledger_of t) = {a. has_address a t}"
  by (simp add: ledger_of_def)

lemma stored_None_iff: "lg_stored (ledger_of t) sig = None \<longleftrightarrow> sig \<notin> r_signature ` set (t_txs t)"
  by (simp add: ledger_of_def map_of_eq_None_iff image_image)

lemma addresses_row: "set (tx_addresses (tx_of_row r)) = {a. references a r}"
  by (auto simp: tx_of_row_def tx_addresses_iff references_def)

lemma stored_row:
  assumes "tables_ok t"
  shows "lg_stored (ledger_of t) sig = Some x \<longleftrightarrow>
    (\<exists>r \<in> set (t_txs t). r_signature r = sig \<and> x = tx_of_row r)"
proof -
  have "distinct (map fst (map (\<lambda>r. (r_signature r, tx_of_row r)) (t_txs t)))"
    using assms by (simp add: tables_ok_def comp_def)
  from map_of_eq_Some_iff [OF this] show ?thesis by (auto simp: ledger_of_def)
qed

lemma ran_stored: "tables_ok t \<Longrightarrow> ran (lg_stored (ledger_of t)) = tx_of_row ` set (t_txs t)"
  by (auto simp: ran_def stored_row)

lemma mentioned_ledger_of: "tables_ok t \<Longrightarrow> a \<in> mentioned (ledger_of t) \<longleftrightarrow> pinned a t"
  by (simp add: mentioned_def ran_stored addresses_row pinned_def list_ex_iff)

lemma ledger_of_ok:
  assumes "tables_ok t"
  shows "ledger_ok (ledger_of t)"
proof -
  have "tx_signature x = sig" if "lg_stored (ledger_of t) sig = Some x" for sig x
    using that unfolding stored_row [OF assms] by (auto simp: tx_of_row_def)
  then show ?thesis
    using assms tables_ok_pinned by (auto simp: ledger_ok_def mentioned_ledger_of)
qed

lemma ledger_of_upsert: "ledger_of (sql_upsert_address a v t) = track a (ledger_of t)"
  by (rule ledger.expand) (auto simp: has_address_upsert ledger_of_def)

lemma ledger_of_delete:
  assumes "tables_ok t" and "sql_delete_address a t = (Ok n, t')"
  shows "a \<notin> mentioned (ledger_of t)" and "ledger_of t' = untrack a (ledger_of t)"
proof -
  show "a \<notin> mentioned (ledger_of t)"
    using assms tables_ok_pinned
    by (auto simp: mentioned_ledger_of sql_delete_address_def pinned_def split: if_splits)
  have "t_txs t' = t_txs t" using assms(2) by (auto simp: sql_delete_address_def split: if_splits)
  then show "ledger_of t' = untrack a (ledger_of t)"
    by (intro ledger.expand) (auto simp: has_address_delete [OF assms(2)] ledger_of_def)
qed

lemma stored_append:
  "lg_stored (ledger_of (t\<lparr>t_txs := t_txs t @ [row_of_tx x]\<rparr>)) =
     [tx_signature x \<mapsto> as_stored x] ++ lg_stored (ledger_of t)"
  by (simp add: ledger_of_def as_stored_row)

lemma ledger_of_insert:
  "ledger_of (t\<lparr>t_txs := merge_rows (t_txs t) [x]\<rparr>) = store [x] (ledger_of t)"
proof (cases "tx_signature x \<in> r_signature ` set (t_txs t)")
  case True
  then have "lg_stored (ledger_of t) (tx_signature x) \<noteq> None" by (simp add: stored_None_iff)
  with True show ?thesis
    by (intro ledger.expand) (auto simp: fun_eq_iff split: option.split)
next
  case False
  then have "lg_stored (ledger_of (t\<lparr>t_txs := merge_rows (t_txs t) [x]\<rparr>)) sig =
      lg_stored (store [x] (ledger_of t)) sig" for sig
    by (simp add: stored_append map_add_def split: option.split)
  then show ?thesis by (intro ledger.expand) (simp add: fun_eq_iff)
qed

lemma ledger_of_merge:
  "ledger_of (t\<lparr>t_txs := merge_rows (t_txs t) xs\<rparr>) = store xs (ledger_of t)"
proof (induction xs arbitrary: t)
  case (Cons x xs)
  let ?t = "t\<lparr>t_txs := merge_rows (t_txs t) [x]\<rparr>"
  have "ledger_of (t\<lparr>t_txs := merge_rows (t_txs t) (x # xs)\<rparr>) =
      ledger_of (?t\<lparr>t_txs := merge_rows (t_txs ?t) xs\<rparr>)" by simp
  also have "\<dots> = store xs (store [x] (ledger_of t))"
    by (simp only: Cons.IH ledger_of_insert)
  also have "\<dots> = store (x # xs) (ledger_of t)"
    by (rule store_Cons [symmetric])
  finally show ?case .
qed (simp add: ledger_of_def)

lemma fk_ok_row: "fk_ok t (row_of_tx x) \<longleftrightarrow> set (tx_addresses x) \<subseteq> lg_tracked (ledger_of t)"
  by (auto simp: fk_ok_def tx_addresses_def row_of_tx_def split: option.splits)

section \<open>The operations refine the specification\<close>

lemma insert_stmt_storable:
  assumes "stmt (sql_insert_tx (row_of_tx x)) d = (Ok u, d')"
  shows "lg_stored (ledger_of (db_tables d)) (tx_signature x) = None \<longrightarrow>
    set (tx_addresses x) \<subseteq> lg_tracked (ledger_of (db_tables d))"
  using assms unfolding stored_None_iff fk_ok_row [symmetric]
  by (elim stmt_cases) (auto simp: sql_insert_tx_def split: if_splits)

lemma insert_all_storable:
  "insert_all xs d = (Ok u, d') \<Longrightarrow> storable xs (ledger_of (db_tables d))"
proof (induction xs arbitrary: d)
  case (Cons x xs)
  then obtain v d1 where 1: "stmt (sql_insert_tx (row_of_tx x)) d = (Ok v, d1)"
    and 2: "insert_all xs d1 = (Ok u, d')"
    by (auto simp: res_iff)
  have "ledger_of (db_tables d1) = store [x] (ledger_of (db_tables d))"
    unfolding insert_stmt_Ok [OF 1] by (rule ledger_of_insert)
  with insert_stmt_storable [OF 1] Cons.IH [OF 2] show ?case by (simp only: storable_Cons)
qed simp


lemma add_transactions_steps:
  assumes "add_transactions xs d = (r, d')"
  shows "ledger_step\<^sup>*\<^sup>* (ledger_of (db_tables d)) (ledger_of (db_tables d'))"
proof (cases "r = Ok ()")
  case True
  with assms obtain d1 d2 where 1: "db_tables d1 = db_tables d" "insert_all xs d1 = (Ok (), d2)"
    "db_tables d' = db_tables d2"
    by (auto simp: add_transactions_def elim: in_transaction_Ok)
  have "ledger_of (db_tables d') = store xs (ledger_of (db_tables d))"
    using insert_all_Ok [OF 1(2)] 1 ledger_of_merge by simp
  with insert_all_storable [OF 1(2)] 1(1) show ?thesis
    by (auto intro: step_store)
next
  case False
  have "db_tables d' = db_tables d"
    by (rule in_transaction_not_Ok [OF assms [unfolded add_transactions_def]]) (use False in simp)
  then show ?thesis by simp
qed

lemma add_address_steps:
  assumes "add_address b58 clock a d = (r, d')"
  shows "ledger_step\<^sup>*\<^sup>* (ledger_of (db_tables d)) (ledger_of (db_tables d'))"
proof (cases "r = Ok ()")
  case True
  with assms obtain v where "db_tables d' = sql_upsert_address a v (db_tables d)"
    by (auto elim: add_address_Ok)
  then show ?thesis by (auto simp: ledger_of_upsert intro: step_track)
next
  case False
  with add_address_not_Ok_tables [OF assms] show ?thesis by simp
qed

lemma remove_address_steps:
  assumes "remove_address a d = (r, d')" and "tables_ok (db_tables d)"
  shows "ledger_step\<^sup>*\<^sup>* (ledger_of (db_tables d)) (ledger_of (db_tables d'))"
proof -
  obtain q where q: "stmt (sql_delete_address a) d = (q, d')"
    using assms(1) by (auto simp: remove_address_stmt)
  then show ?thesis
  proof (cases rule: stmt_cases)
    case run
    show ?thesis
    proof (cases "\<exists>n. q = Ok n")
      case True
      with run obtain n where "sql_delete_address a (db_tables d) = (Ok n, db_tables d')" by blast
      from ledger_of_delete [OF assms(2) this] show ?thesis by (auto intro: step_untrack)
    next
      case False
      with run(1) have "db_tables d' = db_tables d"
        by (auto simp: sql_delete_address_def split: if_splits)
      then show ?thesis by simp
    qed
  qed simp
qed

section \<open>Properties\<close>


text \<open>C10. The address operations refine \<open>track\<close>, \<open>untrack\<close> and membership: without database faults, adding a
  valid address tracks it, removing one that stored transactions mention is a foreign key violation
  that changes nothing, removing any other one untracks it and reports whether it was tracked, and
  the two queries read the set of tracked addresses.\<close>

theorem registry_refines:
  assumes "db_faults d = []" and "tables_ok (db_tables d)" and "valid_address b58 a"
  shows "let l = ledger_of (db_tables d) in
    (\<exists>d1. add_address b58 (Some secs) a d = (Ok (), d1) \<and> ledger_of (db_tables d1) = track a l) \<and>
    (\<exists>d2. if a \<in> mentioned l then remove_address a d = (Err ForeignKeyViolation, d)
      else remove_address a d = (Ok (a \<in> lg_tracked l), d2) \<and> ledger_of (db_tables d2) = untrack a l) \<and>
    is_address_tracked a d = (Ok (a \<in> lg_tracked l), d) \<and>
    (\<exists>as. get_all_tracked_addresses d = (Ok as, d) \<and> set as = lg_tracked l)"
proof -
  let ?t = "db_tables d" and ?l = "ledger_of (db_tables d)"
  have "add_address b58 (Some secs) a d =
      (Ok (), d\<lparr>db_tables := sql_upsert_address a (u64_as_i64 secs) ?t\<rparr>)"
    using assms(1,3) by (simp add: add_address_valid stmt_no_faults)
  moreover have "ledger_of (snd (sql_delete_address a ?t)) = untrack a ?l"
    if not: "\<not> pinned a ?t"
  proof -
    obtain n t' where del: "sql_delete_address a ?t = (Ok n, t')"
      using not by (simp add: sql_delete_address_def pinned_def)
    from ledger_of_delete(2) [OF assms(2) del] del show ?thesis by simp
  qed
  moreover have "\<exists>as. get_all_tracked_addresses d = (Ok as, d)"
    using assms(1) by (simp add: get_all_tracked_addresses_def bind_st_def ret_st_def stmt_no_faults)
  ultimately show ?thesis
    using remove_address_no_faults [OF assms(2,1), of a] is_address_tracked_no_faults [OF assms(1), of a]
      get_all_Ok [of d]
    by (auto simp: Let_def ledger_of_upsert mentioned_ledger_of [OF assms(2)])
qed

text \<open>The stored transactions a query asks for.\<close>

definition hits :: "string \<Rightarrow> i64 \<Rightarrow> i64 \<Rightarrow> ledger \<Rightarrow> transaction set" where
  "hits address start_time end_time l =
     {t \<in> ran (lg_stored l). address \<in> set (tx_addresses t) \<and>
        start_time \<le> tx_block_time t \<and> tx_block_time t < end_time}"

text \<open>C11. A query answers from the ledger alone: the total count is the number of hits, and the page is the
  part that offset and limit cut out of a list of all hits, each once, in ascending order of block time.\<close>

theorem query_refines:
  assumes "tx_sorter ob" and "tables_ok t"
  shows "\<exists>all. set all = hits address st en (ledger_of t) \<and> distinct all \<and>
    sorted (map tx_block_time all) \<and>
    answer ob t address st en off l =
      (sql_limit_offset l off all, int (card (hits address st en (ledger_of t))))"
proof -
  let ?rows = "filter (in_query address st en) (t_txs t)"
  let ?all = "map tx_of_row (ob l off r_block_time ?rows)"
  have ob: "order_by ob" using assms(1) by (simp add: tx_sorter_def)
  have set: "set ?all = hits address st en (ledger_of t)"
    using order_by.ob_set [OF ob, of l off r_block_time ?rows] addresses_row
    by (fastforce simp: hits_def ran_stored [OF assms(2)] in_query_def tx_of_row_def)
  have "map tx_signature ?all = map r_signature (ob l off r_block_time ?rows)"
    by (simp add: tx_of_row_def)
  moreover have "distinct (map r_signature ?rows)"
    using assms(2) by (simp add: tables_ok_def distinct_map_filter)
  ultimately have dist: "distinct ?all"
    using order_by.ob_distinct [OF ob, of r_signature l off r_block_time ?rows] by (metis distinct_map)
  have "map tx_block_time ?all = map r_block_time (ob l off r_block_time ?rows)"
    by (simp add: tx_of_row_def)
  then have "sorted (map tx_block_time ?all)"
    using order_by.ob_sorted [OF ob] by (simp only:)
  moreover have "length ?rows = card (hits address st en (ledger_of t))"
    using distinct_card [OF dist] order_by.ob_length [OF ob, of l off r_block_time ?rows]
    unfolding set by simp
  then have "answer ob t address st en off l =
      (sql_limit_offset l off ?all, int (card (hits address st en (ledger_of t))))"
    by (simp add: answer_def sql_select_txs_def sql_count_txs_def sql_limit_offset_def Let_def
        take_map drop_map)
  ultimately show ?thesis using set dist by blast
qed

section \<open>Witnesses\<close>


theorem registry_refines_witness:
  "remove_address ones sample_db = (Err ForeignKeyViolation, sample_db) \<and>
   is_address_tracked ones sample_db = (Ok True, sample_db)"
proof -
  have "pinned ones (db_tables sample_db)" and "has_address ones (db_tables sample_db)"
    by (simp_all add: sample_db_def sample_row_def pinned_def references_def has_address_def)
  with registry_refines [OF sample_no_faults sample_tables_ok valid_ones]
  show ?thesis by (simp add: Let_def mentioned_ledger_of)
qed

theorem query_refines_witness:
  "snd (answer rowid_sort (db_tables sample_db) ones 0 1000 0 10) =
     int (card (hits ones 0 1000 (ledger_of (db_tables sample_db))))"
  using query_refines [OF rowid_sorter.tx_sorter_axioms sample_tables_ok, of ones 0 1000 0 10] by auto

end
