(* ===== verification/System.thy ===== *)
theory System
  imports Api Lifecycle Ledger
begin

text \<open>
  The running process: the HTTP server, the polling service with its locked batch manager, the channel
  and workers of its pool, and the database and cache they share. A run is a sequence of events, each
  an operation of one component on the shared state; a request and a worker's handling of a batch are
  one event each.
\<close>

section \<open>The process\<close>

text \<open>The third-party code and the node, with the configuration.\<close>

record ('c, 'w, 'pi) externals =
  ex_moka :: "'c tx_moka"
  ex_sorter :: sorter
  ex_json :: "transaction list \<Rightarrow> string option"
  ex_b58 :: b58
  ex_track_query :: "string \<Rightarrow> track_query option"
  ex_tx_query :: "string \<Rightarrow> transactions_query option"
  ex_rpc :: "('w, 'pi) rpc"
  ex_programs :: "'pi programs"
  ex_drain :: drain_order
  ex_register :: "string list \<Rightarrow> string list"
  ex_config :: config

text \<open>\<open>sy_lost\<close> are the batches whose send failed because every worker was gone. The process starts with
  the transaction cache \<open>tc\<close> and as many workers as the machine has cores.\<close>

record ('c, 'w) system =
  sy_db :: db
  sy_cache :: "'c tcm"
  sy_service :: service
  sy_pool :: worker_pool
  sy_lost :: "transaction list list"
  sy_world :: 'w

definition system_new ::
  "('c, 'w, 'pi) externals \<Rightarrow> nat \<Rightarrow> nat \<Rightarrow> db \<Rightarrow> 'c tcm \<Rightarrow> 'w \<Rightarrow> ('c, 'w) system" where
  "system_new X cpus now d tc w =
     \<lparr>sy_db = d, sy_cache = tc, sy_service = service_new cpus now, sy_pool = pool_of cpus,
      sy_lost = [], sy_world = w\<rparr>"

text \<open>The batches the manager has handed to \<open>send\<close> that have not reached the channel.\<close>

definition outbox :: "('c, 'w) system \<Rightarrow> transaction list list" where
  "outbox s = drop (length (wp_sent (sy_pool s)) + length (sy_lost s))
     (ch_sent (bm_channel (sv_manager (sy_service s))))"

datatype 'w system_event =
    Request nat u64 request
  | Polling service_event
  | Hand_Over
  | Take_Lock nat
  | Receive nat
  | Work nat "string \<Rightarrow> u64"
  | Surroundings "sqlx_error option list" 'w

fun system_next :: "('c, 'w, 'pi) externals \<Rightarrow> 'w system_event \<Rightarrow> ('c, 'w) system \<Rightarrow> ('c, 'w) system option" where
  "system_next X (Request mclock secs req) s =
     (case create_router (ex_moka X) (ex_sorter X) (ex_json X) (ex_b58 X) (ex_track_query X)
             (ex_tx_query X) mclock (Some secs) req (sy_db s, sy_cache s) of
        (resp, (d, tc)) \<Rightarrow> Some (s\<lparr>sy_db := d, sy_cache := tc\<rparr>))"
| "system_next X (Polling e) s =
     map_option (\<lambda>v. s\<lparr>sy_service := v\<rparr>) (service_next (ex_drain X) e (sy_service s))"
| "system_next X Hand_Over s =
     (case outbox s of
        [] \<Rightarrow> None
      | b # bs \<Rightarrow>
          if receiver_alive (sy_pool s)
          then map_option (\<lambda>p. s\<lparr>sy_pool := p\<rparr>) (pool_next (Send b) (sy_pool s))
          else Some (s\<lparr>sy_lost := sy_lost s @ [b]\<rparr>))"
| "system_next X (Take_Lock i) s = map_option (\<lambda>p. s\<lparr>sy_pool := p\<rparr>) (pool_next (Lock i) (sy_pool s))"
| "system_next X (Receive i) s = map_option (\<lambda>p. s\<lparr>sy_pool := p\<rparr>) (pool_next (Recv i) (sy_pool s))"
| "system_next X (Work i clock) s =
     (case worker_at (sy_pool s) i of
        Busy b \<Rightarrow>
          (case process_batch (ex_rpc X) (ex_programs X) (ex_b58 X) (\<lambda>a. Some (clock a)) (ex_register X)
                  (ex_config X) b (sy_db s, sy_world s) of
             (r, (d, w)) \<Rightarrow>
               map_option (\<lambda>p. s\<lparr>sy_db := d, sy_world := w, sy_pool := p\<rparr>)
                 (pool_next (if r = Panic then Crash i else Finish i) (sy_pool s)))
      | _ \<Rightarrow> None)"
| "system_next X (Surroundings faults w) s =
     Some (s\<lparr>sy_db := (sy_db s)\<lparr>db_faults := faults\<rparr>, sy_world := w\<rparr>)"

fun system_run ::
  "('c, 'w, 'pi) externals \<Rightarrow> 'w system_event list \<Rightarrow> ('c, 'w) system \<Rightarrow> ('c, 'w) system option" where
  "system_run X [] s = Some s"
| "system_run X (e # es) s = Option.bind (system_next X e s) (system_run X es)"

section \<open>The database under the process\<close>

lemma system_next_Work:
  assumes "system_next X (Work i clock) s = Some s'"
  obtains b r where "worker_at (sy_pool s) i = Busy b"
    "process_batch (ex_rpc X) (ex_programs X) (ex_b58 X) (\<lambda>a. Some (clock a)) (ex_register X)
       (ex_config X) b (sy_db s, sy_world s) = (r, (sy_db s', sy_world s'))"
    "pool_next (if r = Panic then Crash i else Finish i) (sy_pool s) = Some (sy_pool s')"
    "wp_done (sy_pool s') = wp_done (sy_pool s) @ [b]"
    "sy_service s' = sy_service s" "sy_lost s' = sy_lost s"
proof -
  obtain b where b: "worker_at (sy_pool s) i = Busy b"
    using assms by (simp split: worker_state.splits)
  obtain r d w where p: "process_batch (ex_rpc X) (ex_programs X) (ex_b58 X) (\<lambda>a. Some (clock a))
      (ex_register X) (ex_config X) b (sy_db s, sy_world s) = (r, (d, w))"
    by (metis surj_pair)
  obtain q where q: "pool_next (if r = Panic then Crash i else Finish i) (sy_pool s) = Some q"
    and s': "s' = s\<lparr>sy_db := d, sy_world := w, sy_pool := q\<rparr>"
    using assms b p by (auto simp del: pool_next.simps)
  have "wp_done q = wp_done (sy_pool s) @ [b]"
    using q b by (auto simp: set_worker_def split: if_splits)
  with b p q s' that show ?thesis by simp
qed

text \<open>The ways the components change the database.\<close>

inductive db_step :: "db \<Rightarrow> db \<Rightarrow> bool" where
  db_add: "add_address b58 clock a d = (r, d') \<Longrightarrow> db_step d d'"
| db_remove: "remove_address a d = (r, d') \<Longrightarrow> db_step d d'"
| db_store: "add_transactions ts d = (r, d') \<Longrightarrow> db_step d d'"
| db_read: "db_tables d' = db_tables d \<Longrightarrow> db_step d d'"

inductive_cases db_stepE: "db_step d d'"

lemma db_step_tables_ok: "db_step d d' \<Longrightarrow> tables_ok (db_tables d) \<Longrightarrow> tables_ok (db_tables d')"
  by (erule db_stepE)
    (auto dest: add_address_tables_ok remove_address_tables_ok add_transactions_tables_ok)

text \<open>A simulation: what the detailed steps do, the abstract ones can do, as long as an invariant holds.\<close>

locale simulation =
  fixes detailed :: "'c \<Rightarrow> 'c \<Rightarrow> bool"
    and abstract :: "'a \<Rightarrow> 'a \<Rightarrow> bool"
    and view :: "'c \<Rightarrow> 'a"
    and sound :: "'c \<Rightarrow> bool"
  assumes step_sound: "sound c \<Longrightarrow> detailed c c' \<Longrightarrow> sound c'"
    and step_simulated: "sound c \<Longrightarrow> detailed c c' \<Longrightarrow> abstract\<^sup>*\<^sup>* (view c) (view c')"
begin

lemma run_sound: "detailed\<^sup>*\<^sup>* c c' \<Longrightarrow> sound c \<Longrightarrow> sound c'"
  by (induction rule: rtranclp_induct) (auto intro: step_sound)

lemma run_simulated: "detailed\<^sup>*\<^sup>* c c' \<Longrightarrow> sound c \<Longrightarrow> abstract\<^sup>*\<^sup>* (view c) (view c')"
proof (induction rule: rtranclp_induct)
  case (step d d')
  from step.IH [OF step.prems] step_simulated [OF run_sound [OF step.hyps(1) step.prems] step.hyps(2)]
  show ?case by (rule rtranclp_trans)
qed simp

end

interpretation db_ledger: simulation db_step ledger_step "\<lambda>d. ledger_of (db_tables d)"
  "\<lambda>d. tables_ok (db_tables d)"
proof
  fix d d'
  assume ok: "tables_ok (db_tables d)" and step: "db_step d d'"
  show "tables_ok (db_tables d')" by (rule db_step_tables_ok [OF step ok])
  from step show "ledger_step\<^sup>*\<^sup>* (ledger_of (db_tables d)) (ledger_of (db_tables d'))"
  proof cases
    case (db_remove a r)
    then show ?thesis using ok by (rule remove_address_steps)
  qed (auto dest: add_address_steps add_transactions_steps)
qed

lemma register_all_db: "register_all b58 clock as d = (r, d') \<Longrightarrow> db_step\<^sup>*\<^sup>* d d'"
proof (induction as arbitrary: d)
  case (Cons a as)
  from Cons.prems show ?case
  proof (cases rule: register_all_Cons)
    case panic
    then show ?thesis by (blast intro: db_add)
  next
    case (ahead q d1)
    then show ?thesis by (blast intro: converse_rtranclp_into_rtranclp db_add Cons.IH)
  qed
qed simp

lemma store_transactions_db: "store_transactions ts d = (r, d') \<Longrightarrow> db_step\<^sup>*\<^sup>* d d'"
  by (cases "add_transactions ts d"; cases "fst (add_transactions ts d)")
    (auto simp: store_transactions_def intro: db_store)

lemma batch_db:
  assumes "process_transaction_batch rp cl pg b58 clock ord signatures tracked (d, w) = (r, (d', w'))"
    and "\<forall>a. clock a \<noteq> None"
  shows "db_step\<^sup>*\<^sup>* d d'"
  using assms
proof (cases rule: batch_cases)
  case (batch ts d1)
  show ?thesis by (rule rtranclp_trans [OF register_all_db [OF batch(3)] store_transactions_db [OF batch(4)]])
qed simp_all

lemma process_batch_db:
  assumes "process_batch rp pg b58 clock ord config transactions (d, w) = (r, (d', w'))"
    and "\<forall>a. clock a \<noteq> None"
  shows "db_step\<^sup>*\<^sup>* d d'"
  using assms(1)
proof (cases rule: process_batch_cases)
  case (run addrs d1 client q)
  have "db_step d d1" by (rule db_read [OF run(3)])
  then show ?thesis using batch_db [OF run(4) assms(2)] by (rule converse_rtranclp_into_rtranclp)
qed (auto intro: db_read)

lemma track_address_db:
  assumes "track_address b58 clock p d = (r, d')"
  shows "db_step\<^sup>*\<^sup>* d d'"
  using assms by (cases rule: track_address_cases) (auto intro: db_add db_remove)

lemma quiet_handler_tables:
  "get_transactions_handler M ob ser b58 (quiet_env n clock) p (d, tc) = (r, (d', tc')) \<Longrightarrow>
   db_tables d' = db_tables d"
  by (auto dest!: handler_tables)

lemma router_db:
  assumes "create_router M ob ser b58 xt xq mclock clock req (d, tc) = (resp, (d', tc'))"
  shows "db_step\<^sup>*\<^sup>* d d'"
  using assms unfolding create_router_def
  by (auto simp: on_db_def split: if_splits option.splits prod.splits
      dest: track_address_db quiet_handler_tables intro: db_read)

lemma system_next_db:
  assumes "system_next X e s = Some s'"
  shows "db_step\<^sup>*\<^sup>* (sy_db s) (sy_db s')"
proof (cases e)
  case (Request mclock secs req)
  with assms show ?thesis by (auto split: prod.splits dest: router_db)
next
  case (Work i clock)
  with assms show ?thesis
    by (auto simp del: system_next.simps elim!: system_next_Work dest!: process_batch_db)
next
  case (Surroundings faults w)
  with assms show ?thesis by (auto intro!: r_into_rtranclp db_read)
qed (use assms in \<open>auto split: list.splits if_splits\<close>)

interpretation system_db: simulation "\<lambda>s s'. \<exists>e. system_next X e s = Some s'" db_step sy_db "\<lambda>_. True"
  by unfold_locales (auto intro: system_next_db)

lemma system_run_steps:
  "system_run X es s = Some s' \<Longrightarrow> (\<lambda>s s'. \<exists>e. system_next X e s = Some s')\<^sup>*\<^sup>* s s'"
proof (induction es arbitrary: s)
  case (Cons e es)
  then obtain s1 where "system_next X e s = Some s1" "system_run X es s1 = Some s'"
    by (auto simp: Option.bind_eq_Some_conv simp del: system_next.simps)
  with Cons.IH show ?case by (blast intro: converse_rtranclp_into_rtranclp)
qed simp

lemmas system_run_db = system_db.run_simulated [OF system_run_steps TrueI]
lemmas system_run_tables_ok = db_ledger.run_sound [OF system_run_db]
lemmas system_run_ledger = db_ledger.run_simulated [OF system_run_db]

section \<open>From the pollers to the channel\<close>

fun service_part :: "'w system_event \<Rightarrow> service_event list" where
  "service_part (Polling e) = [e]"
| "service_part _ = []"

fun service_inputs :: "service_event \<Rightarrow> transaction list" where
  "service_inputs (PollerAdd i t now reset) = [t]"
| "service_inputs _ = []"

text \<open>The transactions the polling tasks added in a run.\<close>

definition added :: "'w system_event list \<Rightarrow> transaction list" where
  "added es = concat (map (concat \<circ> map service_inputs \<circ> service_part) es)"

lemma added_simps [simp]:
  "added [] = []" "added (e # es) = concat (map service_inputs (service_part e)) @ added es"
  by (simp_all add: added_def)

lemma bm_apply_sent: "prefix (ch_sent (bm_channel m)) (ch_sent (bm_channel (bm_apply ord e m)))"
  by (simp add: bm_apply_locked with_buffer_def send_transactions_to_worker_def split: prod.split)

lemma service_next_manager:
  assumes "service_next ord e s = Some s'"
  shows "sv_manager s' = sv_manager s \<and> service_inputs e = [] \<or>
    (\<exists>f. sv_manager s' = bm_apply ord f (sv_manager s) \<and> service_inputs e = bm_inputs f)"
proof (cases e)
  case (StartBatch now reset)
  with assms show ?thesis by (intro disjI2 exI [of _ "Check now reset"]) (auto split: if_splits)
next
  case (TickBatch now reset)
  with assms show ?thesis by (intro disjI2 exI [of _ "Check now reset"]) (auto split: if_splits)
next
  case (StopBatch now reset)
  with assms show ?thesis by (intro disjI2 exI [of _ "Check now reset"]) (auto split: if_splits)
next
  case (PollerAdd i t now reset)
  with assms show ?thesis by (intro disjI2 exI [of _ "Add t now reset"]) (auto split: if_splits)
qed (use assms in \<open>auto split: if_splits\<close>)

lemma service_next_took:
  assumes "iteration_order ord" and "manager_ok (sv_manager s)" and "service_next ord e s = Some s'"
  shows "took (sv_manager s) (service_inputs e) (sv_manager s')"
    and "prefix (ch_sent (bm_channel (sv_manager s))) (ch_sent (bm_channel (sv_manager s')))"
  using service_next_manager [OF assms(3)] bm_apply_took [OF assms(1,2)] bm_apply_sent assms(2)
  by auto

section \<open>From the channel to the workers\<close>

lemma pool_next_record:
  assumes "pool_next e p = Some p'"
  shows "wp_sent p' = wp_sent p @ (case e of Send b \<Rightarrow> [b] | _ \<Rightarrow> [])"
    and "prefix (wp_done p) (wp_done p')"
  using assms
  by (cases e; auto simp: set_worker_def split: if_splits list.splits worker_state.splits)+

lemma set_worker_alive: "worker_at p i \<notin> {Stopped, Dead} \<Longrightarrow> receiver_alive p"
  by (auto simp: worker_at_def receiver_alive_def list_ex_iff split: if_splits)

text \<open>A receiver that is gone does not come back.\<close>

lemma receiver_gone:
  assumes "pool_next e p = Some p'" and "\<not> receiver_alive p"
  shows "\<not> receiver_alive p'"
proof -
  have "worker_at p i \<noteq> Waiting" "worker_at p i \<noteq> Receiving" "worker_at p i \<noteq> Busy b" for i b
    using set_worker_alive [of p i] assms(2) by auto
  then show ?thesis
    using assms by (cases e) (auto simp: receiver_alive_def split: if_splits worker_state.splits)
qed

lemma system_next_pool:
  assumes "system_next X e s = Some s'"
  shows "sy_pool s' = sy_pool s \<or> (\<exists>f. pool_next f (sy_pool s) = Some (sy_pool s'))"
  using assms
  by (cases e)
    (auto simp del: pool_next.simps service_next.simps split: prod.splits list.splits if_splits worker_state.splits)

section \<open>The invariant of the process\<close>

definition handed :: "('c, 'w) system \<Rightarrow> transaction list list" where
  "handed s = ch_sent (bm_channel (sv_manager (sy_service s)))"

text \<open>The batches of the manager reach the channel in their order, each once, until the receiver is gone.\<close>

definition system_ok :: "nat \<Rightarrow> ('c, 'w) system \<Rightarrow> bool" where
  "system_ok n s \<longleftrightarrow>
     pool_reach n (sy_pool s) \<and> manager_ok (sv_manager (sy_service s)) \<and>
     handed s = wp_sent (sy_pool s) @ sy_lost s @ outbox s \<and>
     (sy_lost s \<noteq> [] \<longrightarrow> \<not> receiver_alive (sy_pool s))"

lemma handed_outbox:
  "handed s = wp_sent (sy_pool s) @ sy_lost s @ outbox s \<longleftrightarrow>
   prefix (wp_sent (sy_pool s) @ sy_lost s) (handed s)"
  by (auto simp: outbox_def handed_def prefix_def)

lemma system_ok_pool:
  assumes "system_ok n s" and "pool_next f (sy_pool s) = Some p"
    and "\<And>b. f \<noteq> Send b" and "sy_pool s' = p"
    and "sy_service s' = sy_service s" and "sy_lost s' = sy_lost s"
  shows "system_ok n s'"
proof -
  have "wp_sent p = wp_sent (sy_pool s)"
    using pool_next_record(1) [OF assms(2)] assms(3) by (cases f) auto
  moreover have "pool_reach n p"
    using assms(1,2) unfolding system_ok_def by (blast intro: pool_more pool_step.intros)
  ultimately show ?thesis
    using assms receiver_gone [OF assms(2)]
    by (auto simp: system_ok_def handed_def outbox_def)
qed

lemma system_next_ok:
  assumes "iteration_order (ex_drain X)" and "system_next X e s = Some s'" and "system_ok n s"
  shows "system_ok n s'"
proof (cases e)
  case (Polling f)
  then obtain v where v: "service_next (ex_drain X) f (sy_service s) = Some v"
    and s': "s' = s\<lparr>sy_service := v\<rparr>"
    using assms(2) by auto
  have m: "manager_ok (sv_manager (sy_service s))" using assms(3) by (simp add: system_ok_def)
  note took = service_next_took [OF assms(1) m v]
  have "prefix (wp_sent (sy_pool s) @ sy_lost s) (handed s')"
    using assms(3) took(2) unfolding system_ok_def handed_outbox
    by (auto simp: handed_def s' intro: prefix_order.trans)
  then show ?thesis
    using assms(3) took_ok [OF took(1)] unfolding system_ok_def handed_outbox by (simp add: s')
next
  case Hand_Over
  then obtain b bs where b: "outbox s = b # bs" using assms(2) by (auto split: list.splits)
  show ?thesis
  proof (cases "receiver_alive (sy_pool s)")
    case True
    then obtain p where p: "pool_next (Send b) (sy_pool s) = Some p" and s': "s' = s\<lparr>sy_pool := p\<rparr>"
      using Hand_Over assms(2) b by auto
    have "wp_sent p = wp_sent (sy_pool s) @ [b]" using pool_next_record(1) [OF p] by simp
    moreover have lost: "sy_lost s = []" using assms(3) True by (auto simp: system_ok_def)
    moreover have "handed s = wp_sent (sy_pool s) @ b # bs"
      using assms(3) b lost by (simp add: system_ok_def)
    moreover have "pool_reach n p"
      using assms(3) p unfolding system_ok_def by (blast intro: pool_more pool_step.intros)
    ultimately show ?thesis
      using assms(3) b unfolding system_ok_def handed_outbox by (auto simp: s' handed_def)
  next
    case False
    then have s': "s' = s\<lparr>sy_lost := sy_lost s @ [b]\<rparr>" using Hand_Over assms(2) b by simp
    have "handed s = wp_sent (sy_pool s) @ sy_lost s @ b # bs"
      using assms(3) b by (simp add: system_ok_def)
    with s' show ?thesis
      using assms(3) b False unfolding system_ok_def handed_outbox by (auto simp: handed_def)
  qed
next
  case (Take_Lock i)
  with assms(2,3) show ?thesis by (auto simp del: pool_next.simps intro: system_ok_pool)
next
  case (Receive i)
  with assms(2,3) show ?thesis by (auto simp del: pool_next.simps intro: system_ok_pool)
next
  case (Work i clock)
  obtain r :: "(sqlx_error, unit) res" where q: "pool_next (if r = Panic then Crash i else Finish i) (sy_pool s) = Some (sy_pool s')"
    and same: "sy_service s' = sy_service s" "sy_lost s' = sy_lost s"
    using assms(2) [unfolded Work] by (elim system_next_Work) blast
  show ?thesis by (rule system_ok_pool [OF assms(3) q _ refl same]) simp
qed (use assms(2,3) in \<open>auto simp: system_ok_def handed_def outbox_def split: prod.splits\<close>)

section \<open>Runs\<close>

lemma system_run_Cons:
  assumes "system_run X (e # es) s = Some s'"
  obtains s1 where "system_next X e s = Some s1" "system_run X es s1 = Some s'"
  using assms by (auto simp: Option.bind_eq_Some_conv simp del: system_next.simps)

lemma system_run_ok:
  assumes "iteration_order (ex_drain X)"
  shows "system_run X es s = Some s' \<Longrightarrow> system_ok n s \<Longrightarrow> system_ok n s'"
  by (induction es arbitrary: s)
    (auto simp del: system_run.simps(2) elim!: system_run_Cons dest: system_next_ok [OF assms])

lemma system_run_service:
  "system_run X es s = Some s' \<Longrightarrow>
   service_steps (ex_drain X) (concat (map service_part es)) (sy_service s) = Some (sy_service s')"
proof (induction es arbitrary: s)
  case (Cons e es)
  from Cons.prems obtain s1 where 1: "system_next X e s = Some s1" and 2: "system_run X es s1 = Some s'"
    by (rule system_run_Cons)
  show ?case
  proof (cases "\<exists>f. e = Polling f")
    case True
    then obtain f where f: "e = Polling f" ..
    with 1 have "service_next (ex_drain X) f (sy_service s) = Some (sy_service s1)" by auto
    with Cons.IH [OF 2] show ?thesis by (simp add: f del: service_next.simps)
  next
    case False
    with 1 have "sy_service s1 = sy_service s" and "service_part e = []"
      by (cases e; auto simp del: pool_next.simps service_next.simps
          split: prod.splits list.splits if_splits worker_state.splits)+
    with Cons.IH [OF 2] show ?thesis by simp
  qed
qed simp

lemma service_steps_took:
  assumes "iteration_order ord"
  shows "service_steps ord es s = Some s' \<Longrightarrow> manager_ok (sv_manager s) \<Longrightarrow>
    took (sv_manager s) (concat (map service_inputs es)) (sv_manager s')"
proof (induction es arbitrary: s)
  case (Cons e es)
  then obtain s1 where 1: "service_next ord e s = Some s1" and 2: "service_steps ord es s1 = Some s'"
    by (auto simp: Option.bind_eq_Some_conv simp del: service_next.simps)
  note t = service_next_took(1) [OF assms Cons.prems(2) 1]
  from took_trans [OF t Cons.IH [OF 2 took_ok [OF t]]] show ?case by simp
qed simp

lemma added_service: "added es = concat (map service_inputs (concat (map service_part es)))"
  by (induction es) simp_all

lemma system_run_took:
  assumes "iteration_order (ex_drain X)" and "system_run X es s = Some s'"
    and "manager_ok (sv_manager (sy_service s))"
  shows "took (sv_manager (sy_service s)) (added es) (sv_manager (sy_service s'))"
  unfolding added_service by (rule service_steps_took [OF assms(1) system_run_service [OF assms(2)] assms(3)])

lemma system_ok_new: "system_ok cpus (system_new X cpus now d tc w)"
proof -
  have "wp_sent (pool_of cpus) = []" by (simp add: pool_of_def)
  then show ?thesis
    by (simp add: system_ok_def system_new_def handed_def outbox_def pool_init)
qed

section \<open>Where the stored transactions come from\<close>

text \<open>The rows stored after \<open>rows\<close> have signatures of transactions in batches finished after \<open>fin\<close>.\<close>

definition stored_from :: "tx_row list \<Rightarrow> transaction list list \<Rightarrow> ('c, 'w) system \<Rightarrow> bool" where
  "stored_from rows fin s \<longleftrightarrow>
     (\<exists>new later. t_txs (db_tables (sy_db s)) = rows @ new \<and> wp_done (sy_pool s) = fin @ later \<and>
        r_signature ` set new \<subseteq> tx_signature ` set (concat later))"

lemma stored_from_start [simp]: "stored_from (t_txs (db_tables (sy_db s))) (wp_done (sy_pool s)) s"
  by (simp add: stored_from_def)

lemma stored_from_same:
  assumes "stored_from rows fin s" and "t_txs (db_tables (sy_db s')) = t_txs (db_tables (sy_db s))"
    and "prefix (wp_done (sy_pool s)) (wp_done (sy_pool s'))"
  shows "stored_from rows fin s'"
proof -
  obtain new later more where old: "t_txs (db_tables (sy_db s)) = rows @ new"
    "wp_done (sy_pool s) = fin @ later" "wp_done (sy_pool s') = wp_done (sy_pool s) @ more"
    "r_signature ` set new \<subseteq> tx_signature ` set (concat later)"
    using assms(1,3) unfolding stored_from_def prefix_def by blast
  have "set (concat later) \<subseteq> set (concat (later @ more))" by auto
  from subset_trans [OF old(4) image_mono [OF this]] old(1-3) assms(2) show ?thesis
    unfolding stored_from_def by fastforce
qed

lemma merge_rows_new_rows:
  "\<exists>new. merge_rows rows ts = rows @ new \<and> r_signature ` set new \<subseteq> tx_signature ` set ts"
proof (induction ts arbitrary: rows)
  case (Cons t ts)
  let ?rows = "if tx_signature t \<in> r_signature ` set rows then rows else rows @ [row_of_tx t]"
  obtain new where "merge_rows ?rows ts = ?rows @ new" "r_signature ` set new \<subseteq> tx_signature ` set ts"
    using Cons by blast
  then show ?case by (auto simp: image_iff split: if_splits)
qed simp

lemma system_next_stored:
  assumes "system_next X e s = Some s'" and "stored_from rows fin s" and "tables_ok (db_tables (sy_db s))"
  shows "stored_from rows fin s'"
proof (cases "\<exists>i clock. e = Work i clock")
  case True
  then obtain i clock where e: "e = Work i clock" by blast
  obtain b r where p: "process_batch (ex_rpc X) (ex_programs X) (ex_b58 X) (\<lambda>a. Some (clock a))
        (ex_register X) (ex_config X) b (sy_db s, sy_world s) = (r, (sy_db s', sy_world s'))"
    and pool: "wp_done (sy_pool s') = wp_done (sy_pool s) @ [b]"
    using assms(1) [unfolded e] by (elim system_next_Work) blast
  have clock: "\<forall>a. Some (clock a) \<noteq> None" by simp
  obtain ts where sigs: "tx_signature ` set ts \<subseteq> tx_signature ` set b"
    and merge: "t_txs (db_tables (sy_db s')) = merge_rows (t_txs (db_tables (sy_db s))) ts"
    using process_batch_stored [OF p clock] by auto
  obtain new where new: "t_txs (db_tables (sy_db s')) = t_txs (db_tables (sy_db s)) @ new"
    "r_signature ` set new \<subseteq> tx_signature ` set ts"
    unfolding merge using merge_rows_new_rows by blast
  obtain old later where old: "t_txs (db_tables (sy_db s)) = rows @ old"
    "wp_done (sy_pool s) = fin @ later" "r_signature ` set old \<subseteq> tx_signature ` set (concat later)"
    using assms(2) unfolding stored_from_def by blast
  have b: "r_signature ` set new \<subseteq> tx_signature ` set b" using new(2) sigs by (rule subset_trans)
  have "set (concat (later @ [b])) = set (concat later) \<union> set b" by simp
  then have "r_signature ` set (old @ new) \<subseteq> tx_signature ` set (concat (later @ [b]))"
    using Un_mono [OF old(3) b] by (simp only: set_append image_Un)
  moreover have "wp_done (sy_pool s') = fin @ later @ [b]" by (simp add: pool old(2))
  moreover have "t_txs (db_tables (sy_db s')) = rows @ old @ new" by (simp add: new(1) old(1))
  ultimately show ?thesis unfolding stored_from_def by blast
next
  case False
  have "t_txs (db_tables (sy_db s')) = t_txs (db_tables (sy_db s))"
  proof (cases e)
    case (Request mclock secs req)
    with assms(1) obtain resp where "create_router (ex_moka X) (ex_sorter X) (ex_json X) (ex_b58 X)
        (ex_track_query X) (ex_tx_query X) mclock (Some secs) req (sy_db s, sy_cache s) =
        (resp, (sy_db s', sy_cache s'))"
      by (auto split: prod.splits)
    from router_step [OF this] assms(3) show ?thesis by simp
  qed (use assms(1) False in \<open>auto simp del: pool_next.simps service_next.simps
      split: list.splits if_splits\<close>)
  moreover have "prefix (wp_done (sy_pool s)) (wp_done (sy_pool s'))"
    using system_next_pool [OF assms(1)] pool_next_record(2) by auto
  ultimately show ?thesis by (rule stored_from_same [OF assms(2)])
qed

lemma system_run_stored:
  "system_run X es s = Some s' \<Longrightarrow> stored_from rows fin s \<Longrightarrow> tables_ok (db_tables (sy_db s)) \<Longrightarrow>
   stored_from rows fin s'"
proof (induction es arbitrary: s)
  case (Cons e es)
  from Cons.prems(1) obtain s1 where 1: "system_next X e s = Some s1" and 2: "system_run X es s1 = Some s'"
    by (rule system_run_Cons)
  have "tables_ok (db_tables (sy_db s1))"
    by (rule db_ledger.run_sound [OF system_next_db [OF 1] Cons.prems(3)])
  with Cons.IH [OF 2] system_next_stored [OF 1 Cons.prems(2,3)] show ?case by blast
qed simp

lemma system_run_lost: "system_run X es s = Some s' \<Longrightarrow> prefix (sy_lost s) (sy_lost s')"
proof (induction es arbitrary: s)
  case (Cons e es)
  from Cons.prems obtain s1 where 1: "system_next X e s = Some s1" and 2: "system_run X es s1 = Some s'"
    by (rule system_run_Cons)
  have "prefix (sy_lost s) (sy_lost s1)"
    using 1 by (cases e) (auto simp del: pool_next.simps service_next.simps
        split: prod.splits list.splits if_splits worker_state.splits)
  then show ?case using Cons.IH [OF 2] by (rule prefix_order.trans)
qed simp

lemma system_run_append:
  "system_run X (es @ fs) s = Option.bind (system_run X es s) (system_run X fs)"
proof (induction es arbitrary: s)
  case (Cons e es)
  then show ?case by (cases "system_next X e s") (simp_all del: system_next.simps)
qed simp

section \<open>Transactions under way\<close>

text \<open>In the buffer, waiting to be sent, in the channel or in the hands of a worker.\<close>

definition in_flight :: "('c, 'w) system \<Rightarrow> transaction multiset" where
  "in_flight s = mset (buffered (bm_buffer (sv_manager (sy_service s)))) + mset (concat (outbox s)) +
     mset (concat (wp_queue (sy_pool s))) + \<Sum>\<^sub># (image_mset mset (in_hand (sy_pool s)))"

end
