(* ===== verification/Spec2Isabelle.thy ===== *)
theory Spec2Isabelle
  imports System
begin

text \<open>
  A model of \<^verbatim>\<open>chain-data-service\<close>, a service that polls a Solana node for the transactions of the
  addresses it tracks, stores them in SQLite and serves them over HTTP. File names are relative to
  \<^verbatim>\<open>src/src/\<close>.

  \<^bold>\<open>The parts and how they interact.\<close> A client tracks addresses and queries transactions over HTTP
  (\<^verbatim>\<open>api/\<close>); the handlers validate (\<^verbatim>\<open>validation.rs\<close>), read and write the tables (\<^verbatim>\<open>db/\<close>) and go through
  a cache of pages (\<^verbatim>\<open>cache/\<close>). The polling tasks (\<^verbatim>\<open>blockchain/polling.rs\<close>) ask the node
  (\<^verbatim>\<open>blockchain/client.rs\<close>) for signatures and transactions, extract them (\<^verbatim>\<open>blockchain/models.rs\<close>) and
  add them to a batch manager (\<^verbatim>\<open>blockchain/batch_manager.rs\<close>), which sends batches over a channel to the
  worker pool (\<^verbatim>\<open>blockchain/worker_pool.rs\<close>). A worker fetches the batch's signatures again, filters and
  stores them (\<^verbatim>\<open>blockchain/processor.rs\<close>). \<^verbatim>\<open>main.rs\<close> starts and stops all this.

  \<^bold>\<open>The theories\<close>, in the order of their imports, with the code each models:
  \<^item> \<^verbatim>\<open>Prelude\<close>: outcomes of a call (\<open>Ok\<close>, \<open>Err\<close>, \<open>Panic\<close>), the binds that stand for \<open>?\<close>, the locale of an
    unspecified iteration order, list lemmas (\<open>chunks\<close>, sorting, \<open>remdups_adj\<close>).
  \<^item> \<^verbatim>\<open>Rust_Std\<close>: integer and text conversions of Rust's standard library with their overflow
    (\<open>parse\<close>, \<open>as\<close>, wrapping \<open>i64\<close>), \<open>trim\<close>, \<open>to_lowercase\<close>.
  \<^item> \<^verbatim>\<open>F64\<close>: IEEE 754 doubles for the amounts: conversion, division and parsing, each rounding to nearest.
  \<^item> \<^verbatim>\<open>Models\<close> (\<^verbatim>\<open>models/mod.rs\<close>), \<^verbatim>\<open>Validation\<close> (\<^verbatim>\<open>validation.rs\<close>), \<^verbatim>\<open>Config\<close> (\<^verbatim>\<open>config.rs\<close>).
  \<^item> \<^verbatim>\<open>Db_Schema\<close> (\<^verbatim>\<open>db/connection.rs\<close>, \<^verbatim>\<open>db/migration.rs\<close>): table definitions, connection, migrations.
    \<^verbatim>\<open>Db\<close>: the two tables as row lists, each SQL statement as a function on them, statements that fail,
    database transactions with rollback, and the invariant \<open>tables_ok\<close> (keys, foreign keys).
    \<^verbatim>\<open>Db_Address\<close> (\<^verbatim>\<open>db/address.rs\<close>), \<^verbatim>\<open>Cache\<close> (\<^verbatim>\<open>cache/\<close>), \<^verbatim>\<open>Db_Transaction\<close> (\<^verbatim>\<open>db/transaction.rs\<close>).
  \<^item> \<^verbatim>\<open>Ledger\<close>: the abstract specification of the database, a set of tracked addresses and a partial map
    from signatures to transactions, with the refinement of every operation.
  \<^item> \<^verbatim>\<open>Api\<close> (\<^verbatim>\<open>api/error.rs\<close>, \<^verbatim>\<open>response.rs\<close>, \<^verbatim>\<open>route.rs\<close>, \<^verbatim>\<open>mod.rs\<close>): responses, both handlers, the router.
  \<^item> \<^verbatim>\<open>Chain_Models\<close> (\<^verbatim>\<open>blockchain/models.rs\<close>), \<^verbatim>\<open>Client\<close> (\<^verbatim>\<open>blockchain/client.rs\<close>), \<^verbatim>\<open>Processor\<close>,
    \<^verbatim>\<open>Batch_Manager\<close>, \<^verbatim>\<open>Worker_Pool\<close>, \<^verbatim>\<open>Polling\<close> (the files of the same names under \<^verbatim>\<open>blockchain/\<close>).
  \<^item> \<^verbatim>\<open>Lifecycle\<close> (\<^verbatim>\<open>main.rs\<close>, \<open>start_polling\<close>): start-up, the lock of the batch manager, shutdown.
  \<^item> \<^verbatim>\<open>System\<close>: the running process, every component's operations as events on one shared state, and the
    locale of simulations, interpreted from the process to the database and from there to the ledger.
    The properties of the whole process are in this theory.

  \<^bold>\<open>State.\<close> \<open>tables\<close> are the rows of the two tables in insertion order; \<open>db\<close> adds the outcomes of the
  statements to come, so that any statement can fail. \<open>tcm\<close> is the page cache. \<open>batch_manager\<close> is the
  buffer, its configuration and the sending end of the channel; \<open>worker_pool\<close> is the channel, the
  state of every worker, and the batches sent, taken and finished. \<open>service\<close> is the lock around the
  batch manager with the task that holds it; \<open>system\<close> is all of these with the state of the node.

  \<^bold>\<open>Parameters.\<close> Code outside the repository is an argument: the base58 decoder, the cache \<open>moka\<close> (locales
  \<open>moka_cache\<close> and \<open>timed_cache\<close>, interpreted on a least-recently-used cache with a time to live), the order
  in which SQLite returns rows of equal time, an arbitrary function of the rows and of \<open>LIMIT\<close> and
  \<open>OFFSET\<close>, so that each page may have its own (\<open>sorter\<close>, locale \<open>order_by\<close>), the node, the rate limiter, the retry loop of \<open>backon\<close> and
  what passes while it pauses (record \<open>rpc\<close>; locale \<open>retrier\<close>, interpreted on a loop that makes one
  attempt more than the policy's number of retries, with a pause before each retry), the instruction
  decoder (\<open>programs\<close>), \<open>serde_json\<close>, the query extractor of \<open>axum\<close>, the iteration order of hash
  containers (\<open>iteration_order\<close>), and the clocks. What the other tasks do to the tables between the awaits
  of a query, with its clock readings, is a \<open>query_env\<close>. The wait for the lock of the batch manager is a
  \<open>clockwork\<close>, \<open>None\<close> if the lock is never granted.

  \<^bold>\<open>What the lemmas show.\<close> For each component: that its operations keep its invariant, faults included; its
  behaviour on every branch; and how the next component may use it (locales \<open>registry\<close>,
  \<open>result_cache\<close>, \<open>query_engine\<close>, \<open>batcher\<close>, \<open>fifo_batcher\<close>, \<open>simulation\<close>, each interpreted on the model). For the
  process: transactions are conserved from the polling tasks to the finished batches, the tables
  refine the ledger in every run, stored rows come from added transactions, and, because the batch
  task keeps the lock of the batch manager, nothing is added once that task has the lock and nothing
  stored but what was under way then. For a query: which past states of the tables its page and count are
  from, and how old they can be.

  \<^bold>\<open>Loops and bounds.\<close> The walk through an address's history has no bound in the code; it is a
  \<open>partial_function (option)\<close>, \<open>None\<close> for a walk that never returns. If the node reports signatures from a
  finite set, every turn of the task returns where the lock is granted, and where it never is the task
  stays at the first transaction it has to add (\<open>history_terminates\<close>). Every other loop is
  structural. Ticks of a timer, requests and the interleaving of tasks are lists of events, of any length.
  Machine integers wrap: slots are 64-bit words, \<open>i64\<close> values are integers with \<open>wrap_i64\<close> where the
  code adds. The panics of the start-up (a time to live that moka refuses, a \<open>WORKER_COUNT\<close> over the
  capacity of a vector) are \<open>Panic\<close>.

  \<^bold>\<open>Granularity.\<close> The statements of a query, outside a transaction in the code, are separate steps with the
  other tasks between them in \<open>get_transactions\<close> and its handler, and the properties of \<^verbatim>\<open>Db_Transaction\<close> and
  \<^verbatim>\<open>Api\<close> allow for that. A run of the process is coarser: a request (its statements with nothing between
  them), a worker's handling of a batch and a locked section of the batch manager are one event each. A
  send that waits for room in the channel leaves its batch in \<open>outbox\<close>; sends enter the channel in the
  order they were made. The results of the concurrent requests of \<open>join_all\<close> are taken in order.

  \<^bold>\<open>Not modelled.\<close> Logging; signal handlers; the socket beyond the answer to binding it; how long a pause
  (\<open>sleep\<close>) is; memory exhaustion; indexes and the journal mode, which do not change what a statement
  returns; \<open>CacheMetrics\<close>, which nothing uses; the batch manager and pool that \<open>main\<close> itself starts
  beyond their start-up, since no task adds a transaction to that manager; \<^verbatim>\<open>service/\<close>, whose files are
  empty; and the test programs under \<^verbatim>\<open>bin/\<close> and \<^verbatim>\<open>tests/\<close>.
\<close>

section \<open>The process as a whole\<close>

lemma mset_concat_batches: "mset (concat bs) = \<Sum>\<^sub># (image_mset mset (mset bs))"
  by (induction bs) simp_all

lemma service_new_manager_ok: "manager_ok (sv_manager (sy_service (system_new X cpus now d tc w)))"
  and service_new_held: "held (sv_manager (sy_service (system_new X cpus now d tc w))) = []"
  by (simp_all add: system_new_def)

text \<open>The signatures of the finished batches are signatures of added transactions.\<close>

lemma done_added:
  assumes "iteration_order (ex_drain X)" and "system_run X es (system_new X cpus now d tc w) = Some s"
  shows "mset (added es) = mset (buffered (bm_buffer (sv_manager (sy_service s)))) +
    mset (concat (outbox s)) + mset (concat (sy_lost s)) + mset (concat (wp_queue (sy_pool s))) +
    \<Sum>\<^sub># (image_mset mset (in_hand (sy_pool s))) + mset (concat (wp_done (sy_pool s)))"
proof -
  let ?m = "sv_manager (sy_service s)" and ?p = "sy_pool s"
  have ok: "system_ok cpus s" by (rule system_run_ok [OF assms system_ok_new])
  have pool: "pool_ok cpus ?p" using ok pool_reach_ok by (simp add: system_ok_def)
  have "mset (added es) = mset (held ?m)"
    using system_run_took [OF assms service_new_manager_ok] by (simp add: took_def service_new_held)
  also have "\<dots> = mset (concat (handed s)) + mset (buffered (bm_buffer ?m))"
    by (simp add: held_def all_sent_def handed_def)
  also have "mset (concat (handed s)) =
      mset (concat (wp_sent ?p)) + mset (concat (sy_lost s)) + mset (concat (outbox s))"
    using ok by (simp add: system_ok_def)
  also have "mset (concat (wp_sent ?p)) = mset (concat (wp_taken ?p)) + mset (concat (wp_queue ?p))"
    using pool by (simp add: pool_ok_def)
  also have "mset (concat (wp_taken ?p)) =
      \<Sum>\<^sub># (image_mset mset (in_hand ?p)) + mset (concat (wp_done ?p))"
    using pool by (simp add: mset_concat_batches pool_ok_def)
  finally show ?thesis by (simp add: ac_simps)
qed

text \<open>C1. No transaction is lost or duplicated on its way through the process: the transactions the
  polling tasks added are, each exactly once, in the buffer of the batch manager, in a batch waiting to
  be sent, in the channel, in the hands of a worker or in a finished batch; the one other place is a
  batch whose send failed, which takes that every worker is gone. The batches enter the channel in
  the order in which the manager formed them.\<close>

theorem pipeline_conserves:
  assumes "iteration_order (ex_drain X)" and "system_run X events (system_new X cpus now d tc w) = Some s"
  shows "mset (added events) = mset (buffered (bm_buffer (sv_manager (sy_service s)))) +
      mset (concat (outbox s)) + mset (concat (sy_lost s)) + mset (concat (wp_queue (sy_pool s))) +
      \<Sum>\<^sub># (image_mset mset (in_hand (sy_pool s))) + mset (concat (wp_done (sy_pool s))) \<and>
    handed s = wp_sent (sy_pool s) @ sy_lost s @ outbox s \<and>
    (sy_lost s = [] \<or> \<not> receiver_alive (sy_pool s))"
  using done_added [OF assms] system_run_ok [OF assms system_ok_new] by (auto simp: system_ok_def)

text \<open>C2. Whatever the order of requests, polling, sends, workers and faults, the process refines the
  ledger: from tables that satisfy their invariant, the tables it reaches satisfy it, the ledger they
  stand for is reached by tracking an address, untracking one no stored transaction mentions, and
  storing transactions whose addresses are tracked; no stored transaction is ever changed or removed.\<close>

theorem process_refines_ledger:
  assumes "system_run X events s0 = Some s" and "tables_ok (db_tables (sy_db s0))"
  shows "tables_ok (db_tables (sy_db s)) \<and>
    ledger_step\<^sup>*\<^sup>* (ledger_of (db_tables (sy_db s0))) (ledger_of (db_tables (sy_db s))) \<and>
    ledger_of (db_tables (sy_db s0)) \<le> ledger_of (db_tables (sy_db s)) \<and>
    ledger_ok (ledger_of (db_tables (sy_db s)))"
  using system_run_tables_ok [OF assms] system_run_ledger [OF assms] ledger_of_ok
    ledger_steps(1) [OF system_run_ledger [OF assms]]
  by blast

lemma run_stored_added:
  assumes "iteration_order (ex_drain X)" and "tables_ok (db_tables d)"
    and "system_run X events (system_new X cpus now d tc w) = Some s"
  shows "\<exists>new. t_txs (db_tables (sy_db s)) = t_txs (db_tables d) @ new \<and>
    r_signature ` set new \<subseteq> tx_signature ` set (added events)"
proof -
  let ?s0 = "system_new X cpus now d tc w"
  have d: "sy_db ?s0 = d" "wp_done (sy_pool ?s0) = []" by (simp_all add: system_new_def pool_of_def)
  have "stored_from (t_txs (db_tables d)) [] s"
    using system_run_stored [OF assms(3) stored_from_start] assms(2) unfolding d .
  then obtain new where new: "t_txs (db_tables (sy_db s)) = t_txs (db_tables d) @ new"
    "r_signature ` set new \<subseteq> tx_signature ` set (concat (wp_done (sy_pool s)))"
    unfolding stored_from_def by auto
  have "set (concat (wp_done (sy_pool s))) \<subseteq> set (added events)"
    using arg_cong [OF done_added [OF assms(1,3)], of set_mset] by auto
  from subset_trans [OF new(2) image_mono [OF this]] new(1) show ?thesis by blast
qed

text \<open>C3. Rows are only ever appended to the stored transactions, and every appended row has the
  signature of a transaction that a polling task added during the run.\<close>

theorem stored_were_added:
  assumes "iteration_order (ex_drain X)" and "tables_ok (db_tables d)"
    and "system_run X events (system_new X cpus now d tc w) = Some s"
  shows "\<exists>new. t_txs (db_tables (sy_db s)) = t_txs (db_tables d) @ new \<and>
    r_signature ` set new \<subseteq> tx_signature ` set (added events)"
  by (rule run_stored_added [OF assms])

lemma service_part_iff: "f \<in> set (service_part e) \<longleftrightarrow> e = Polling f"
  by (cases e) auto

lemma service_inputs_none: "\<forall>i t n r. f \<noteq> PollerAdd i t n r \<Longrightarrow> service_inputs f = []"
  by (cases f) auto

lemma added_none: "\<forall>i t n r. Polling (PollerAdd i t n r) \<notin> set es \<Longrightarrow> added es = []"
proof (induction es)
  case (Cons e es)
  have "service_inputs f = []" if "f \<in> set (service_part e)" for f
    by (rule service_inputs_none) (use that Cons.prems in \<open>auto simp: service_part_iff\<close>)
  then have "concat (map service_inputs (service_part e)) = []" by simp
  with Cons show ?case by simp
qed simp

lemma done_in_flight:
  assumes "iteration_order (ex_drain X)" and "system_run X es (system_new X cpus now d tc w) = Some s"
  shows "mset (added es) = in_flight s + mset (concat (sy_lost s)) + mset (concat (wp_done (sy_pool s)))"
  using done_added [OF assms] by (simp add: in_flight_def ac_simps del: mset_concat)

text \<open>What is finished after some point of a run in which nothing is added was under way at that point.\<close>

lemma finished_in_flight:
  assumes "iteration_order (ex_drain X)" and "system_run X before (system_new X cpus start d tc w) = Some s0"
    and "system_run X events s0 = Some s" and "added events = []"
    and "wp_done (sy_pool s) = wp_done (sy_pool s0) @ later"
  shows "in_flight s + mset (concat later) \<subseteq># in_flight s0"
proof -
  have run: "system_run X (before @ events) (system_new X cpus start d tc w) = Some s"
    by (simp add: system_run_append assms(2,3))
  obtain more where more: "sy_lost s = sy_lost s0 @ more"
    using system_run_lost [OF assms(3)] unfolding prefix_def by blast
  have "added (before @ events) = added before" using assms(4) by (simp add: added_def)
  with done_in_flight [OF assms(1) run] done_in_flight [OF assms(1,2)]
  have "in_flight s + (mset (concat more) + mset (concat later)) = in_flight s0"
    by (simp add: assms(5) more ac_simps del: mset_concat)
  then show ?thesis by (metis mset_subset_eq_add_left union_assoc union_commute)
qed

lemma polled_iff: "f \<in> set (concat (map service_part es)) \<longleftrightarrow> Polling f \<in> set es"
  by (simp add: service_part_iff)

text \<open>C4. The service as it is put together stops storing once the batch task has the lock of its batch
  manager. At whatever point of a run that is, without a shutdown the task keeps the lock and no
  polling task adds a transaction any more; nothing but what was under way at that point, in the buffer, in
  a batch waiting to be sent, in the channel or in the hands of a worker, is stored later; and if no
  transaction had been added before it got the lock, no row is ever stored, whatever requests are served,
  whatever the node reports and however long the process runs.\<close>

theorem service_stores_nothing:
  assumes "iteration_order (ex_drain X)" and "tables_ok (db_tables d)"
    and "system_run X before (system_new X cpus start d tc w) = Some s0"
    and "occupied (sy_service s0)" and "Polling Cancel \<notin> set events"
    and "system_run X events s0 = Some s"
  shows "occupied (sy_service s) \<and> added events = [] \<and> in_flight s \<subseteq># in_flight s0 \<and>
    (\<exists>new. t_txs (db_tables (sy_db s)) = t_txs (db_tables (sy_db s0)) @ new \<and>
       r_signature ` set new \<subseteq> tx_signature ` set_mset (in_flight s0)) \<and>
    (added before = [] \<longrightarrow> t_txs (db_tables (sy_db s)) = t_txs (db_tables d))"
proof -
  let ?es = "concat (map service_part events)"
  have ok: "manager_ok (sv_manager (sy_service s0))"
    using system_run_ok [OF assms(1,3) system_ok_new] by (simp add: system_ok_def)
  have "Cancel \<notin> set ?es" using assms(5) by (simp only: polled_iff not_False_eq_True)
  note starved = occupied_steps [OF assms(1,4) ok system_run_service [OF assms(6)] this]
  then have none: "added events = []"
    by (intro added_none) (simp only: polled_iff [symmetric] not_False_eq_True simp_thms)
  have tables: "tables_ok (db_tables (sy_db s0))"
    by (rule system_run_tables_ok [OF assms(3)]) (simp add: system_new_def assms(2))
  obtain new later where new: "t_txs (db_tables (sy_db s)) = t_txs (db_tables (sy_db s0)) @ new"
    "wp_done (sy_pool s) = wp_done (sy_pool s0) @ later"
    "r_signature ` set new \<subseteq> tx_signature ` set (concat later)"
    using system_run_stored [OF assms(6) stored_from_start tables] unfolding stored_from_def by blast
  note flight = finished_in_flight [OF assms(1,3,6) none new(2)]
  have "set (concat later) \<subseteq> set_mset (in_flight s0)"
    using set_mset_mono [OF flight] by (simp del: set_concat mset_concat)
  then have stored: "r_signature ` set new \<subseteq> tx_signature ` set_mset (in_flight s0)"
    using new(3) by (meson image_mono subset_trans)
  have run: "system_run X (before @ events) (system_new X cpus start d tc w) = Some s"
    by (simp add: system_run_append assms(3,6))
  have "t_txs (db_tables (sy_db s)) = t_txs (db_tables d)" if "added before = []"
  proof -
    have "added (before @ events) = []" using that none by (simp add: added_def)
    with run_stored_added [OF assms(1,2) run] show ?thesis by auto
  qed
  moreover have "in_flight s \<subseteq># in_flight s0" using flight by (meson mset_subset_eq_add_left subset_mset.trans)
  ultimately show ?thesis using starved none new(1) stored by blast
qed

section \<open>A run that stores a transaction\<close>

text \<open>A polling task that gets the lock before the batch task, with a buffer that is old enough to flush:
  the one course in which a transaction reaches the table.\<close>

definition sample_externals :: "((cache_key, page) lru, nat, json) externals" where
  "sample_externals =
     \<lparr>ex_moka = lru_moka, ex_sorter = rowid_sort, ex_json = sample_ser, ex_b58 = any_b58,
      ex_track_query = (\<lambda>_. Some \<lparr>tq_address = ones, tq_action = ''add''\<rparr>),
      ex_tx_query = (\<lambda>_. Some sample_query), ex_rpc = bob_rpc, ex_programs = sample_pg,
      ex_drain = rev, ex_register = (\<lambda>xs. xs), ex_config = from_env (\<lambda>_. None)\<rparr>"

definition sample_start :: "((cache_key, page) lru, nat) system" where
  "sample_start = system_new sample_externals 1 0 sample_db (lru_tcm 1000 60) 0"

definition sample_events :: "nat system_event list" where
  "sample_events =
     [Polling (PollerLock 0), Polling (PollerAdd 0 bob_tx 5000000000 5000000000), Hand_Over,
      Take_Lock 0, Receive 0, Work 0 (\<lambda>_. 9)]"

lemma bob_stored:
  "case bind_st (register_all any_b58 (\<lambda>_. Some 9) [ones, bob]) (\<lambda>_. store_transactions [bob_tx]) sample_db
   of (r, d) \<Rightarrow> r = Ok 1 \<and> t_txs (db_tables d) = [sample_row, row_of_tx bob_tx]"
  by code_simp

lemma bob_registers: "addresses_to_register [bob_tx] = [ones, bob]"
  by code_simp

lemma bob_signature: "tx_signature bob_tx = ''s9''" "tx_source bob_tx = ones"
  by (simp_all add: bob_tx_def)

lemma sample_get_all: "get_all_tracked_addresses sample_db = (Ok [ones], sample_db)"
  by (simp add: get_all_tracked_addresses_def bind_st_def ret_st_def stmt_no_faults)
    (simp add: sample_db_def)

lemma bob_batch:
  "\<exists>d'. process_batch bob_rpc sample_pg any_b58 (\<lambda>_. Some 9) (\<lambda>xs. xs) (from_env (\<lambda>_. None)) [bob_tx]
     (sample_db, 0) = (Ok (), (d', 1)) \<and> t_txs (db_tables d') = [sample_row, row_of_tx bob_tx]"
proof -
  obtain cl where cl: "solana_client_new (from_env (\<lambda>_. None)) = (Ok cl :: (unit, solana_client) res)"
    by (simp add: solana_client_new_def from_env_def Let_def)
  obtain d' where st: "bind_st (register_all any_b58 (\<lambda>_. Some 9) [ones, bob])
      (\<lambda>_. store_transactions [bob_tx]) sample_db = (Ok 1, d')"
    and txs: "t_txs (db_tables d') = [sample_row, row_of_tx bob_tx]"
    using bob_stored by (auto split: prod.splits)
  have "process_transaction_batch bob_rpc cl sample_pg any_b58 (\<lambda>_. Some 9) (\<lambda>xs. xs) [''s9''] {ones}
      (sample_db, 0) = (Ok 1, (d', 1))"
    by (simp add: process_transaction_batch_def collect_chunks_concat bob_collect bob_registers st
        del: collect_chunk.simps)
  then show ?thesis
    using cl txs by (simp add: process_batch_def sample_get_all bob_signature Let_def)
qed

lemma sample_run:
  "\<exists>s. system_run sample_externals sample_events sample_start = Some s \<and>
     t_txs (db_tables (sy_db s)) = [sample_row, row_of_tx bob_tx] \<and>
     wp_done (sy_pool s) = [[bob_tx]]"
proof -
  obtain d' where "process_batch bob_rpc sample_pg any_b58 (\<lambda>_. Some 9) (\<lambda>xs. xs) (from_env (\<lambda>_. None))
      [bob_tx] (sample_db, 0) = (Ok (), (d', 1))"
    and "t_txs (db_tables d') = [sample_row, row_of_tx bob_tx]"
    using bob_batch by blast
  then show ?thesis
    by (simp add: sample_events_def sample_start_def sample_externals_def system_new_def service_new_def
        batch_manager_new_def polling_batch_config_def add_transaction_def add_locked_def with_buffer_def
        should_flush_def collect_transactions_for_flush_def send_transactions_to_worker_def outbox_def
        pool_of_def receiver_alive_def receiver_free_def worker_at_def set_worker_def
        channel_capacity_def)
qed

lemma sample_drain: "iteration_order (ex_drain sample_externals)"
  using rev_order.iteration_order_axioms by (simp add: sample_externals_def)

lemma sample_added: "added sample_events = [bob_tx]"
  by (simp add: sample_events_def)

theorem pipeline_conserves_witness:
  "\<exists>s. system_run sample_externals sample_events sample_start = Some s \<and>
     wp_done (sy_pool s) = [[bob_tx]] \<and> concat (outbox s) = [] \<and>
     buffered (bm_buffer (sv_manager (sy_service s))) = []"
proof -
  obtain s where s: "system_run sample_externals sample_events sample_start = Some s"
    and fin: "wp_done (sy_pool s) = [[bob_tx]]"
    using sample_run by blast
  from pipeline_conserves [OF sample_drain s [unfolded sample_start_def]]
  have "mset (buffered (bm_buffer (sv_manager (sy_service s)))) = {#} \<and> mset (concat (outbox s)) = {#}"
    by (simp add: fin sample_added del: mset_concat)
  then show ?thesis using s fin by (auto simp del: mset_concat)
qed

theorem process_refines_ledger_witness:
  "\<exists>s. system_run sample_externals sample_events sample_start = Some s \<and>
     ledger_step\<^sup>*\<^sup>* (ledger_of (db_tables sample_db)) (ledger_of (db_tables (sy_db s))) \<and>
     ledger_of (db_tables sample_db) \<le> ledger_of (db_tables (sy_db s))"
proof -
  obtain s where s: "system_run sample_externals sample_events sample_start = Some s"
    using sample_run by blast
  have "sy_db sample_start = sample_db" by (simp add: sample_start_def system_new_def)
  with process_refines_ledger [OF s] s show ?thesis by auto
qed

theorem stored_were_added_witness:
  "\<exists>s new. system_run sample_externals sample_events sample_start = Some s \<and>
     t_txs (db_tables (sy_db s)) = [sample_row] @ new \<and> new = [row_of_tx bob_tx] \<and>
     r_signature ` set new \<subseteq> {''s9''}"
proof -
  obtain s where s: "system_run sample_externals sample_events sample_start = Some s"
    and txs: "t_txs (db_tables (sy_db s)) = [sample_row, row_of_tx bob_tx]"
    using sample_run by blast
  have old: "t_txs (db_tables sample_db) = [sample_row]" by (simp add: sample_db_def)
  from stored_were_added [OF sample_drain sample_tables_ok s [unfolded sample_start_def]]
  obtain new where "t_txs (db_tables (sy_db s)) = [sample_row] @ new"
    "r_signature ` set new \<subseteq> {''s9''}"
    unfolding old sample_added by (auto simp: bob_signature)
  with s txs show ?thesis by auto
qed

text \<open>With the batch task first, nothing is stored. After a polling task that had the lock before it, the
  transaction that is then in the buffer is.\<close>

definition early_events :: "nat system_event list" where
  "early_events = [Polling (PollerLock 0), Polling (PollerAdd 0 bob_tx 1 1),
     Polling (StartBatch 5000000000 5000000000)]"

definition late_events :: "nat system_event list" where
  "late_events = [Hand_Over, Take_Lock 0, Receive 0, Work 0 (\<lambda>_. 9)]"

lemma early_run:
  "\<exists>s0 s. system_run sample_externals early_events sample_start = Some s0 \<and>
     occupied (sy_service s0) \<and> in_flight s0 = {#bob_tx#} \<and>
     system_run sample_externals late_events s0 = Some s \<and>
     t_txs (db_tables (sy_db s)) = [sample_row, row_of_tx bob_tx]"
proof -
  obtain d' where "process_batch bob_rpc sample_pg any_b58 (\<lambda>_. Some 9) (\<lambda>xs. xs) (from_env (\<lambda>_. None))
      [bob_tx] (sample_db, 0) = (Ok (), (d', 1))"
    and "t_txs (db_tables d') = [sample_row, row_of_tx bob_tx]"
    using bob_batch by blast
  then show ?thesis
    by (simp add: early_events_def late_events_def sample_start_def sample_externals_def system_new_def
        service_new_def batch_manager_new_def polling_batch_config_def add_transaction_def add_locked_def
        with_buffer_def should_flush_def collect_transactions_for_flush_def perform_flush_check_def check_locked_def
        send_transactions_to_worker_def outbox_def occupied_def in_flight_def in_hand_def buffered_def
        pool_of_def receiver_alive_def receiver_free_def worker_at_def set_worker_def channel_capacity_def)
qed

theorem service_stores_nothing_witness:
  "(\<exists>s. system_run sample_externals
       [Polling (StartBatch 1 1), Surroundings [] 7, Polling (TickBatch 5000000000 5000000000)]
       sample_start = Some s \<and> t_txs (db_tables (sy_db s)) = [sample_row]) \<and>
   (\<exists>s0 s. system_run sample_externals early_events sample_start = Some s0 \<and>
     system_run sample_externals late_events s0 = Some s \<and>
     t_txs (db_tables (sy_db s)) = [sample_row, row_of_tx bob_tx] \<and> in_flight s \<subseteq># {#bob_tx#})"
proof
  let ?fs = "[Polling (StartBatch 1 1)] :: nat system_event list"
  let ?es = "[Surroundings [] 7, Polling (TickBatch 5000000000 5000000000)] :: nat system_event list"
  obtain s0 where s0: "system_run sample_externals ?fs sample_start = Some s0" and "occupied (sy_service s0)"
    by (simp add: sample_start_def system_new_def service_new_def occupied_def)
  then obtain s where s: "system_run sample_externals ?es s0 = Some s"
    by (simp add: occupied_def)
  have "Polling Cancel \<notin> set ?es" by simp
  from service_stores_nothing [OF sample_drain sample_tables_ok s0 [unfolded sample_start_def]
      \<open>occupied (sy_service s0)\<close> this s]
  have "t_txs (db_tables (sy_db s)) = [sample_row]" by (simp add: sample_db_def)
  moreover have "system_run sample_externals (?fs @ ?es) sample_start = Some s"
    unfolding system_run_append s0 using s by simp
  ultimately show "\<exists>s. system_run sample_externals
       [Polling (StartBatch 1 1), Surroundings [] 7, Polling (TickBatch 5000000000 5000000000)]
       sample_start = Some s \<and> t_txs (db_tables (sy_db s)) = [sample_row]" by auto
next
  obtain s0 s where run: "system_run sample_externals early_events sample_start = Some s0"
    "occupied (sy_service s0)" "in_flight s0 = {#bob_tx#}" "system_run sample_externals late_events s0 = Some s"
    "t_txs (db_tables (sy_db s)) = [sample_row, row_of_tx bob_tx]"
    using early_run by blast
  have "Polling Cancel \<notin> set late_events" by (simp add: late_events_def)
  from service_stores_nothing [OF sample_drain sample_tables_ok run(1) [unfolded sample_start_def] run(2)
      this run(4)] run
  show "\<exists>s0 s. system_run sample_externals early_events sample_start = Some s0 \<and>
     system_run sample_externals late_events s0 = Some s \<and>
     t_txs (db_tables (sy_db s)) = [sample_row, row_of_tx bob_tx] \<and> in_flight s \<subseteq># {#bob_tx#}"
    by auto
qed

end
